(* ===== verification/Prelude.thy ===== *)
theory Prelude
  imports Main "HOL-Library.Word" "HOL-Library.Log_Nat" "HOL-Library.Multiset" "HOL-Library.Sublist"
begin

text \<open>
  Shared vocabulary of the development: the machine integer types of the Rust sources, the
  standard-library pieces every crate uses (\<open>Ordering\<close>, slice sorting, \<open>partition_point\<close>,
  \<open>Vec::retain\<close>, saturating arithmetic, little-endian bytes) and the lemmas about them that
  the component theories share.

  Conventions.  \<open>u8\<close>, \<open>u16\<close>, \<open>u32\<close> and \<open>u64\<close> are words of that width, so arithmetic wraps as it
  does in the release profile.  \<open>usize\<close> values that are lengths or positions of in-memory
  vectors are \<open>nat\<close>.  A \<open>String\<close> or \<open>str\<close> is its UTF-8 byte sequence, an Isabelle \<open>string\<close>
  (a list of 8-bit characters), so that \<open>length\<close> is Rust's \<open>len\<close> and the byte-wise
  lexicographic order of \<open>List_Lexorder\<close> is Rust's \<open>Ord for str\<close>.
\<close>

section \<open>Machine integers\<close>

type_synonym u8 = "8 word"
type_synonym u16 = "16 word"
type_synonym u32 = "32 word"
type_synonym u64 = "64 word"

named_theorems wf_intros \<open>preservation of well-formedness predicates\<close>
named_theorems result_simps \<open>evaluation of result-typed operations\<close>

text \<open>\<open>saturating_add\<close> and \<open>saturating_sub\<close> of the unsigned integers.\<close>

definition sat_add :: "'a::len word \<Rightarrow> 'a word \<Rightarrow> 'a word" where
  "sat_add a b = (if unat a + unat b < 2 ^ LENGTH('a) then a + b else - 1)"

definition sat_sub :: "'a::len word \<Rightarrow> 'a word \<Rightarrow> 'a word" where
  "sat_sub a b = (if b \<le> a then a - b else 0)"

lemma unat_minus_one_max: "unat (- 1 :: 'a::len word) = 2 ^ LENGTH('a) - 1"
  by (simp add: unsigned_minus_1_eq_mask mask_eq_exp_minus_1)

lemma unat_less:
  "unat (a :: u8) < 256" "unat (b :: u16) < 65536" "unat (c :: u32) < 4294967296"
  "unat (d :: u64) < 18446744073709551616"
  using unsigned_less [of a] unsigned_less [of b] unsigned_less [of c] unsigned_less [of d] by simp_all

lemma unat_sat_add: "unat (sat_add a b) = min (unat a + unat b) (2 ^ LENGTH('a) - 1)"
  for a b :: "'a::len word"
proof (cases "unat a + unat b < 2 ^ LENGTH('a)")
  case True
  then have "unat (a + b) = unat a + unat b"
    using unat_add_lem by blast
  with True show ?thesis by (simp add: sat_add_def)
next
  case False
  then have "unat (sat_add a b) = 2 ^ LENGTH('a) - 1"
    by (simp add: sat_add_def unat_minus_one_max)
  with False show ?thesis by linarith
qed

lemma unat_sat_sub: "unat (sat_sub a b) = unat a - unat b"
  for a b :: "'a::len word"
proof (cases "b \<le> a")
  case True
  then show ?thesis by (simp add: sat_sub_def unat_sub)
next
  case False
  then show ?thesis by (simp add: sat_sub_def word_le_nat_alt)
qed

section \<open>Ordering, sorting\<close>

text \<open>\<open>std::cmp::Ordering\<close> and the comparators built from it.\<close>

datatype ordering = Less | Equal | Greater

fun reverse_ord :: "ordering \<Rightarrow> ordering" where
  "reverse_ord Less = Greater"
| "reverse_ord Equal = Equal"
| "reverse_ord Greater = Less"

fun then_with :: "ordering \<Rightarrow> ordering \<Rightarrow> ordering" where
  "then_with Equal o2 = o2"
| "then_with o1 o2 = o1"

definition cmp_of :: "'a::linorder \<Rightarrow> 'a \<Rightarrow> ordering" where
  "cmp_of a b = (if a < b then Less else if a = b then Equal else Greater)"

type_synonym 'a comparator = "'a \<Rightarrow> 'a \<Rightarrow> ordering"

definition not_after :: "'a comparator \<Rightarrow> 'a \<Rightarrow> 'a \<Rightarrow> bool" where
  "not_after cmp a b \<longleftrightarrow> cmp a b \<noteq> Greater"

text \<open>
  What the slice sorts ask of a comparator on the elements they sort: a total preorder.
\<close>

definition total_preorder_on :: "'a set \<Rightarrow> 'a comparator \<Rightarrow> bool" where
  "total_preorder_on A cmp \<longleftrightarrow>
     (\<forall>a\<in>A. \<forall>b\<in>A. not_after cmp a b \<or> not_after cmp b a) \<and>
     (\<forall>a\<in>A. \<forall>b\<in>A. \<forall>c\<in>A. not_after cmp a b \<longrightarrow> not_after cmp b c \<longrightarrow> not_after cmp a c)"

lemma total_preorder_onD:
  assumes "total_preorder_on A cmp"
  shows "a \<in> A \<Longrightarrow> b \<in> A \<Longrightarrow> \<not> not_after cmp a b \<Longrightarrow> not_after cmp b a"
    and "a \<in> A \<Longrightarrow> b \<in> A \<Longrightarrow> c \<in> A \<Longrightarrow> not_after cmp a b \<Longrightarrow> not_after cmp b c \<Longrightarrow> not_after cmp a c"
  using assms unfolding total_preorder_on_def by blast+

lemma total_preorder_on_subset:
  "total_preorder_on A cmp \<Longrightarrow> B \<subseteq> A \<Longrightarrow> total_preorder_on B cmp"
  unfolding total_preorder_on_def by (blast dest: subsetD)

definition sorted_by :: "'a comparator \<Rightarrow> 'a list \<Rightarrow> bool" where
  "sorted_by cmp xs \<longleftrightarrow> sorted_wrt (not_after cmp) xs"

text \<open>
  \<open>sort_by\<close> is the standard library's stable sort; its result for a total preorder is fully
  determined, and this insertion sort computes it.
\<close>

fun insort_by :: "'a comparator \<Rightarrow> 'a \<Rightarrow> 'a list \<Rightarrow> 'a list" where
  "insort_by cmp x [] = [x]"
| "insort_by cmp x (y # ys) =
     (if not_after cmp x y then x # y # ys else y # insort_by cmp x ys)"

definition sort_by :: "'a comparator \<Rightarrow> 'a list \<Rightarrow> 'a list" where
  "sort_by cmp xs = foldr (insort_by cmp) xs []"

text \<open>
  \<open>sort_unstable_by\<close> promises a permutation, sorted when the comparator is a total preorder,
  and leaves the order of equivalent elements open.  Definitions that call it take the sort
  as an argument, and theorems about them assume this contract of the argument.
\<close>

definition sort_contract :: "('a comparator \<Rightarrow> 'a list \<Rightarrow> 'a list) \<Rightarrow> bool" where
  "sort_contract usort \<longleftrightarrow>
     (\<forall>cmp xs. mset (usort cmp xs) = mset xs \<and>
        (total_preorder_on (set xs) cmp \<longrightarrow> sorted_by cmp (usort cmp xs)))"

lemma sort_contract_mset: "sort_contract usort \<Longrightarrow> mset (usort cmp xs) = mset xs"
  by (simp add: sort_contract_def)

lemma sort_contract_set: "sort_contract usort \<Longrightarrow> set (usort cmp xs) = set xs"
  by (metis sort_contract_mset set_mset_mset)

lemma sort_contract_length: "sort_contract usort \<Longrightarrow> length (usort cmp xs) = length xs"
  by (metis sort_contract_mset size_mset)

lemma sort_contract_distinct: "sort_contract usort \<Longrightarrow> distinct (usort cmp xs) = distinct xs"
  by (metis sort_contract_mset mset_eq_imp_distinct_iff)

lemma sort_contract_sorted:
  "sort_contract usort \<Longrightarrow> total_preorder_on (set xs) cmp \<Longrightarrow> sorted_by cmp (usort cmp xs)"
  by (simp add: sort_contract_def)

lemma mset_insort_by: "mset (insort_by cmp x xs) = add_mset x (mset xs)"
  by (induction xs) auto

lemma mset_sort_by [simp]: "mset (sort_by cmp xs) = mset xs"
  by (induction xs) (auto simp: sort_by_def mset_insort_by)

lemma set_sort_by [simp]: "set (sort_by cmp xs) = set xs"
  by (metis mset_sort_by set_mset_mset)

lemma length_sort_by [simp]: "length (sort_by cmp xs) = length xs"
  by (metis mset_sort_by size_mset)

lemma distinct_sort_by [simp]: "distinct (sort_by cmp xs) = distinct xs"
  by (metis mset_sort_by mset_eq_imp_distinct_iff)

lemma set_insort_by [simp]: "set (insort_by cmp x xs) = insert x (set xs)"
  by (induction xs) auto

lemma sorted_insort_by:
  assumes "total_preorder_on (insert x (set xs)) cmp" and "sorted_by cmp xs"
  shows "sorted_by cmp (insort_by cmp x xs)"
  using assms
proof (induction xs)
  case Nil
  then show ?case by (simp add: sorted_by_def)
next
  case (Cons y ys)
  have pre: "total_preorder_on (insert x (set ys)) cmp"
    by (rule total_preorder_on_subset [OF Cons.prems(1)]) auto
  have tail: "sorted_by cmp ys" and y_le: "\<forall>z\<in>set ys. not_after cmp y z"
    using Cons.prems(2) by (auto simp: sorted_by_def)
  show ?case
  proof (cases "not_after cmp x y")
    case True
    have "\<forall>z\<in>set ys. not_after cmp x z"
      using total_preorder_onD(2) [OF Cons.prems(1), of x y] True y_le by simp
    with True Cons.prems(2) y_le show ?thesis by (simp add: sorted_by_def)
  next
    case False
    then have "not_after cmp y x"
      using total_preorder_onD(1) [OF Cons.prems(1), of x y] by simp
    with False Cons.IH [OF pre tail] y_le show ?thesis by (simp add: sorted_by_def)
  qed
qed

lemma sorted_sort_by:
  assumes "total_preorder_on (set xs) cmp"
  shows "sorted_by cmp (sort_by cmp xs)"
  using assms
proof (induction xs)
  case Nil
  then show ?case by (simp add: sort_by_def sorted_by_def)
next
  case (Cons x xs)
  have "total_preorder_on (set xs) cmp"
    by (rule total_preorder_on_subset [OF Cons.prems]) auto
  with Cons.IH have "sorted_by cmp (sort_by cmp xs)" by blast
  moreover have "total_preorder_on (insert x (set (sort_by cmp xs))) cmp"
    using Cons.prems by simp
  ultimately show ?case
    using sorted_insort_by [of x "sort_by cmp xs" cmp] by (simp add: sort_by_def)
qed

lemma sort_by_contract [simp]: "sort_contract sort_by"
  by (simp add: sort_contract_def sorted_sort_by)

lemma not_after_cmp_of [simp]: "not_after cmp_of a b \<longleftrightarrow> a \<le> b"
  by (auto simp: not_after_def cmp_of_def)

lemma not_after_reverse_cmp_of [simp]: "not_after (\<lambda>a b. cmp_of b a) a b \<longleftrightarrow> b \<le> a"
  by (auto simp: not_after_def cmp_of_def)

lemma total_preorder_key:
  "(\<And>a b. not_after cmp a b \<longleftrightarrow> f a \<le> f b) \<Longrightarrow> total_preorder_on A cmp"
  for f :: "'a \<Rightarrow> 'k::linorder"
  unfolding total_preorder_on_def by (auto intro: order_trans)

lemma total_preorder_key_on:
  "(\<And>a b. a \<in> A \<Longrightarrow> b \<in> A \<Longrightarrow> not_after cmp a b \<longleftrightarrow> f a \<le> f b) \<Longrightarrow> total_preorder_on A cmp"
  for f :: "'a \<Rightarrow> 'k::linorder"
  unfolding total_preorder_on_def by (auto intro: order_trans)

lemma sort_contract_key:
  fixes f :: "'a \<Rightarrow> 'k::linorder"
  assumes "sort_contract usort" and key: "\<And>a b. not_after cmp a b \<longleftrightarrow> f a \<le> f b"
  shows "sorted_wrt (\<lambda>a b. f a \<le> f b) (usort cmp xs)"
proof -
  have "sorted_by cmp (usort cmp xs)"
    by (rule sort_contract_sorted [OF assms(1) total_preorder_key [OF key]])
  then show ?thesis
    unfolding sorted_by_def by (rule sorted_wrt_mono_rel [rotated]) (simp add: key)
qed

text \<open>A stable sort by descending key.\<close>

text \<open>\<open>select_nth_unstable_by\<close>: what it promises of the element at the given position.\<close>

definition select_contract :: "('a comparator \<Rightarrow> nat \<Rightarrow> 'a list \<Rightarrow> 'a list) \<Rightarrow> bool" where
  "select_contract sel \<longleftrightarrow>
     (\<forall>cmp k xs. k < length xs \<longrightarrow> mset (sel cmp k xs) = mset xs \<and>
        (total_preorder_on (set xs) cmp \<longrightarrow>
           (\<forall>i \<le> k. not_after cmp (sel cmp k xs ! i) (sel cmp k xs ! k)) \<and>
           (\<forall>j < length xs. k \<le> j \<longrightarrow> not_after cmp (sel cmp k xs ! k) (sel cmp k xs ! j))))"

lemma sort_by_selects: "select_contract (\<lambda>cmp k xs. sort_by cmp xs)"
  unfolding select_contract_def
proof (intro allI impI conjI)
  fix cmp :: "'a comparator" and k i xs
  assume pre: "total_preorder_on (set xs) cmp" "k < length xs"
  then have s: "sorted_wrt (not_after cmp) (sort_by cmp xs)"
    using sorted_sort_by [OF pre(1)] by (simp add: sorted_by_def)
  have refl: "not_after cmp (sort_by cmp xs ! k) (sort_by cmp xs ! k)"
  proof -
    have "sort_by cmp xs ! k \<in> set xs" using pre(2) by (metis length_sort_by nth_mem set_sort_by)
    then show ?thesis using pre(1) by (auto simp: total_preorder_on_def)
  qed
  show "not_after cmp (sort_by cmp xs ! i) (sort_by cmp xs ! k)" if "i \<le> k"
    using s refl pre(2) that by (cases "i = k") (auto simp: sorted_wrt_iff_nth_less)
  show "not_after cmp (sort_by cmp xs ! k) (sort_by cmp xs ! i)" if "i < length xs" "k \<le> i"
    using s refl that by (cases "i = k") (auto simp: sorted_wrt_iff_nth_less)
qed simp

lemma sort_by_descending:
  fixes g :: "'a \<Rightarrow> 'k::linorder"
  shows "sorted_wrt (\<lambda>a b. g b \<le> g a) (sort_by (\<lambda>a b. cmp_of (g b) (g a)) xs)"
proof -
  let ?cmp = "\<lambda>a b. cmp_of (g b) (g a)"
  have key: "not_after ?cmp a b \<longleftrightarrow> g b \<le> g a" for a b
    by (auto simp: not_after_def cmp_of_def)
  then have "sorted_by ?cmp (sort_by ?cmp xs)"
    by (intro sorted_sort_by) (auto simp: total_preorder_on_def intro: order_trans)
  then show ?thesis
    unfolding sorted_by_def by (rule sorted_wrt_mono_rel [rotated]) (simp add: key)
qed

section \<open>Vectors and slices\<close>

text \<open>
  \<open>partition_point\<close>: the index of the first element that fails a predicate, computed by
  bisection in the library; on a slice partitioned by the predicate (which is what it asks)
  that is the length of the longest prefix that satisfies it.
\<close>

definition partition_point :: "('a \<Rightarrow> bool) \<Rightarrow> 'a list \<Rightarrow> nat" where
  "partition_point p xs = length (takeWhile p xs)"

lemma partition_point_le [simp]: "partition_point p xs \<le> length xs"
  by (simp add: partition_point_def length_takeWhile_le)

lemma drop_partition_point: "drop (partition_point p xs) xs = dropWhile p xs"
  by (simp add: partition_point_def dropWhile_eq_drop)

text \<open>\<open>iter().position(..)\<close>.\<close>

fun position :: "('a \<Rightarrow> bool) \<Rightarrow> 'a list \<Rightarrow> nat option" where
  "position p [] = None"
| "position p (x # xs) = (if p x then Some 0 else map_option Suc (position p xs))"

lemma position_SomeD:
  "position p xs = Some i \<Longrightarrow> i < length xs \<and> p (xs ! i) \<and> (\<forall>j<i. \<not> p (xs ! j))"
proof (induction xs arbitrary: i)
  case Nil
  then show ?case by simp
next
  case (Cons x xs)
  then show ?case
    by (cases i) (auto split: if_splits simp: less_Suc_eq_0_disj)
qed

lemma position_NoneD: "position p xs = None \<longleftrightarrow> (\<forall>x\<in>set xs. \<not> p x)"
  by (induction xs) auto

lemma position_distinct:
  assumes "distinct xs" and "i < length xs"
  shows "position (\<lambda>x. x = xs ! i) xs = Some i"
  using assms
proof (induction xs arbitrary: i)
  case Nil
  then show ?case by simp
next
  case (Cons x xs)
  then show ?case by (cases i) auto
qed

text \<open>Reading a sub-slice \<open>data[a..b]\<close>; out of range it panics, which is \<open>None\<close> here.\<close>

definition slice :: "'a list \<Rightarrow> nat \<Rightarrow> nat \<Rightarrow> 'a list option" where
  "slice xs a b = (if a \<le> b \<and> b \<le> length xs then Some (take (b - a) (drop a xs)) else None)"

lemma slice_append [simp]:
  "slice (xs @ ys @ zs) (length xs) (length xs + length ys) = Some ys"
  by (simp add: slice_def)

lemma length_slice: "slice xs a b = Some ys \<Longrightarrow> length ys = b - a"
  by (auto simp: slice_def split: if_splits)

text \<open>\<open>iter().filter(..).sum()\<close> and friends are the list functions of HOL.  A bounded page:\<close>

definition page_of :: "nat \<Rightarrow> nat \<Rightarrow> 'a list \<Rightarrow> 'a list" where
  "page_of offset limit xs = take limit (drop offset xs)"

lemma length_page_of: "length (page_of off n xs) = min n (length xs - off)"
  by (simp add: page_of_def min.commute)

lemma set_page_of: "set (page_of off n xs) \<subseteq> set xs"
  unfolding page_of_def by (meson in_set_dropD in_set_takeD subsetI)

lemma distinct_page_of: "distinct xs \<Longrightarrow> distinct (page_of off n xs)"
  by (simp add: page_of_def)

lemma sorted_wrt_page_of: "sorted_wrt P xs \<Longrightarrow> sorted_wrt P (page_of off n xs)"
  by (simp add: page_of_def sorted_wrt_drop sorted_wrt_take)

section \<open>Little-endian bytes\<close>

text \<open>\<open>to_le_bytes\<close> and \<open>from_le_bytes\<close> of the unsigned integers.\<close>

fun le_bytes :: "nat \<Rightarrow> nat \<Rightarrow> u8 list" where
  "le_bytes 0 n = []"
| "le_bytes (Suc w) n = word_of_nat (n mod 256) # le_bytes w (n div 256)"

fun of_le_bytes :: "u8 list \<Rightarrow> nat" where
  "of_le_bytes [] = 0"
| "of_le_bytes (b # bs) = unat b + 256 * of_le_bytes bs"

definition u32_le :: "u32 \<Rightarrow> u8 list" where
  "u32_le x = le_bytes 4 (unat x)"

definition u64_le :: "u64 \<Rightarrow> u8 list" where
  "u64_le x = le_bytes 8 (unat x)"

definition u32_from_le :: "u8 list \<Rightarrow> u32" where
  "u32_from_le bs = word_of_nat (of_le_bytes bs)"

definition u64_from_le :: "u8 list \<Rightarrow> u64" where
  "u64_from_le bs = word_of_nat (of_le_bytes bs)"

lemma length_le_bytes [simp]: "length (le_bytes w n) = w"
  by (induction w arbitrary: n) auto

lemma of_le_bytes_le_bytes: "of_le_bytes (le_bytes w n) = n mod 256 ^ w"
proof (induction w arbitrary: n)
  case 0
  then show ?case by simp
next
  case (Suc w)
  have "unat (word_of_nat (n mod 256) :: u8) = n mod 256"
    by (simp add: unat_of_nat)
  then show ?case
    by (simp add: Suc.IH mod_mult2_eq)
qed

lemma length_u32_le [simp]: "length (u32_le x) = 4"
  by (simp add: u32_le_def)

lemma length_u64_le [simp]: "length (u64_le x) = 8"
  by (simp add: u64_le_def)

lemma u32_from_le_u32_le [simp]: "u32_from_le (u32_le x) = x"
proof -
  have "unat x < 256 ^ 4" using unsigned_less [of x] by simp
  then show ?thesis
    by (simp add: u32_from_le_def u32_le_def of_le_bytes_le_bytes)
qed

lemma u64_from_le_u64_le [simp]: "u64_from_le (u64_le x) = x"
proof -
  have "unat x < 256 ^ 8" using unsigned_less [of x] by simp
  then show ?thesis
    by (simp add: u64_from_le_def u64_le_def of_le_bytes_le_bytes)
qed

section \<open>Decimal numbers\<close>

text \<open>\<open>to_string\<close> of an unsigned integer, and the zero-padded form \<open>{:06}\<close>.\<close>

fun show_nat :: "nat \<Rightarrow> string" where
  "show_nat n =
     (if n < 10 then [char_of (48 + n)] else show_nat (n div 10) @ [char_of (48 + n mod 10)])"

declare show_nat.simps [simp del]

definition show_padded :: "nat \<Rightarrow> nat \<Rightarrow> string" where
  "show_padded w n = replicate (w - length (show_nat n)) (CHR ''0'') @ show_nat n"

text \<open>
  \<open>str::parse\<close> for an unsigned integer below \<open>bound\<close>: an optional plus sign, then at least
  one decimal digit; anything else, and overflow, is an error.
\<close>

definition dec_digit :: "char \<Rightarrow> nat option" where
  "dec_digit c =
     (let n = (of_char c :: nat) in if 48 \<le> n \<and> n \<le> 57 then Some (n - 48) else None)"

fun parse_digits :: "nat \<Rightarrow> string \<Rightarrow> nat option" where
  "parse_digits acc [] = Some acc"
| "parse_digits acc (c # cs) =
     (case dec_digit c of None \<Rightarrow> None | Some d \<Rightarrow> parse_digits (10 * acc + d) cs)"

definition parse_uint :: "nat \<Rightarrow> string \<Rightarrow> nat option" where
  "parse_uint bound s =
     (let ds = (case s of c # cs \<Rightarrow> (if c = CHR ''+'' then cs else s) | [] \<Rightarrow> [])
      in if ds = [] then None
         else (case parse_digits 0 ds of None \<Rightarrow> None
               | Some n \<Rightarrow> if n < bound then Some n else None))"

lemma dec_digit_char: "d < 10 \<Longrightarrow> dec_digit (char_of (48 + d)) = Some d"
  by (simp add: dec_digit_def)

lemma parse_digits_append:
  "parse_digits acc (s @ t) =
     (case parse_digits acc s of None \<Rightarrow> None | Some n \<Rightarrow> parse_digits n t)"
  by (induction acc s rule: parse_digits.induct) (auto split: option.splits)

lemma parse_digits_show_nat: "parse_digits 0 (show_nat n) = Some n"
proof (induction n rule: show_nat.induct)
  case (1 n)
  show ?case
  proof (cases "n < 10")
    case True
    then show ?thesis by (subst show_nat.simps) (simp add: dec_digit_char)
  next
    case False
    then have "parse_digits 0 (show_nat n) = parse_digits (n div 10) [char_of (48 + n mod 10)]"
      using 1 by (subst show_nat.simps) (simp add: parse_digits_append)
    then show ?thesis by (simp add: dec_digit_char)
  qed
qed

lemma show_nat_not_Nil [simp]: "show_nat n \<noteq> []"
  by (subst show_nat.simps) simp

lemma hd_show_nat_digit: "dec_digit (hd (show_nat n)) \<noteq> None"
proof (induction n rule: show_nat.induct)
  case (1 n)
  then show ?case by (subst show_nat.simps) (auto simp: dec_digit_char hd_append)
qed

lemma parse_uint_digits:
  assumes "s \<noteq> []" "hd s \<noteq> CHR ''+''"
  shows "parse_uint bound s =
    (case parse_digits 0 s of None \<Rightarrow> None | Some n \<Rightarrow> if n < bound then Some n else None)"
  using assms by (cases s) (simp_all add: parse_uint_def)

text \<open>Printing and parsing are inverse.\<close>

lemma parse_uint_show_nat: "n < bound \<Longrightarrow> parse_uint bound (show_nat n) = Some n"
proof -
  assume "n < bound"
  have "hd (show_nat n) \<noteq> CHR ''+''"
    using hd_show_nat_digit [of n] by (auto simp: dec_digit_def)
  then show ?thesis using \<open>n < bound\<close> by (simp add: parse_uint_digits parse_digits_show_nat)
qed

lemma parse_digits_zeros: "parse_digits 0 (replicate k (CHR ''0'') @ s) = parse_digits 0 s"
  by (induction k) (simp_all add: dec_digit_def)

lemma parse_uint_show_padded: "n < bound \<Longrightarrow> parse_uint bound (show_padded w n) = Some n"
proof -
  assume n: "n < bound"
  have "hd (show_padded w n) \<noteq> CHR ''+''"
    using hd_show_nat_digit [of n]
    by (cases "w - length (show_nat n)") (auto simp: show_padded_def dec_digit_def)
  then show ?thesis
    using n by (simp add: parse_uint_digits show_padded_def parse_digits_zeros parse_digits_show_nat)
qed

lemma show_padded_inj: "show_padded w m = show_padded w n \<longleftrightarrow> m = n"
proof
  assume "show_padded w m = show_padded w n"
  moreover have "m < Suc (max m n)" "n < Suc (max m n)" by simp_all
  ultimately show "m = n"
    using parse_uint_show_padded [of m "Suc (max m n)" w] parse_uint_show_padded [of n "Suc (max m n)" w]
    by (metis option.inject)
qed simp

section \<open>Joining strings\<close>

text \<open>\<open>join\<close> of the slices; a separator that is in none of the strings can be read back.\<close>

fun join :: "string \<Rightarrow> string list \<Rightarrow> string" where
  "join sep [] = []"
| "join sep [s] = s"
| "join sep (s # ss) = s @ sep @ join sep ss"

lemma append_marker_inj:
  "c \<notin> set a \<Longrightarrow> c \<notin> set b \<Longrightarrow> a @ c # x = b @ c # y \<longleftrightarrow> a = b \<and> x = y"
proof (induction a arbitrary: b)
  case Nil
  then show ?case by (cases b) auto
next
  case (Cons z a)
  then show ?case by (cases b) auto
qed

lemma join_Cons: "ss \<noteq> [] \<Longrightarrow> join [c] (s # ss) = s @ c # join [c] ss"
  by (cases ss) auto

lemma join_free: "ss \<noteq> [] \<Longrightarrow> \<forall>s \<in> set ss. c \<notin> set s \<Longrightarrow> c \<in> set (join [c] ss) \<longleftrightarrow> tl ss \<noteq> []"
  by (induction "[c]" ss rule: join.induct) auto

lemma join_inj:
  assumes "ss \<noteq> []" "ts \<noteq> []" "\<forall>s \<in> set ss. c \<notin> set s" "\<forall>t \<in> set ts. c \<notin> set t"
  shows "join [c] ss = join [c] ts \<longleftrightarrow> ss = ts"
  using assms
proof (induction ss arbitrary: ts)
  case (Cons s ss)
  obtain t ts' where ts: "ts = t # ts'" using Cons.prems(2) by (cases ts) auto
  show ?case
  proof (cases "ss = [] \<or> ts' = []")
    case True
    then show ?thesis
      using join_free [of "s # ss" c] join_free [of ts c] Cons.prems ts by (cases ss; cases ts') fastforce+
  next
    case False
    then have "join [c] (s # ss) = s @ c # join [c] ss" "join [c] ts = t @ c # join [c] ts'"
      by (simp_all add: ts join_Cons)
    then show ?thesis
      using append_marker_inj [of c s t "join [c] ss" "join [c] ts'"] Cons.IH [of ts'] Cons.prems False ts
      by auto
  qed
qed simp

end
