(* ===== verification/Floats.thy ===== *)
theory Floats
  imports Prelude
begin

text \<open>
  The Rust types \<open>f32\<close> and \<open>f64\<close>: IEEE 754 binary32 and binary64, bit for bit.  A float is its
  bit pattern; \<open>+\<close>, \<open>-\<close>, \<open>*\<close>, \<open>/\<close>, the integer and width conversions and the comparisons are
  defined on it with rounding to nearest, ties to even, including infinities, signed zeros,
  subnormal numbers and NaN.  Rust leaves the payload of a computed NaN open; here it is the
  quiet NaN with an empty payload.

  A format is given by its number of mantissa bits, the magnitude pattern of infinity and the
  exponent of its smallest positive number: every finite value is a multiple of
  \<open>2 ^ - unit_exp\<close>, so values are integers in that unit and all arithmetic below is exact
  integer arithmetic followed by one rounding (\<open>fround\<close>).

  The lemmas show that rounding is monotone and exact on representable values, which is what
  the scoring, hashing and pruning code relies on.
\<close>

section \<open>Formats, values and rounding\<close>

record fmt =
  mant :: nat
  top :: nat
  unit_exp :: nat

definition b32 :: fmt where
  "b32 = \<lparr>mant = 23, top = 255 * 2 ^ 23, unit_exp = 149\<rparr>"

definition b64 :: fmt where
  "b64 = \<lparr>mant = 52, top = 2047 * 2 ^ 52, unit_exp = 1074\<rparr>"

text \<open>The value of a finite magnitude pattern, in units.\<close>

definition mag_val :: "nat \<Rightarrow> nat \<Rightarrow> nat" where
  "mag_val M m =
     (if m div 2 ^ M = 0 then m else (2 ^ M + m mod 2 ^ M) * 2 ^ (m div 2 ^ M - 1))"

text \<open>Round half to even of the quotient \<open>n / d\<close>.\<close>

definition rhe :: "nat \<Rightarrow> nat \<Rightarrow> nat" where
  "rhe n d =
     (let q = n div d; r = n mod d
      in if 2 * r < d \<or> (2 * r = d \<and> even q) then q else q + 1)"

text \<open>The magnitude pattern nearest to \<open>n / d\<close> units; overflow gives infinity.\<close>

definition fround :: "nat \<Rightarrow> nat \<Rightarrow> nat \<Rightarrow> nat \<Rightarrow> nat" where
  "fround M tp n d =
     (let k = floorlog 2 (n div d) - (M + 1)
      in min tp (k * 2 ^ M + rhe n (d * 2 ^ k)))"

lemma rhe_bounds:
  assumes "0 < d"
  shows "2 * rhe n d * d \<le> 2 * n + d" and "2 * n \<le> 2 * rhe n d * d + d"
    and "2 * n = 2 * rhe n d * d + d \<Longrightarrow> even (rhe n d)"
    and "2 * rhe n d * d = 2 * n + d \<Longrightarrow> even (rhe n d)"
proof -
  define q r where "q = n div d" and "r = n mod d"
  have n: "n = q * d + r" and r: "r < d"
    using assms by (simp_all add: q_def r_def)
  have rhe: "rhe n d = (if 2 * r < d \<or> (2 * r = d \<and> even q) then q else q + 1)"
    by (simp add: rhe_def q_def r_def Let_def)
  show "2 * rhe n d * d \<le> 2 * n + d" "2 * n \<le> 2 * rhe n d * d + d"
    unfolding rhe unfolding n using r by (auto simp: algebra_simps)
  show "even (rhe n d)" if "2 * n = 2 * rhe n d * d + d"
    using that r unfolding rhe unfolding n by (auto simp: algebra_simps split: if_splits)
  show "even (rhe n d)" if "2 * rhe n d * d = 2 * n + d"
    using that r unfolding rhe unfolding n by (auto simp: algebra_simps split: if_splits)
qed

lemma rhe_exact [simp]: "0 < d \<Longrightarrow> rhe (c * d) d = c"
  by (simp add: rhe_def)

lemma rhe_mono:
  assumes "0 < d" "0 < e" "n * e \<le> p * d"
  shows "rhe n d \<le> rhe p e"
proof (rule ccontr)
  assume "\<not> rhe n d \<le> rhe p e"
  then obtain a b where a: "a = rhe n d" and b: "b = rhe p e" and ab: "b + 1 \<le> a"
    by fastforce
  have 1: "2 * a * d * e \<le> 2 * n * e + d * e"
    using mult_right_mono [OF rhe_bounds(1) [OF assms(1), of n], of e] a
    by (simp add: algebra_simps)
  have 2: "2 * p * d \<le> 2 * b * e * d + e * d"
    using mult_right_mono [OF rhe_bounds(2) [OF assms(2), of p], of d] b
    by (simp add: algebra_simps)
  have 3: "2 * (b + 1) * (d * e) \<le> 2 * a * (d * e)"
    using ab by (intro mult_right_mono mult_left_mono) auto
  have eq1: "2 * a * d * e = 2 * n * e + d * e" and eq2: "2 * p * d = 2 * b * e * d + e * d"
    and eq3: "2 * (b + 1) * (d * e) = 2 * a * (d * e)"
    using 1 2 3 assms(3) by (simp_all add: algebra_simps)
  have "2 * a * d = 2 * n + d"
  proof -
    have "(2 * a * d) * e = (2 * n + d) * e" using eq1 by (simp add: algebra_simps)
    then show ?thesis using assms(2) by simp
  qed
  then have ea: "even a" using rhe_bounds(4) [OF assms(1), of n] a by simp
  have "2 * p = 2 * b * e + e"
  proof -
    have "(2 * p) * d = (2 * b * e + e) * d" using eq2 by (simp add: algebra_simps)
    then show ?thesis using assms(1) by simp
  qed
  then have eb: "even b" using rhe_bounds(3) [OF assms(2), of p] b by simp
  have "(b + 1) * (2 * (d * e)) = a * (2 * (d * e))" using eq3 by (simp add: algebra_simps)
  then have "b + 1 = a" using assms(1,2) by (subst (asm) mult_right_cancel) simp_all
  with ea eb show False by auto
qed

lemma rhe_le_exact: "0 < d \<Longrightarrow> n \<le> c * d \<Longrightarrow> rhe n d \<le> c"
  using rhe_mono [of d d n "c * d"] by simp

lemma rhe_ge_exact: "0 < d \<Longrightarrow> c * d \<le> n \<Longrightarrow> c \<le> rhe n d"
  using rhe_mono [of d d "c * d" n] by simp


definition fexp :: "nat \<Rightarrow> nat \<Rightarrow> nat \<Rightarrow> nat" where
  "fexp M n d = floorlog 2 (n div d) - (M + 1)"

lemma fround_alt:
  "fround M tp n d = min tp (fexp M n d * 2 ^ M + rhe n (d * 2 ^ fexp M n d))"
  by (simp add: fround_def fexp_def Let_def)

lemma div_mono_cross:
  fixes n d p e :: nat
  assumes "0 < d" "0 < e" "n * e \<le> p * d"
  shows "n div d \<le> p div e"
proof -
  have "(n div d * e) * d = (n div d * d) * e" by simp
  also have "\<dots> \<le> n * e" by (intro mult_right_mono) simp_all
  also have "\<dots> \<le> p * d" by (fact assms(3))
  finally have "n div d * e \<le> p" using assms(1) by simp
  then show ?thesis using assms(2) by (simp add: less_eq_div_iff_mult_less_eq)
qed

lemma fexp_mono: "0 < d \<Longrightarrow> 0 < e \<Longrightarrow> n * e \<le> p * d \<Longrightarrow> fexp M n d \<le> fexp M p e"
  unfolding fexp_def by (intro diff_le_mono floorlog_mono div_mono_cross)

lemma rhe_fexp_upper: "0 < d \<Longrightarrow> rhe n (d * 2 ^ fexp M n d) \<le> 2 ^ (M + 1)"
proof -
  assume d: "0 < d"
  have "n div d < 2 ^ floorlog 2 (n div d)"
    by (cases "n div d = 0") (use floorlog_bounds [of "n div d" 2] in auto)
  also have "\<dots> \<le> 2 ^ (M + 1 + fexp M n d)"
    by (intro power_increasing) (simp_all add: fexp_def)
  finally have "n div d < 2 ^ (M + 1) * 2 ^ fexp M n d" by (simp add: power_add)
  then have "n < 2 ^ (M + 1) * 2 ^ fexp M n d * d" using d by (simp add: div_less_iff_less_mult)
  then have "n \<le> 2 ^ (M + 1) * (d * 2 ^ fexp M n d)" by (simp add: algebra_simps)
  then show ?thesis using d by (intro rhe_le_exact) simp_all
qed

lemma rhe_fexp_lower: "0 < d \<Longrightarrow> 0 < fexp M n d \<Longrightarrow> 2 ^ M \<le> rhe n (d * 2 ^ fexp M n d)"
proof -
  assume d: "0 < d" and k: "0 < fexp M n d"
  then have q: "0 < n div d" by (metis fexp_def floorlog_eq_zero_iff diff_is_0_eq gr0I le0 less_irrefl)
  have "M + fexp M n d = floorlog 2 (n div d) - 1" using k by (simp add: fexp_def)
  then have "2 ^ (M + fexp M n d) \<le> n div d" using floorlog_bounds [of "n div d" 2] q by simp
  then have "2 ^ M * 2 ^ fexp M n d * d \<le> n" using d by (simp add: less_eq_div_iff_mult_less_eq power_add)
  then have "2 ^ M * (d * 2 ^ fexp M n d) \<le> n" by (simp add: algebra_simps)
  then show ?thesis using d by (intro rhe_ge_exact) simp_all
qed

text \<open>Rounding is monotone in the exact value.\<close>

lemma fround_mono:
  assumes "0 < d" "0 < e" "n * e \<le> p * d"
  shows "fround M tp n d \<le> fround M tp p e"
proof -
  define k l where "k = fexp M n d" and "l = fexp M p e"
  have kl: "k \<le> l" using fexp_mono [OF assms] by (simp add: k_def l_def)
  have "k * 2 ^ M + rhe n (d * 2 ^ k) \<le> l * 2 ^ M + rhe p (e * 2 ^ l)"
  proof (cases "k = l")
    case True
    have "n * (e * 2 ^ l) \<le> p * (d * 2 ^ l)" using assms(3) by (simp add: algebra_simps)
    with True assms show ?thesis by (simp add: rhe_mono)
  next
    case False
    with kl have "k + 1 \<le> l" by simp
    have "k * 2 ^ M + rhe n (d * 2 ^ k) \<le> k * 2 ^ M + 2 ^ (M + 1)"
      using rhe_fexp_upper [OF assms(1)] by (simp add: k_def)
    also have "\<dots> = (k + 1) * 2 ^ M + 2 ^ M" by simp
    also have "\<dots> \<le> l * 2 ^ M + 2 ^ M" using \<open>k + 1 \<le> l\<close> by (intro add_right_mono mult_right_mono) simp_all
    also have "\<dots> \<le> l * 2 ^ M + rhe p (e * 2 ^ l)"
      using rhe_fexp_lower [OF assms(2), of M p] \<open>k + 1 \<le> l\<close> by (simp add: l_def)
    finally show ?thesis .
  qed
  then show ?thesis unfolding fround_alt k_def l_def by simp
qed

lemma fround_le_top: "fround M tp n d \<le> tp"
  by (simp add: fround_alt)

lemma floorlog_normal:
  assumes "f < 2 ^ M"
  shows "floorlog 2 (2 ^ M + f) = M + 1"
proof (rule antisym)
  show "floorlog 2 (2 ^ M + f) \<le> M + 1" using assms by (intro floorlog_leI) simp_all
  show "M + 1 \<le> floorlog 2 (2 ^ M + f)" by (intro floorlog_geI) simp_all
qed

lemma fround_exact:
  assumes "0 < d" "m \<le> tp"
  shows "fround M tp (mag_val M m * d) d = m"
proof (cases "m div 2 ^ M = 0")
  case True
  then have "m < 2 ^ M" by (simp add: div_eq_0_iff)
  then have "floorlog 2 m \<le> M" by (intro floorlog_leI) simp_all
  then have "fexp M (mag_val M m * d) d = 0" using True assms by (simp add: fexp_def mag_val_def)
  then show ?thesis using True assms by (simp add: fround_alt mag_val_def)
next
  case False
  define E f where "E = m div 2 ^ M" and "f = m mod 2 ^ M"
  have v: "mag_val M m = (2 ^ M + f) * 2 ^ (E - 1)" using False by (simp add: mag_val_def E_def f_def)
  have "f < 2 ^ M" by (simp add: f_def)
  then have k: "fexp M (mag_val M m * d) d = E - 1"
    using assms v by (simp add: fexp_def floorlog_normal)
  have "rhe (mag_val M m * d) (d * 2 ^ (E - 1)) = rhe ((2 ^ M + f) * (d * 2 ^ (E - 1))) (d * 2 ^ (E - 1))"
    by (simp add: v algebra_simps)
  also have "\<dots> = 2 ^ M + f" using assms by simp
  finally have "(E - 1) * 2 ^ M + rhe (mag_val M m * d) (d * 2 ^ (E - 1)) = (E - 1) * 2 ^ M + 2 ^ M + f"
    by simp
  also have "\<dots> = E * 2 ^ M + f" using False by (cases E) (simp_all add: E_def)
  also have "\<dots> = m" by (simp only: E_def f_def div_mult_mod_eq)
  finally show ?thesis using assms k by (simp add: fround_alt)
qed

lemma fround_ge: "0 < d \<Longrightarrow> m \<le> tp \<Longrightarrow> mag_val M m * d \<le> n \<Longrightarrow> m \<le> fround M tp n d"
  using fround_mono [of d d "mag_val M m * d" n M tp] fround_exact [of d m tp M] by simp

lemma fround_le: "0 < d \<Longrightarrow> m \<le> tp \<Longrightarrow> n \<le> mag_val M m * d \<Longrightarrow> fround M tp n d \<le> m"
  using fround_mono [of d d n "mag_val M m * d" M tp] fround_exact [of d m tp M] by simp

lemma fround_0 [simp]: "0 < d \<Longrightarrow> fround M tp 0 d = 0"
  by (simp add: fround_alt rhe_def Let_def fexp_def floorlog_def)

text \<open>The value of a pattern grows with the pattern.\<close>

lemma mag_val_mono: "m \<le> m' \<Longrightarrow> mag_val M m \<le> mag_val M m'"
proof (rule ccontr)
  assume "m \<le> m'" "\<not> mag_val M m \<le> mag_val M m'"
  then have "fround M m' (mag_val M m' * 1) 1 \<le> fround M m' (mag_val M m * 1) 1"
    by (intro fround_mono) simp_all
  then have "fround M m' (mag_val M m * 1) 1 = m'"
    using fround_le_top [of M m' "mag_val M m * 1" 1] fround_exact [of 1 m' m' M] by simp
  moreover have "fround M m' (mag_val M m * 1) 1 = m"
    using \<open>m \<le> m'\<close> by (intro fround_exact) simp_all
  ultimately have "m = m'" by simp
  with \<open>\<not> mag_val M m \<le> mag_val M m'\<close> show False by simp
qed

lemma mag_val_pos: "0 < m \<Longrightarrow> 0 < mag_val M m"
  by (simp add: mag_val_def)

lemma mag_val_0 [simp]: "mag_val M 0 = 0"
  by (simp add: mag_val_def)

text \<open>Integers with at most \<open>M + 1\<close> significant bits are representable.\<close>

lemma representable:
  assumes "c \<le> 2 ^ (M + 1)"
  shows "\<exists>m. mag_val M m = c * 2 ^ t \<and> m \<le> (t + 1) * 2 ^ M + 2 ^ M"
  using assms
proof (induction t arbitrary: c)
  case 0
  show ?case
  proof (cases "c < 2 ^ M")
    case True
    then show ?thesis by (intro exI [of _ c]) (simp add: mag_val_def div_eq_0_iff)
  next
    case False
    then show ?thesis
    proof (cases "c = 2 ^ (M + 1)")
      case True
      then show ?thesis by (intro exI [of _ "2 * 2 ^ M"]) (simp add: mag_val_def)
    next
      case neq: False
      then have "c div 2 ^ M = 1" "2 ^ M + c mod 2 ^ M = c"
        using 0 False by (auto intro!: div_nat_eqI simp: mod_if le_mod_geq)
      then show ?thesis using 0 by (intro exI [of _ c]) (simp add: mag_val_def)
    qed
  qed
next
  case (Suc t)
  show ?case
  proof (cases "c < 2 ^ M")
    case True
    then obtain m where "mag_val M m = (2 * c) * 2 ^ t" "m \<le> (t + 1) * 2 ^ M + 2 ^ M"
      using Suc.IH [of "2 * c"] by auto
    then show ?thesis by (intro exI [of _ m]) (auto simp: algebra_simps)
  next
    case False
    show ?thesis
    proof (cases "c = 2 ^ (M + 1)")
      case True
      then show ?thesis
        by (intro exI [of _ "(t + 3) * 2 ^ M"]) (simp add: mag_val_def algebra_simps)
    next
      case neq: False
      define f where "f = c - 2 ^ M"
      have f: "c = 2 ^ M + f" "f < 2 ^ M" using False neq Suc.prems by (auto simp: f_def)
      have "((t + 2) * 2 ^ M + f) div 2 ^ M = t + 2"
        using f(2) by (intro div_nat_eqI) (simp_all add: algebra_simps)
      moreover have "((t + 2) * 2 ^ M + f) mod 2 ^ M = f"
        using f(2) by (subst mod_mult_self3) simp
      ultimately have "mag_val M ((t + 2) * 2 ^ M + f) = c * 2 ^ Suc t"
        by (simp add: mag_val_def f(1))
      then show ?thesis using f(2) by (intro exI [of _ "(t + 2) * 2 ^ M + f"]) simp
    qed
  qed
qed

section \<open>Arithmetic on sign and magnitude\<close>

text \<open>A float as its sign bit and its magnitude pattern; a magnitude above \<open>top\<close> is a NaN.\<close>

type_synonym raw = "bool \<times> nat"

definition raw_nan :: "fmt \<Rightarrow> raw \<Rightarrow> bool" where
  "raw_nan F a \<longleftrightarrow> top F < snd a"

definition raw_inf :: "fmt \<Rightarrow> raw \<Rightarrow> bool" where
  "raw_inf F a \<longleftrightarrow> snd a = top F"

definition raw_val :: "fmt \<Rightarrow> raw \<Rightarrow> int" where
  "raw_val F a = (if fst a then - int (mag_val (mant F) (snd a)) else int (mag_val (mant F) (snd a)))"

definition qnan :: "fmt \<Rightarrow> raw" where
  "qnan F = (False, top F + 2 ^ (mant F - 1))"

definition raw_key :: "raw \<Rightarrow> int" where
  "raw_key a = (if fst a then - int (snd a) else int (snd a))"

definition raw_cmp :: "fmt \<Rightarrow> raw \<Rightarrow> raw \<Rightarrow> ordering option" where
  "raw_cmp F a b =
     (if raw_nan F a \<or> raw_nan F b then None else Some (cmp_of (raw_key a) (raw_key b)))"

definition raw_neg :: "raw \<Rightarrow> raw" where
  "raw_neg a = (\<not> fst a, snd a)"

definition raw_add :: "fmt \<Rightarrow> raw \<Rightarrow> raw \<Rightarrow> raw" where
  "raw_add F a b =
     (if raw_nan F a \<or> raw_nan F b then qnan F
      else if raw_inf F a then (if raw_inf F b \<and> fst a \<noteq> fst b then qnan F else a)
      else if raw_inf F b then b
      else let v = raw_val F a + raw_val F b
           in if v = 0 then (fst a \<and> fst b, 0)
              else (v < 0, fround (mant F) (top F) (nat \<bar>v\<bar>) 1))"

definition raw_mul :: "fmt \<Rightarrow> raw \<Rightarrow> raw \<Rightarrow> raw" where
  "raw_mul F a b =
     (let s = (fst a \<noteq> fst b)
      in if raw_nan F a \<or> raw_nan F b then qnan F
         else if raw_inf F a \<or> raw_inf F b
         then (if snd a = 0 \<or> snd b = 0 then qnan F else (s, top F))
         else (s, fround (mant F) (top F)
                    (mag_val (mant F) (snd a) * mag_val (mant F) (snd b)) (2 ^ unit_exp F)))"

definition raw_div :: "fmt \<Rightarrow> raw \<Rightarrow> raw \<Rightarrow> raw" where
  "raw_div F a b =
     (let s = (fst a \<noteq> fst b)
      in if raw_nan F a \<or> raw_nan F b then qnan F
         else if raw_inf F a then (if raw_inf F b then qnan F else (s, top F))
         else if raw_inf F b then (s, 0)
         else if snd b = 0 then (if snd a = 0 then qnan F else (s, top F))
         else (s, fround (mant F) (top F)
                    (mag_val (mant F) (snd a) * 2 ^ unit_exp F) (mag_val (mant F) (snd b))))"

text \<open>The nearest float to the fraction \<open>n / d\<close>: integer conversions and decimal literals.\<close>

definition raw_of_frac :: "fmt \<Rightarrow> nat \<Rightarrow> nat \<Rightarrow> raw" where
  "raw_of_frac F n d = (False, fround (mant F) (top F) (n * 2 ^ unit_exp F) d)"

section \<open>The types f32 and f64\<close>

datatype f32 = F32 (to_bits: u32)

datatype f64 = F64 (to_bits64: u64)

definition raw32 :: "f32 \<Rightarrow> raw" where
  "raw32 x = (2 ^ 31 \<le> unat (to_bits x), unat (to_bits x) mod 2 ^ 31)"

definition pack32 :: "raw \<Rightarrow> f32" where
  "pack32 a = F32 (word_of_nat (snd a + (if fst a then 2 ^ 31 else 0)))"

definition raw64 :: "f64 \<Rightarrow> raw" where
  "raw64 x = (2 ^ 63 \<le> unat (to_bits64 x), unat (to_bits64 x) mod 2 ^ 63)"

definition pack64 :: "raw \<Rightarrow> f64" where
  "pack64 a = F64 (word_of_nat (snd a + (if fst a then 2 ^ 63 else 0)))"

definition f32_add :: "f32 \<Rightarrow> f32 \<Rightarrow> f32" where
  "f32_add a b = pack32 (raw_add b32 (raw32 a) (raw32 b))"

definition f32_sub :: "f32 \<Rightarrow> f32 \<Rightarrow> f32" where
  "f32_sub a b = pack32 (raw_add b32 (raw32 a) (raw_neg (raw32 b)))"

definition f32_mul :: "f32 \<Rightarrow> f32 \<Rightarrow> f32" where
  "f32_mul a b = pack32 (raw_mul b32 (raw32 a) (raw32 b))"

definition f32_div :: "f32 \<Rightarrow> f32 \<Rightarrow> f32" where
  "f32_div a b = pack32 (raw_div b32 (raw32 a) (raw32 b))"

definition f32_partial_cmp :: "f32 \<Rightarrow> f32 \<Rightarrow> ordering option" where
  "f32_partial_cmp a b = raw_cmp b32 (raw32 a) (raw32 b)"

definition f32_is_nan :: "f32 \<Rightarrow> bool" where
  "f32_is_nan x = raw_nan b32 (raw32 x)"

definition f32_lt :: "f32 \<Rightarrow> f32 \<Rightarrow> bool" where
  "f32_lt a b \<longleftrightarrow> f32_partial_cmp a b = Some Less"

definition f32_le :: "f32 \<Rightarrow> f32 \<Rightarrow> bool" where
  "f32_le a b \<longleftrightarrow> f32_partial_cmp a b = Some Less \<or> f32_partial_cmp a b = Some Equal"

definition f32_eq :: "f32 \<Rightarrow> f32 \<Rightarrow> bool" where
  "f32_eq a b \<longleftrightarrow> f32_partial_cmp a b = Some Equal"

text \<open>\<open>f32::max\<close>: a NaN argument is ignored.\<close>

definition f32_max :: "f32 \<Rightarrow> f32 \<Rightarrow> f32" where
  "f32_max a b = (if f32_is_nan a then b else if f32_is_nan b then a else if f32_lt a b then b else a)"

definition f32_of_frac :: "nat \<Rightarrow> nat \<Rightarrow> f32" where
  "f32_of_frac n d = pack32 (raw_of_frac b32 n d)"

definition f32_of_nat :: "nat \<Rightarrow> f32" where
  "f32_of_nat n = f32_of_frac n 1"

definition f64_add :: "f64 \<Rightarrow> f64 \<Rightarrow> f64" where
  "f64_add a b = pack64 (raw_add b64 (raw64 a) (raw64 b))"

definition f64_mul :: "f64 \<Rightarrow> f64 \<Rightarrow> f64" where
  "f64_mul a b = pack64 (raw_mul b64 (raw64 a) (raw64 b))"

definition f64_div :: "f64 \<Rightarrow> f64 \<Rightarrow> f64" where
  "f64_div a b = pack64 (raw_div b64 (raw64 a) (raw64 b))"

definition f64_partial_cmp :: "f64 \<Rightarrow> f64 \<Rightarrow> ordering option" where
  "f64_partial_cmp a b = raw_cmp b64 (raw64 a) (raw64 b)"

definition f64_is_nan :: "f64 \<Rightarrow> bool" where
  "f64_is_nan x = raw_nan b64 (raw64 x)"

definition f64_le :: "f64 \<Rightarrow> f64 \<Rightarrow> bool" where
  "f64_le a b \<longleftrightarrow> f64_partial_cmp a b = Some Less \<or> f64_partial_cmp a b = Some Equal"

definition f64_of_frac :: "nat \<Rightarrow> nat \<Rightarrow> f64" where
  "f64_of_frac n d = pack64 (raw_of_frac b64 n d)"

definition f64_of_nat :: "nat \<Rightarrow> f64" where
  "f64_of_nat n = f64_of_frac n 1"

definition f64_neg_infinity :: f64 where
  "f64_neg_infinity = pack64 (True, top b64)"

text \<open>\<open>x as f32\<close> of an \<open>f64\<close>: rounds; the units of the two formats differ by \<open>2 ^ 925\<close>.\<close>

definition f32_of_f64 :: "f64 \<Rightarrow> f32" where
  "f32_of_f64 x =
     (let a = raw64 x
      in if raw_nan b64 a then pack32 (qnan b32)
         else if raw_inf b64 a then pack32 (fst a, top b32)
         else pack32 (fst a, fround (mant b32) (top b32) (mag_val (mant b64) (snd a)) (2 ^ 925)))"

text \<open>\<open>x as i64\<close> of an \<open>f64\<close>: truncates toward zero, saturates, NaN is 0.\<close>

definition i64_of_f64 :: "f64 \<Rightarrow> int" where
  "i64_of_f64 x =
     (let a = raw64 x; t = mag_val (mant b64) (snd a) div 2 ^ unit_exp b64
      in if raw_nan b64 a then 0
         else if raw_inf b64 a then (if fst a then - (2 ^ 63) else 2 ^ 63 - 1)
         else if fst a then - int (min t (2 ^ 63)) else int (min t (2 ^ 63 - 1)))"

lemma b32_sel [simp]: "mant b32 = 23" "top b32 = 2139095040" "unit_exp b32 = 149"
  by (simp_all add: b32_def)

lemma b64_sel [simp]: "mant b64 = 52" "top b64 = 9218868437227405312" "unit_exp b64 = 1074"
  by (simp_all add: b64_def)

lemma raw32_pack32: "snd a < 2 ^ 31 \<Longrightarrow> raw32 (pack32 a) = a"
proof -
  assume a: "snd a < 2 ^ 31"
  define n where "n = snd a + (if fst a then 2 ^ 31 else 0)"
  have "n < 2 ^ LENGTH(32)" using a by (simp add: n_def)
  then have "unat (word_of_nat n :: u32) = n" by (simp add: unat_of_nat)
  then have "raw32 (pack32 a) = (2 ^ 31 \<le> n, n mod 2 ^ 31)"
    unfolding raw32_def pack32_def n_def [symmetric] by simp
  then show ?thesis using a by (cases a) (simp add: n_def)
qed

lemma raw64_pack64: "snd a < 2 ^ 63 \<Longrightarrow> raw64 (pack64 a) = a"
proof -
  assume a: "snd a < 2 ^ 63"
  define n where "n = snd a + (if fst a then 2 ^ 63 else 0)"
  have "n < 2 ^ LENGTH(64)" using a by (simp add: n_def)
  then have "unat (word_of_nat n :: u64) = n" by (simp add: unat_of_nat)
  then have "raw64 (pack64 a) = (2 ^ 63 \<le> n, n mod 2 ^ 63)"
    unfolding raw64_def pack64_def n_def [symmetric] by simp
  then show ?thesis using a by (cases a) (simp add: n_def)
qed

lemma pack32_raw32 [simp]: "pack32 (raw32 x) = x"
proof -
  have "unat (to_bits x) < 2 ^ 32" using unsigned_less [of "to_bits x"] by simp
  then have "unat (to_bits x) mod 2 ^ 31 + (if 2 ^ 31 \<le> unat (to_bits x) then 2 ^ 31 else 0) = unat (to_bits x)"
    by (auto simp: mod_if le_mod_geq)
  then show ?thesis by (simp add: raw32_def pack32_def)
qed

lemma snd_raw_ops:
  assumes "0 < mant F" "top F + 2 ^ (mant F - 1) < 2 ^ N" "snd a < 2 ^ N" "snd b < 2 ^ N"
  shows "snd (raw_add F a b) < 2 ^ N" "snd (raw_mul F a b) < 2 ^ N" "snd (raw_div F a b) < 2 ^ N"
proof -
  have "fround (mant F) (top F) n d < 2 ^ N" for n d
    using fround_le_top [of "mant F" "top F" n d] assms(2) by linarith
  with assms show "snd (raw_add F a b) < 2 ^ N" "snd (raw_mul F a b) < 2 ^ N" "snd (raw_div F a b) < 2 ^ N"
    by (simp_all add: raw_add_def raw_mul_def raw_div_def qnan_def Let_def)
qed

lemma snd_raw32 [simp]: "snd (raw32 x) < 2147483648"
  by (simp add: raw32_def)

lemma snd_raw64 [simp]: "snd (raw64 x) < 9223372036854775808"
  by (simp add: raw64_def)

lemma raw32_ops:
  "raw32 (f32_add a b) = raw_add b32 (raw32 a) (raw32 b)"
  "raw32 (f32_sub a b) = raw_add b32 (raw32 a) (raw_neg (raw32 b))"
  "raw32 (f32_mul a b) = raw_mul b32 (raw32 a) (raw32 b)"
  "raw32 (f32_div a b) = raw_div b32 (raw32 a) (raw32 b)"
  using snd_raw_ops [of b32 31] by (simp_all add: f32_add_def f32_sub_def f32_mul_def f32_div_def
      raw32_pack32 raw_neg_def)

lemma raw64_ops:
  "raw64 (f64_add a b) = raw_add b64 (raw64 a) (raw64 b)"
  "raw64 (f64_mul a b) = raw_mul b64 (raw64 a) (raw64 b)"
  "raw64 (f64_div a b) = raw_div b64 (raw64 a) (raw64 b)"
  using snd_raw_ops [of b64 63] by (simp_all add: f64_add_def f64_mul_def f64_div_def raw64_pack64)

lemma raw_of_frac:
  "raw32 (f32_of_frac n d) = raw_of_frac b32 n d"
  "raw64 (f64_of_frac n d) = raw_of_frac b64 n d"
  using fround_le_top [of 23 "top b32" "n * 2 ^ 149" d] fround_le_top [of 52 "top b64" "n * 2 ^ 1074" d]
  by (simp_all add: f32_of_frac_def f64_of_frac_def raw32_pack32 raw64_pack64 raw_of_frac_def)

section \<open>Comparison\<close>

definition f32_key :: "f32 \<Rightarrow> int" where
  "f32_key x = raw_key (raw32 x)"

definition f64_key :: "f64 \<Rightarrow> int" where
  "f64_key x = raw_key (raw64 x)"

text \<open>\<open>a.partial_cmp(&b).unwrap_or(Ordering::Equal)\<close>, the comparator of every score sort.\<close>

definition unwrap_or_equal :: "ordering option \<Rightarrow> ordering" where
  "unwrap_or_equal c = (case c of None \<Rightarrow> Equal | Some r \<Rightarrow> r)"

definition f32_cmp_or_equal :: "f32 comparator" where
  "f32_cmp_or_equal a b = unwrap_or_equal (f32_partial_cmp a b)"

definition f64_cmp_or_equal :: "f64 comparator" where
  "f64_cmp_or_equal a b = unwrap_or_equal (f64_partial_cmp a b)"

lemma f32_partial_cmp_key:
  "\<not> f32_is_nan a \<Longrightarrow> \<not> f32_is_nan b \<Longrightarrow>
   f32_partial_cmp a b = Some (cmp_of (f32_key a) (f32_key b))"
  by (simp add: f32_partial_cmp_def raw_cmp_def f32_is_nan_def f32_key_def)

lemma f64_partial_cmp_key:
  "\<not> f64_is_nan a \<Longrightarrow> \<not> f64_is_nan b \<Longrightarrow>
   f64_partial_cmp a b = Some (cmp_of (f64_key a) (f64_key b))"
  by (simp add: f64_partial_cmp_def raw_cmp_def f64_is_nan_def f64_key_def)

lemma f32_lt_key: "f32_lt a b \<longleftrightarrow> \<not> f32_is_nan a \<and> \<not> f32_is_nan b \<and> f32_key a < f32_key b"
  by (auto simp: f32_lt_def f32_partial_cmp_def raw_cmp_def f32_is_nan_def f32_key_def cmp_of_def)

lemma f32_le_key: "f32_le a b \<longleftrightarrow> \<not> f32_is_nan a \<and> \<not> f32_is_nan b \<and> f32_key a \<le> f32_key b"
  by (auto simp: f32_le_def f32_partial_cmp_def raw_cmp_def f32_is_nan_def f32_key_def cmp_of_def)

lemma f32_eq_key: "f32_eq a b \<longleftrightarrow> \<not> f32_is_nan a \<and> \<not> f32_is_nan b \<and> f32_key a = f32_key b"
  by (auto simp: f32_eq_def f32_partial_cmp_def raw_cmp_def f32_is_nan_def f32_key_def cmp_of_def)

lemma f64_le_key: "f64_le a b \<longleftrightarrow> \<not> f64_is_nan a \<and> \<not> f64_is_nan b \<and> f64_key a \<le> f64_key b"
  by (auto simp: f64_le_def f64_partial_cmp_def raw_cmp_def f64_is_nan_def f64_key_def cmp_of_def)

lemma f32_cmp_or_equal_not_after:
  "\<not> f32_is_nan a \<Longrightarrow> \<not> f32_is_nan b \<Longrightarrow> not_after f32_cmp_or_equal a b \<longleftrightarrow> f32_key a \<le> f32_key b"
  by (auto simp: not_after_def f32_cmp_or_equal_def unwrap_or_equal_def f32_partial_cmp_key cmp_of_def)

lemma f64_cmp_or_equal_not_after:
  "\<not> f64_is_nan a \<Longrightarrow> \<not> f64_is_nan b \<Longrightarrow> not_after f64_cmp_or_equal a b \<longleftrightarrow> f64_key a \<le> f64_key b"
  by (auto simp: not_after_def f64_cmp_or_equal_def unwrap_or_equal_def f64_partial_cmp_key cmp_of_def)

lemma f32_le_trans: "f32_le a b \<Longrightarrow> f32_le b c \<Longrightarrow> f32_le a c"
  by (simp add: f32_le_key)

lemma f32_le_max:
  "\<not> f32_is_nan a \<Longrightarrow> \<not> f32_is_nan b \<Longrightarrow> f32_le a (f32_max a b) \<and> f32_le b (f32_max a b)"
  by (auto simp: f32_max_def f32_le_key f32_lt_key)

lemma f32_is_nan_max: "f32_is_nan (f32_max a b) \<longleftrightarrow> f32_is_nan a \<and> f32_is_nan b"
  by (auto simp: f32_max_def)

section \<open>Non-negative floats\<close>

text \<open>Neither negative (nor \<open>- 0\<close>) nor NaN; and finite.\<close>

definition f32_nonneg :: "f32 \<Rightarrow> bool" where
  "f32_nonneg x \<longleftrightarrow> \<not> fst (raw32 x) \<and> snd (raw32 x) \<le> top b32"

definition f32_fin :: "f32 \<Rightarrow> bool" where
  "f32_fin x \<longleftrightarrow> \<not> fst (raw32 x) \<and> snd (raw32 x) < top b32"

definition f32_mag :: "f32 \<Rightarrow> nat" where
  "f32_mag x = snd (raw32 x)"

definition f32_val :: "f32 \<Rightarrow> nat" where
  "f32_val x = mag_val 23 (f32_mag x)"

named_theorems f32_nn \<open>closure of the non-negative floats under arithmetic\<close>

lemma f32_fin_nonneg [f32_nn]: "f32_fin x \<Longrightarrow> f32_nonneg x"
  by (simp add: f32_fin_def f32_nonneg_def)

lemma f32_nonneg_not_nan [simp]: "f32_nonneg x \<Longrightarrow> \<not> f32_is_nan x"
  by (simp add: f32_nonneg_def f32_is_nan_def raw_nan_def)

lemma f32_nonneg_key: "f32_nonneg x \<Longrightarrow> f32_key x = int (f32_mag x)"
  by (simp add: f32_nonneg_def f32_key_def raw_key_def f32_mag_def)

lemma f32_nonneg_bits: "f32_nonneg x \<Longrightarrow> unat (to_bits x) = f32_mag x"
  by (simp add: f32_nonneg_def raw32_def f32_mag_def)

text \<open>On non-negative floats the order of the bit patterns is the order of the values.\<close>

lemma f32_le_bits:
  "f32_nonneg a \<Longrightarrow> f32_nonneg b \<Longrightarrow> f32_le a b \<longleftrightarrow> to_bits a \<le> to_bits b"
  by (simp add: f32_le_key f32_nonneg_key f32_nonneg_bits word_le_nat_alt)

lemma f32_lt_bits:
  "f32_nonneg a \<Longrightarrow> f32_nonneg b \<Longrightarrow> f32_lt a b \<longleftrightarrow> to_bits a < to_bits b"
  by (simp add: f32_lt_key f32_nonneg_key f32_nonneg_bits word_less_nat_alt)

lemma raw_fin: "f32_fin a \<Longrightarrow> raw32 a = (False, f32_mag a) \<and> f32_mag a < 2139095040"
  by (cases "raw32 a") (simp add: f32_fin_def f32_mag_def)

lemma raw32_add_fin:
  assumes "f32_fin a" "f32_fin b"
  shows "raw32 (f32_add a b) = (False, fround 23 (top b32) (f32_val a + f32_val b) 1)"
  using raw_fin [OF assms(1)] raw_fin [OF assms(2)]
  by (auto simp: raw32_ops raw_add_def raw_nan_def raw_inf_def raw_val_def Let_def f32_val_def
      simp flip: of_nat_add)

lemma raw32_mul_fin:
  assumes "f32_fin a" "f32_fin b"
  shows "raw32 (f32_mul a b) = (False, fround 23 (top b32) (f32_val a * f32_val b) (2 ^ 149))"
  using raw_fin [OF assms(1)] raw_fin [OF assms(2)]
  by (auto simp: raw32_ops raw_mul_def raw_nan_def raw_inf_def Let_def f32_val_def)

lemma raw32_div_fin:
  assumes "f32_fin a" "f32_fin b" "0 < f32_mag b"
  shows "raw32 (f32_div a b) = (False, fround 23 (top b32) (f32_val a * 2 ^ 149) (f32_val b))"
  using raw_fin [OF assms(1)] raw_fin [OF assms(2)] assms(3)
  by (auto simp: raw32_ops raw_div_def raw_nan_def raw_inf_def Let_def f32_val_def)

lemma f32_val_mono: "f32_mag a \<le> f32_mag b \<Longrightarrow> f32_val a \<le> f32_val b"
  by (simp add: f32_val_def mag_val_mono)

lemma f32_val_pos: "0 < f32_mag a \<Longrightarrow> 0 < f32_val a"
  by (simp add: f32_val_def mag_val_pos)

lemma f32_arith_nonneg [f32_nn]:
  "f32_fin a \<Longrightarrow> f32_fin b \<Longrightarrow> f32_nonneg (f32_add a b)"
  "f32_fin a \<Longrightarrow> f32_fin b \<Longrightarrow> f32_nonneg (f32_mul a b)"
  "f32_fin a \<Longrightarrow> f32_fin b \<Longrightarrow> 0 < f32_mag b \<Longrightarrow> f32_nonneg (f32_div a b)"
  using fround_le_top [of 23 2139095040]
  by (simp_all add: f32_nonneg_def raw32_add_fin raw32_mul_fin raw32_div_fin)

text \<open>The operations are monotone, and adding does not decrease.\<close>

lemma f32_add_mono:
  assumes "f32_fin a" "f32_fin b" "f32_fin c" "f32_fin d" "f32_mag a \<le> f32_mag c" "f32_mag b \<le> f32_mag d"
  shows "f32_mag (f32_add a b) \<le> f32_mag (f32_add c d)"
  unfolding f32_mag_def raw32_add_fin [OF assms(1,2)] raw32_add_fin [OF assms(3,4)]
  using f32_val_mono [OF assms(5)] f32_val_mono [OF assms(6)] by (auto intro!: fround_mono)

lemma f32_mul_mono:
  assumes "f32_fin a" "f32_fin b" "f32_fin c" "f32_fin d" "f32_mag a \<le> f32_mag c" "f32_mag b \<le> f32_mag d"
  shows "f32_mag (f32_mul a b) \<le> f32_mag (f32_mul c d)"
  unfolding f32_mag_def raw32_mul_fin [OF assms(1,2)] raw32_mul_fin [OF assms(3,4)]
  using mult_le_mono [OF f32_val_mono [OF assms(5)] f32_val_mono [OF assms(6)]]
  by (auto intro!: fround_mono)

lemma f32_div_mono:
  assumes "f32_fin a" "f32_fin b" "f32_fin c" "f32_fin d" "f32_mag a \<le> f32_mag c" "f32_mag d \<le> f32_mag b"
    and "0 < f32_mag d"
  shows "f32_mag (f32_div a b) \<le> f32_mag (f32_div c d)"
proof -
  have "f32_val a * f32_val d \<le> f32_val c * f32_val b"
    by (rule mult_le_mono [OF f32_val_mono [OF assms(5)] f32_val_mono [OF assms(6)]])
  then have "f32_val a * 2 ^ 149 * f32_val d \<le> f32_val c * 2 ^ 149 * f32_val b"
    by (simp add: algebra_simps)
  moreover have "0 < f32_mag b" using assms(6,7) by simp
  ultimately show ?thesis
    using f32_val_pos assms unfolding f32_mag_def by (simp add: raw32_div_fin fround_mono f32_mag_def)
qed

lemma f32_le_add:
  assumes "f32_fin a" "f32_fin b"
  shows "f32_mag a \<le> f32_mag (f32_add a b)"
proof -
  have "f32_mag a \<le> fround 23 (top b32) (f32_val a + f32_val b) 1"
    using raw_fin [OF assms(1)] by (intro fround_ge) (simp_all add: f32_val_def)
  then show ?thesis by (simp add: f32_mag_def raw32_add_fin [OF assms])
qed

lemma f32_finI: "f32_nonneg a \<Longrightarrow> f32_mag a \<le> m \<Longrightarrow> m < top b32 \<Longrightarrow> f32_fin a"
  by (simp add: f32_nonneg_def f32_fin_def f32_mag_def)

section \<open>Evaluation\<close>

text \<open>
  Rules by which \<open>simp\<close> computes one operation on literal floats (nested operations are best
  computed one at a time).
\<close>

lemma floorlog_half: "0 < x \<Longrightarrow> floorlog 2 x = Suc (floorlog 2 (x div 2))"
  by (simp add: compute_floorlog)

lemma floorlog_numeral [simp]:
  "floorlog 2 (numeral (num.Bit0 n)) = Suc (floorlog 2 (numeral n))"
  "floorlog 2 (numeral (num.Bit1 n)) = Suc (floorlog 2 (numeral n))"
  "floorlog 2 1 = 1" "floorlog 2 (Suc 0) = 1"
  by (simp_all add: floorlog_half floorlog_def [of 2 0])

lemmas raw_eval = raw_add_def raw_neg_def raw_mul_def raw_div_def raw_of_frac_def raw_nan_def
  raw_inf_def raw_val_def raw_cmp_def raw_key_def fround_def rhe_def mag_val_def cmp_of_def Let_def

lemmas f32_eval = raw_eval f32_of_frac_def f32_of_nat_def f32_add_def f32_sub_def f32_mul_def
  f32_div_def raw32_def pack32_def f32_max_def f32_is_nan_def f32_lt_def f32_le_def f32_partial_cmp_def

lemmas f64_eval = raw_eval f64_of_frac_def f64_of_nat_def f64_add_def f64_mul_def f64_div_def
  raw64_def pack64_def f64_is_nan_def f64_le_def f64_partial_cmp_def

lemma f32_consts:
  "f32_of_nat 0 = F32 0" "f32_of_nat 1 = F32 0x3f800000"
  by (simp_all add: f32_eval floorlog_def [of 2 0])

lemma f32_of_nat_fin: "n \<le> 2 ^ 24 \<Longrightarrow> f32_fin (f32_of_nat n) \<and> f32_val (f32_of_nat n) = n * 2 ^ 149"
proof -
  assume "n \<le> 2 ^ 24"
  then obtain m where m: "mag_val 23 m = n * 2 ^ 149" "m \<le> (149 + 1) * 2 ^ 23 + 2 ^ 23"
    using representable [of n 23 149] by auto
  have top: "m < 2139095040" using m(2) by simp
  have "fround 23 2139095040 (mag_val 23 m) 1 = m"
    using fround_exact [of 1 m 2139095040 23] top by simp
  then have "raw32 (f32_of_nat n) = (False, m)"
    using m by (simp add: f32_of_nat_def raw_of_frac raw_of_frac_def)
  then show ?thesis
    using m(1) top by (simp add: f32_fin_def f32_val_def f32_mag_def)
qed

section \<open>Bounds\<close>

lemma f32_div_inf:
  assumes "f32_fin a" "f32_nonneg b" "\<not> f32_fin b"
  shows "raw32 (f32_div a b) = (False, 0)"
proof -
  have "raw32 b = (False, 2139095040)"
    using assms(2,3) by (cases "raw32 b") (simp add: f32_nonneg_def f32_fin_def)
  then show ?thesis
    using raw_fin [OF assms(1)] by (simp add: raw32_ops raw_div_def raw_nan_def raw_inf_def)
qed

lemma f32_of_nat_mono:
  assumes "m \<le> n" "n \<le> 2 ^ 24"
  shows "f32_mag (f32_of_nat m) \<le> f32_mag (f32_of_nat n)"
proof (rule ccontr)
  assume *: "\<not> ?thesis"
  have "f32_val (f32_of_nat n) \<le> f32_val (f32_of_nat m)"
    using * by (intro f32_val_mono) simp
  then have "m = n" using assms f32_of_nat_fin [of m] f32_of_nat_fin [of n] by simp
  with * show False by simp
qed

lemma f32_add_upto:
  assumes "f32_fin a" "f32_fin b" "f32_fin c" "f32_fin d" "f32_fin (f32_add c d)"
    and "f32_mag a \<le> f32_mag c" "f32_mag b \<le> f32_mag d"
  shows "f32_fin (f32_add a b) \<and> f32_mag (f32_add a b) \<le> f32_mag (f32_add c d)"
proof -
  have "f32_mag (f32_add a b) \<le> f32_mag (f32_add c d)"
    by (rule f32_add_mono) (use assms in auto)
  with assms show ?thesis
    by (auto intro!: f32_finI [of _ "f32_mag (f32_add c d)"] f32_arith_nonneg simp: f32_fin_def [of "f32_add c d"] f32_mag_def)
qed

lemma f32_mul_upto:
  assumes "f32_fin a" "f32_fin b" "f32_fin c" "f32_fin d" "f32_fin (f32_mul c d)"
    and "f32_mag a \<le> f32_mag c" "f32_mag b \<le> f32_mag d"
  shows "f32_fin (f32_mul a b) \<and> f32_mag (f32_mul a b) \<le> f32_mag (f32_mul c d)"
proof -
  have "f32_mag (f32_mul a b) \<le> f32_mag (f32_mul c d)"
    by (rule f32_mul_mono) (use assms in auto)
  with assms show ?thesis
    by (auto intro!: f32_finI [of _ "f32_mag (f32_mul c d)"] f32_arith_nonneg simp: f32_fin_def [of "f32_mul c d"] f32_mag_def)
qed

lemma f32_div_upto:
  assumes "f32_fin a" "f32_fin b" "f32_fin c" "f32_fin d" "f32_fin (f32_div c d)" "0 < f32_mag d"
    and "f32_mag a \<le> f32_mag c" "f32_mag d \<le> f32_mag b"
  shows "f32_fin (f32_div a b) \<and> f32_mag (f32_div a b) \<le> f32_mag (f32_div c d)"
proof -
  have m: "f32_mag (f32_div a b) \<le> f32_mag (f32_div c d)"
    by (rule f32_div_mono) (use assms in auto)
  have "f32_nonneg (f32_div a b)"
    using assms by (intro f32_arith_nonneg) auto
  with m assms(5) show ?thesis
    by (auto intro!: f32_finI [of _ "f32_mag (f32_div c d)"] simp: f32_fin_def [of "f32_div c d"] f32_mag_def)
qed

lemma f32_lit:
  "n < 0x7f800000 \<Longrightarrow> f32_fin (F32 (word_of_nat n)) \<and> f32_mag (F32 (word_of_nat n)) = n"
  by (simp add: f32_fin_def f32_mag_def raw32_def unat_of_nat)

lemma f32_le_add2: "f32_fin a \<Longrightarrow> f32_fin b \<Longrightarrow> f32_mag b \<le> f32_mag (f32_add a b)"
  using f32_le_add [of b a] by (simp add: f32_mag_def raw32_add_fin add.commute)

text \<open>Any 32-bit count is finite as a float, and a ratio of counts at most one is at most one.\<close>

lemma f32_of_count:
  assumes "n < 2 ^ 32"
  shows "f32_fin (f32_of_nat n)" and "0 < n \<Longrightarrow> 0 < f32_mag (f32_of_nat n)"
    and "m \<le> n \<Longrightarrow> f32_mag (f32_of_nat m) \<le> f32_mag (f32_of_nat n)"
proof -
  have mono: "f32_mag (f32_of_nat k) \<le> f32_mag (f32_of_nat l)" if "k \<le> l" for k l
    using that by (simp add: f32_mag_def f32_of_nat_def raw_of_frac raw_of_frac_def fround_mono)
  obtain m where m: "mag_val 23 m = 1 * 2 ^ 181" "m \<le> (181 + 1) * 2 ^ 23 + 2 ^ 23"
    using representable [of 1 23 181] by auto
  have "(n * 2 ^ 149) \<le> (2 ^ 32 * 2 ^ 149 :: nat)" using assms by (intro mult_right_mono) simp_all
  then have "n * 2 ^ 149 \<le> mag_val 23 m * 1" by (simp add: m(1))
  then have "fround 23 2139095040 (n * 2 ^ 149) 1 \<le> m"
    using m(2) by (intro fround_le) simp_all
  then have "fround 23 2139095040 (n * 2 ^ 149) 1 < 2139095040" using m(2) by simp
  then show "f32_fin (f32_of_nat n)"
    by (simp add: f32_fin_def f32_of_nat_def raw_of_frac raw_of_frac_def)
  show "m \<le> n \<Longrightarrow> f32_mag (f32_of_nat m) \<le> f32_mag (f32_of_nat n)" for m by (rule mono)
  assume "0 < n"
  then have "f32_mag (f32_of_nat 1) \<le> f32_mag (f32_of_nat n)" by (intro mono) simp
  then show "0 < f32_mag (f32_of_nat n)"
    using f32_lit [of "0x3f800000"] by (simp add: f32_consts del: One_nat_def)
qed

lemma f32_ratio:
  assumes "m \<le> n" "0 < n" "n < 2 ^ 32"
  shows "f32_fin (f32_div (f32_of_nat m) (f32_of_nat n)) \<and>
    f32_mag (f32_div (f32_of_nat m) (f32_of_nat n)) \<le> 0x3f800000"
proof -
  let ?a = "f32_of_nat m" and ?b = "f32_of_nat n"
  have fin: "f32_fin ?a" "f32_fin ?b" and pos: "0 < f32_mag ?b" and le: "f32_mag ?a \<le> f32_mag ?b"
    using f32_of_count [of n] f32_of_count(1) [of m] assms by auto
  have one: "mag_val 23 0x3f800000 = 2 ^ 149" by (simp add: mag_val_def)
  have "f32_mag (f32_div ?a ?b) \<le> f32_mag (f32_div ?b ?b)"
    using fin pos le by (intro f32_div_mono) simp_all
  also have "f32_mag (f32_div ?b ?b) = 0x3f800000"
  proof -
    have "0 < f32_val ?b" using mag_val_pos [of "f32_mag ?b" 23] pos by (simp add: f32_val_def)
    then have "fround 23 (top b32) (mag_val 23 0x3f800000 * f32_val ?b) (f32_val ?b) = 0x3f800000"
      by (intro fround_exact) simp_all
    then show ?thesis by (simp add: f32_mag_def raw32_div_fin [OF fin(2,2) pos] one mult.commute)
  qed
  finally have m: "f32_mag (f32_div ?a ?b) \<le> 0x3f800000" .
  moreover have "f32_fin (f32_div ?a ?b)"
    by (rule f32_finI [OF f32_arith_nonneg(3) [OF fin pos] m]) simp
  ultimately show ?thesis by simp
qed

end
