(* ===== verification/CoreTypes.thy ===== *)
theory CoreTypes
  imports Floats
begin

text \<open>
  The crate \<open>search-core\<close>: documents, search requests and responses (\<open>types.rs\<close>), the index
  schema (\<open>schema.rs\<close>), the error type (\<open>error.rs\<close>) and the configuration with its defaults
  (\<open>config.rs\<close>).  The circuit breaker of the crate is in theory \<open>Breaker\<close>.

  A \<open>HashMap\<close> that is only looked up in, or rebuilt entry by entry, is a map; one whose
  iteration the code observes is the list of its entries in iteration order.
\<close>

section \<open>Errors\<close>

text \<open>\<open>std::io::Error\<close>: its kind and message.\<close>

datatype io_kind = FileNotFound | UnexpectedEof | InvalidData | OtherKind

datatype io_error = IoError io_kind string

datatype error =
    Io io_error
  | Serialization string
  | InvalidDocument string
  | InvalidQuery string
  | ShardError string
  | IndexError string
  | Wal string
  | Grpc string
  | RankerError string
  | ConfigError string
  | NotFound u64
  | Timeout string
  | Internal string

type_synonym 'a result = "error + 'a"

fun io_error_display :: "io_error \<Rightarrow> string" where
  "io_error_display (IoError k msg) = msg"

fun error_display :: "error \<Rightarrow> string" where
  "error_display (Io e) = ''I/O error: '' @ io_error_display e"
| "error_display (Serialization s) = ''Serialization error: '' @ s"
| "error_display (InvalidDocument s) = ''Invalid document: '' @ s"
| "error_display (InvalidQuery s) = ''Invalid query: '' @ s"
| "error_display (ShardError s) = ''Shard error: '' @ s"
| "error_display (IndexError s) = ''Index error: '' @ s"
| "error_display (Wal s) = ''WAL error: '' @ s"
| "error_display (Grpc s) = ''gRPC error: '' @ s"
| "error_display (RankerError s) = ''Ranker error: '' @ s"
| "error_display (ConfigError s) = ''Configuration error: '' @ s"
| "error_display (NotFound n) = ''Document not found: '' @ show_nat (unat n)"
| "error_display (Timeout s) = ''Timeout: '' @ s"
| "error_display (Internal s) = ''Internal error: '' @ s"

text \<open>The \<open>?\<close> operator, and \<open>Result::map\<close>.\<close>

definition res_bind :: "'e + 'a \<Rightarrow> ('a \<Rightarrow> 'e + 'b) \<Rightarrow> 'e + 'b" where
  "res_bind r f = (case r of Inl e \<Rightarrow> Inl e | Inr x \<Rightarrow> f x)"

definition is_ok :: "'e + 'a \<Rightarrow> bool" where
  "is_ok r = (case r of Inl e \<Rightarrow> False | Inr x \<Rightarrow> True)"

lemma res_bind_simps [simp]:
  "res_bind (Inl e) f = Inl e"
  "res_bind (Inr x) f = f x"
  by (simp_all add: res_bind_def)

lemma is_ok_simps [simp]: "\<not> is_ok (Inl e)" "is_ok (Inr x)"
  by (simp_all add: is_ok_def)

lemma res_bind_Inr: "res_bind r f = Inr y \<longleftrightarrow> (\<exists>x. r = Inr x \<and> f x = Inr y)"
  by (cases r) auto

section \<open>Documents, requests, responses\<close>

datatype attr_value =
    VString string
  | VNumber f64
  | VBool bool
  | VStringArray "string list"

record document =
  d_id :: u64
  d_title :: string
  d_description :: string
  d_price :: f64
  d_category :: string
  d_attributes :: "string \<rightharpoonup> attr_value"

datatype filter_value =
    Equality string
  | Range "f64 option" "f64 option"
  | MultiValue "string list"

datatype sort_order = Desc | Asc

record sort_spec =
  sort_field :: string
  sort_order :: sort_order

record search_request =
  q_query :: string
  q_filters :: "(string \<times> filter_value) list"
  q_aggregations :: "string list"
  q_sort :: "sort_spec option"
  q_offset :: nat
  q_limit :: nat
  q_typo_tolerance :: bool
  q_language :: "string option"
  q_destination_zone :: "string option"
  q_include_docs :: bool

definition default_limit :: nat where
  "default_limit = 20"

definition default_true :: bool where
  "default_true = True"

definition default_request :: search_request where
  "default_request =
     \<lparr>q_query = [], q_filters = [], q_aggregations = [], q_sort = None, q_offset = 0, q_limit = 20,
      q_typo_tolerance = True, q_language = None, q_destination_zone = None, q_include_docs = False\<rparr>"

record search_hit =
  hit_id :: u64
  hit_score :: f32
  hit_document :: "document option"

record aggregation_bucket =
  bucket_value :: string
  bucket_count :: u64

datatype retrieval_mode = AndMode | OrFallback

text \<open>\<open>took_ms\<close> is the wall-clock duration of the call; no decision depends on it, and the
  model leaves it out.\<close>

record search_response =
  r_hits :: "search_hit list"
  r_total_hits :: u64
  r_aggregations :: "(string \<times> aggregation_bucket list) list"
  r_reranked :: bool
  r_retrieval_mode :: retrieval_mode
  r_cache_hit :: bool

record rank_candidate =
  rc_doc_id :: u64
  rc_bm25_score :: f32
  rc_title :: string
  rc_category :: string
  rc_price :: f64
  rc_attributes :: "string \<rightharpoonup> attr_value"

record ranked_result =
  rr_doc_id :: u64
  rr_score :: f32

section \<open>Schema\<close>

datatype field_type = Text | Keyword | Numeric | Boolean

datatype language_id = English | Spanish | Portuguese

datatype analyzer_type = Standard language_id | KeywordAnalyzer

record field_config =
  f_name :: string
  f_type :: field_type
  f_indexed :: bool
  f_stored :: bool
  f_filterable :: bool
  f_aggregatable :: bool
  f_boost :: f32
  f_analyzer :: analyzer_type

type_synonym index_schema = "field_config list"

definition default_product_schema :: index_schema where
  "default_product_schema =
     [\<lparr>f_name = ''title'', f_type = Text, f_indexed = True, f_stored = True,
       f_filterable = False, f_aggregatable = False, f_boost = f32_of_frac 2 1,
       f_analyzer = Standard Spanish\<rparr>,
      \<lparr>f_name = ''description'', f_type = Text, f_indexed = True, f_stored = True,
       f_filterable = False, f_aggregatable = False, f_boost = f32_of_frac 1 1,
       f_analyzer = Standard Spanish\<rparr>,
      \<lparr>f_name = ''price'', f_type = Numeric, f_indexed = False, f_stored = True,
       f_filterable = True, f_aggregatable = False, f_boost = f32_of_frac 0 1,
       f_analyzer = KeywordAnalyzer\<rparr>,
      \<lparr>f_name = ''category'', f_type = Keyword, f_indexed = False, f_stored = True,
       f_filterable = True, f_aggregatable = True, f_boost = f32_of_frac 0 1,
       f_analyzer = KeywordAnalyzer\<rparr>]"

end
