(* ===== verification/Config.thy ===== *)
theory Config
  imports CoreTypes
begin

text \<open>
  \<open>crates/core/src/config.rs\<close>: the configuration records and their default values.  File
  paths are byte strings.  \<open>Config::from_file\<close> reads a file and hands it to the YAML parser,
  both of which are arguments here.
\<close>

datatype mode = RouterMode | ShardMode | Standalone | Suggest

datatype shard_discovery = Static | Dns

datatype shard_role = Primary | Replica

datatype ranker_type = NoRanker | GrpcRankerType | WasmRankerType

datatype availability_strategy_type = NoopAvail | StaticAvail | RegionStockAvail

record telemetry_config =
  tel_enabled :: bool
  tel_otlp_endpoint :: string
  tel_service_name :: string
  tel_sample_rate :: f64

definition default_otlp_endpoint :: string where
  "default_otlp_endpoint = ''http://otel-collector:4317''"

definition default_service_name :: string where
  "default_service_name = ''search-engine''"

definition default_sample_rate :: f64 where
  "default_sample_rate = f64_of_frac 1 1"

definition default_telemetry_config :: telemetry_config where
  "default_telemetry_config =
     \<lparr>tel_enabled = False, tel_otlp_endpoint = default_otlp_endpoint,
      tel_service_name = default_service_name, tel_sample_rate = default_sample_rate\<rparr>"

definition default_mode :: mode where
  "default_mode = Standalone"

record circuit_breaker_config =
  cb_enabled :: bool
  cb_failure_threshold :: u32
  cb_recovery_ms :: u64

definition default_cb_threshold :: u32 where
  "default_cb_threshold = 5"

definition default_cb_recovery_ms :: u64 where
  "default_cb_recovery_ms = 10000"

definition default_circuit_breaker_config :: circuit_breaker_config where
  "default_circuit_breaker_config =
     \<lparr>cb_enabled = False, cb_failure_threshold = default_cb_threshold,
      cb_recovery_ms = default_cb_recovery_ms\<rparr>"

record query_cache_config =
  qc_enabled :: bool
  qc_max_entries :: u64
  qc_ttl_seconds :: u64

definition default_cache_max_entries :: u64 where
  "default_cache_max_entries = 10000"

definition default_cache_ttl_seconds :: u64 where
  "default_cache_ttl_seconds = 60"

definition default_query_cache_config :: query_cache_config where
  "default_query_cache_config =
     \<lparr>qc_enabled = False, qc_max_entries = default_cache_max_entries,
      qc_ttl_seconds = default_cache_ttl_seconds\<rparr>"

record shard_group_config =
  sg_primary :: string
  sg_replicas :: "string list"

record static_availability_config =
  sa_stock_attribute_prefix :: string
  sa_default_available :: bool
  sa_min_stock :: f64

definition default_stock_prefix :: string where
  "default_stock_prefix = ''stock_''"

definition default_true_bool :: bool where
  "default_true_bool = True"

definition default_min_stock :: f64 where
  "default_min_stock = f64_of_frac 1 1"

definition default_static_availability_config :: static_availability_config where
  "default_static_availability_config =
     \<lparr>sa_stock_attribute_prefix = default_stock_prefix, sa_default_available = True,
      sa_min_stock = default_min_stock\<rparr>"

record region_stock_config =
  rs_base_url :: string
  rs_timeout_ms :: u64

definition default_stock_timeout_ms :: u64 where
  "default_stock_timeout_ms = 50"

record availability_config =
  av_strategy :: availability_strategy_type
  av_static :: "static_availability_config option"
  av_region_stock :: "region_stock_config option"

definition default_availability_config :: availability_config where
  "default_availability_config =
     \<lparr>av_strategy = NoopAvail, av_static = None, av_region_stock = None\<rparr>"

record router_config =
  rt_http_port :: u16
  rt_shard_endpoints :: "string list"
  rt_shards :: "shard_group_config list"
  rt_shard_discovery :: shard_discovery
  rt_dns_service :: "string option"
  rt_query_timeout_ms :: u64
  rt_availability :: availability_config
  rt_cache :: query_cache_config
  rt_circuit_breaker :: circuit_breaker_config
  rt_suggest_shards :: "string list"
  rt_suggest_write_timeout_ms :: u64
  rt_suggest_query_timeout_ms :: u64

definition default_http_port :: u16 where
  "default_http_port = 8080"

definition default_discovery :: shard_discovery where
  "default_discovery = Static"

definition default_query_timeout_ms :: u64 where
  "default_query_timeout_ms = 5000"

definition default_suggest_write_timeout_ms :: u64 where
  "default_suggest_write_timeout_ms = 200"

definition default_suggest_query_timeout_ms :: u64 where
  "default_suggest_query_timeout_ms = 100"

definition default_router_config :: router_config where
  "default_router_config =
     \<lparr>rt_http_port = default_http_port, rt_shard_endpoints = [], rt_shards = [],
      rt_shard_discovery = default_discovery, rt_dns_service = None,
      rt_query_timeout_ms = default_query_timeout_ms,
      rt_availability = default_availability_config, rt_cache = default_query_cache_config,
      rt_circuit_breaker = default_circuit_breaker_config, rt_suggest_shards = [],
      rt_suggest_write_timeout_ms = default_suggest_write_timeout_ms,
      rt_suggest_query_timeout_ms = default_suggest_query_timeout_ms\<rparr>"

record shard_config =
  sc_grpc_port :: u16
  sc_shard_id :: u32
  sc_data_dir :: string
  sc_num_shards :: u32
  sc_write_buffer_size :: nat
  sc_merge_threads :: nat
  sc_role :: shard_role
  sc_replica_endpoints :: "string list"
  sc_replica_endpoint_template :: "string option"
  sc_primary_endpoint :: "string option"
  sc_primary_endpoint_template :: "string option"

definition default_grpc_port :: u16 where
  "default_grpc_port = 9001"

definition default_data_dir :: string where
  "default_data_dir = ''./data''"

definition default_num_shards :: u32 where
  "default_num_shards = 4"

definition default_write_buffer_size :: nat where
  "default_write_buffer_size = 64 * 1024 * 1024"

definition default_merge_threads :: nat where
  "default_merge_threads = 2"

definition default_shard_config :: shard_config where
  "default_shard_config =
     \<lparr>sc_grpc_port = default_grpc_port, sc_shard_id = 0, sc_data_dir = default_data_dir,
      sc_num_shards = default_num_shards, sc_write_buffer_size = default_write_buffer_size,
      sc_merge_threads = default_merge_threads, sc_role = Primary, sc_replica_endpoints = [],
      sc_replica_endpoint_template = None, sc_primary_endpoint = None,
      sc_primary_endpoint_template = None\<rparr>"

record suggest_shard_config =
  ss_grpc_port :: u16
  ss_shard_id :: u32
  ss_num_suggest_shards :: u32
  ss_min_doc_frequency :: u32
  ss_max_terms_per_shard :: u32
  ss_fields :: "string list"

definition default_suggest_grpc_port :: u16 where
  "default_suggest_grpc_port = 9002"

definition default_num_suggest_shards :: u32 where
  "default_num_suggest_shards = 2"

definition default_min_doc_frequency :: u32 where
  "default_min_doc_frequency = 2"

definition default_max_terms_per_shard :: u32 where
  "default_max_terms_per_shard = 50000"

definition default_suggest_fields :: "string list" where
  "default_suggest_fields = [''title'']"

definition default_suggest_shard_config :: suggest_shard_config where
  "default_suggest_shard_config =
     \<lparr>ss_grpc_port = default_suggest_grpc_port, ss_shard_id = 0,
      ss_num_suggest_shards = default_num_suggest_shards,
      ss_min_doc_frequency = default_min_doc_frequency,
      ss_max_terms_per_shard = default_max_terms_per_shard,
      ss_fields = default_suggest_fields\<rparr>"

record ranker_config =
  rk_type :: ranker_type
  rk_grpc_endpoint :: "string option"
  rk_wasm_module :: "string option"
  rk_timeout_ms :: u64
  rk_candidates :: nat
  rk_circuit_breaker :: circuit_breaker_config

definition default_ranker_type :: ranker_type where
  "default_ranker_type = NoRanker"

definition default_ranker_timeout_ms :: u64 where
  "default_ranker_timeout_ms = 30"

definition default_ranker_candidates :: nat where
  "default_ranker_candidates = 200"

definition default_ranker_config :: ranker_config where
  "default_ranker_config =
     \<lparr>rk_type = default_ranker_type, rk_grpc_endpoint = None, rk_wasm_module = None,
      rk_timeout_ms = default_ranker_timeout_ms, rk_candidates = default_ranker_candidates,
      rk_circuit_breaker = default_circuit_breaker_config\<rparr>"

record config =
  cfg_mode :: mode
  cfg_router :: router_config
  cfg_shard :: shard_config
  cfg_suggest_shard :: suggest_shard_config
  cfg_ranker :: ranker_config
  cfg_telemetry :: telemetry_config

definition default_config :: config where
  "default_config =
     \<lparr>cfg_mode = default_mode, cfg_router = default_router_config,
      cfg_shard = default_shard_config, cfg_suggest_shard = default_suggest_shard_config,
      cfg_ranker = default_ranker_config, cfg_telemetry = default_telemetry_config\<rparr>"

definition config_from_file ::
  "(string \<Rightarrow> io_error + string) \<Rightarrow> (string \<Rightarrow> string + config) \<Rightarrow> string \<Rightarrow> config result" where
  "config_from_file read_to_string yaml_from_str path =
     (case read_to_string path of
        Inl e \<Rightarrow> Inl (Io e)
      | Inr contents \<Rightarrow>
          (case yaml_from_str contents of Inl msg \<Rightarrow> Inl (ConfigError msg) | Inr c \<Rightarrow> Inr c))"

end
