(* ===== verification/Breaker.thy ===== *)
theory Breaker
  imports Config
begin

text \<open>
  \<open>crates/core/src/breaker.rs\<close>: the circuit breaker shared by the shard client and the ranker.
  The clock is an argument: \<open>now\<close> is the value \<open>now_ms()\<close> returns in the call.  Each call is one
  step; the metric the constructor names is not modelled.
\<close>

section \<open>Operations\<close>

record circuit_breaker =
  failures :: u32
  opened_at_ms :: u64
  threshold :: u32
  recovery_ms :: u64

definition breaker_new :: "circuit_breaker_config \<Rightarrow> circuit_breaker" where
  "breaker_new config =
     \<lparr>failures = 0, opened_at_ms = 0, threshold = cb_failure_threshold config,
      recovery_ms = cb_recovery_ms config\<rparr>"

definition is_open :: "u64 \<Rightarrow> circuit_breaker \<Rightarrow> bool" where
  "is_open now cb =
     (let opened_at = opened_at_ms cb
      in if opened_at = 0 then False else sat_sub now opened_at < recovery_ms cb)"

definition record_success :: "circuit_breaker \<Rightarrow> circuit_breaker" where
  "record_success cb = cb\<lparr>failures := 0, opened_at_ms := 0\<rparr>"

definition record_failure :: "u64 \<Rightarrow> circuit_breaker \<Rightarrow> circuit_breaker" where
  "record_failure now cb =
     (let prev = failures cb;
          cb = cb\<lparr>failures := prev + 1\<rparr>
      in if threshold cb \<le> prev + 1
         then (if opened_at_ms cb = 0 then cb\<lparr>opened_at_ms := now\<rparr> else cb)
         else cb)"

section \<open>The state machine\<close>

text \<open>What a call to the protected service reports, at which time.\<close>

datatype outcome = Success u64 | Failure u64

fun outcome_time :: "outcome \<Rightarrow> u64" where
  "outcome_time (Success t) = t"
| "outcome_time (Failure t) = t"

fun observe :: "circuit_breaker \<Rightarrow> outcome \<Rightarrow> circuit_breaker" where
  "observe cb (Success t) = record_success cb"
| "observe cb (Failure t) = record_failure t cb"

inductive breaker_reach :: "circuit_breaker_config \<Rightarrow> outcome list \<Rightarrow> circuit_breaker \<Rightarrow> bool"
  for config where
  reach_new: "breaker_reach config [] (breaker_new config)"
| reach_observe: "breaker_reach config os cb \<Longrightarrow> breaker_reach config (os @ [oc]) (observe cb oc)"

inductive_cases breaker_reach_snocE: "breaker_reach config (os @ [oc]) cb"

text \<open>The times of the failures since the last success, oldest first.\<close>

fun streak :: "outcome list \<Rightarrow> u64 list \<Rightarrow> u64 list" where
  "streak [] ts = ts"
| "streak (Success t # os) ts = streak os []"
| "streak (Failure t # os) ts = streak os (ts @ [t])"

abbreviation failure_streak :: "outcome list \<Rightarrow> u64 list" where
  "failure_streak os \<equiv> streak os []"

lemma streak_append: "streak (os @ os') ts = streak os' (streak os ts)"
  by (induction os ts rule: streak.induct) auto

lemma failure_streak_snoc [simp]:
  "failure_streak (os @ [Success t]) = []"
  "failure_streak (os @ [Failure t]) = failure_streak os @ [t]"
  by (simp_all add: streak_append)

lemma streak_times:
  "set (streak os ts) \<subseteq> outcome_time ` set os \<union> set ts"
  by (induction os ts rule: streak.induct) auto

lemma length_streak: "length (streak os ts) \<le> length os + length ts"
proof (induction os ts rule: streak.induct)
  case (3 t os ts)
  then show ?case by simp
qed auto

text \<open>
  The specification of the state: the failure counter is the length of the streak, and the
  circuit was opened at the time of the failure that reached the threshold, if any did.
\<close>

definition trip_point :: "circuit_breaker_config \<Rightarrow> nat" where
  "trip_point config = max 1 (unat (cb_failure_threshold config))"

definition opening_time :: "circuit_breaker_config \<Rightarrow> u64 list \<Rightarrow> u64 option" where
  "opening_time config ts =
     (if trip_point config \<le> length ts then Some (ts ! (trip_point config - 1)) else None)"

definition breaker_spec :: "circuit_breaker_config \<Rightarrow> u64 list \<Rightarrow> circuit_breaker" where
  "breaker_spec config ts =
     \<lparr>failures = word_of_nat (length ts),
      opened_at_ms = (case opening_time config ts of None \<Rightarrow> 0 | Some t \<Rightarrow> t),
      threshold = cb_failure_threshold config, recovery_ms = cb_recovery_ms config\<rparr>"

lemma opening_time_mem: "opening_time config ts = Some t \<Longrightarrow> t \<in> set ts"
proof -
  assume t: "opening_time config ts = Some t"
  have "0 < trip_point config" by (simp add: trip_point_def)
  then have "trip_point config - 1 < length ts"
    using t by (auto simp: opening_time_def split: if_splits)
  then show ?thesis using t by (auto simp: opening_time_def split: if_splits)
qed

lemma breaker_spec_failure:
  assumes "Suc (length ts) < 2 ^ 32" "0 \<notin> set ts"
  shows "record_failure t (breaker_spec config ts) = breaker_spec config (ts @ [t])"
proof -
  have reached: "cb_failure_threshold config \<le> word_of_nat (length ts) + 1 \<longleftrightarrow>
      trip_point config \<le> Suc (length ts)"
  proof -
    have "unat (word_of_nat (Suc (length ts)) :: u32) = Suc (length ts)"
      using assms(1) by (simp add: unat_of_nat del: of_nat_Suc)
    then show ?thesis by (simp add: word_le_nat_alt trip_point_def add.commute)
  qed
  have "0 < trip_point config" by (simp add: trip_point_def)
  moreover have "ts ! (trip_point config - 1) \<noteq> 0" if "trip_point config \<le> length ts"
    using opening_time_mem [of config ts] assms(2) that by (auto simp: opening_time_def)
  ultimately show ?thesis
    using reached
    by (auto simp: breaker_spec_def record_failure_def opening_time_def Let_def nth_append le_Suc_eq add.commute)
qed

lemma breaker_refines:
  assumes "breaker_reach config os cb" "length os < 2 ^ 32" "0 \<notin> outcome_time ` set os"
  shows "cb = breaker_spec config (failure_streak os)"
  using assms
proof (induction rule: breaker_reach.induct)
  case reach_new
  then show ?case
    by (simp add: breaker_new_def breaker_spec_def opening_time_def trip_point_def)
next
  case (reach_observe os cb oc)
  then have cb: "cb = breaker_spec config (failure_streak os)" by auto
  have nz: "0 \<notin> set (failure_streak os)" and len: "Suc (length (failure_streak os)) < 2 ^ 32"
    using streak_times [of os "[]"] length_streak [of os "[]"] reach_observe.prems by auto
  show ?case
  proof (cases oc)
    case (Success t)
    then show ?thesis
      by (simp add: cb record_success_def breaker_spec_def opening_time_def trip_point_def)
  next
    case (Failure t)
    then show ?thesis using breaker_spec_failure [OF len nz] by (simp add: cb)
  qed
qed

section \<open>Properties\<close>

text \<open>
  C22: after any history of outcomes the breaker is open exactly when the failures since the last
  success have reached the threshold (one failure for a threshold of zero) and less than the
  recovery time has passed since the failure that reached it; a single success closes it.
\<close>
theorem breaker_open_iff:
  assumes "breaker_reach config os cb" "length os < 2 ^ 32" "0 \<notin> outcome_time ` set os"
  shows "is_open now cb \<longleftrightarrow>
    (\<exists>t. opening_time config (failure_streak os) = Some t \<and> sat_sub now t < cb_recovery_ms config)"
proof -
  have "0 \<notin> set (failure_streak os)"
    using streak_times [of os "[]"] assms(3) by auto
  then have "opening_time config (failure_streak os) \<noteq> Some 0"
    using opening_time_mem by blast
  then show ?thesis
    unfolding breaker_refines [OF assms]
    by (auto simp: is_open_def breaker_spec_def split: option.splits)
qed

definition example_breaker_config :: circuit_breaker_config where
  "example_breaker_config = \<lparr>cb_enabled = True, cb_failure_threshold = 2, cb_recovery_ms = 10000\<rparr>"

lemma example_breaker_reach:
  "breaker_reach example_breaker_config [Failure 5, Success 6, Failure 7, Failure 9]
     (record_failure 9 (record_failure 7 (record_success (record_failure 5
        (breaker_new example_breaker_config)))))"
  using reach_observe [OF reach_observe [OF reach_observe [OF reach_observe [OF reach_new]]],
      of example_breaker_config "Failure 5" "Success 6" "Failure 7" "Failure 9"] by simp

theorem breaker_open_iff_witness:
  "is_open 10 (record_failure 9 (record_failure 7 (record_success (record_failure 5
      (breaker_new example_breaker_config))))) \<longleftrightarrow>
   (\<exists>t. opening_time example_breaker_config
      (failure_streak [Failure 5, Success 6, Failure 7, Failure 9]) = Some t \<and>
      sat_sub 10 t < cb_recovery_ms example_breaker_config)"
  by (rule breaker_open_iff [OF example_breaker_reach]) simp_all

text \<open>
  C30: once the recovery time has passed, further failures never re-open the circuit: it stays
  closed at every later time until a success has been recorded, however many calls fail.
\<close>
theorem breaker_never_reopens:
  assumes "opened_at_ms cb \<noteq> 0" "recovery_ms cb \<le> sat_sub now (opened_at_ms cb)" "now \<le> later"
  shows "\<not> is_open later (foldl (\<lambda>cb t. record_failure t cb) cb ts)"
proof -
  have "opened_at_ms (foldl (\<lambda>cb t. record_failure t cb) cb ts) = opened_at_ms cb \<and>
      recovery_ms (foldl (\<lambda>cb t. record_failure t cb) cb ts) = recovery_ms cb"
    using assms(1) by (induction ts arbitrary: cb) (simp_all add: record_failure_def Let_def)
  moreover have "sat_sub now (opened_at_ms cb) \<le> sat_sub later (opened_at_ms cb)"
    using assms(3) by (simp add: word_le_nat_alt unat_sat_sub diff_le_mono)
  ultimately show ?thesis using assms(1,2) by (simp add: is_open_def)
qed

theorem breaker_never_reopens_witness:
  "\<not> is_open 20001 (foldl (\<lambda>cb t. record_failure t cb)
      \<lparr>failures = 2, opened_at_ms = 9, threshold = 2, recovery_ms = 10000\<rparr> [20000, 20000, 20000])"
  by (rule breaker_never_reopens [where now = 20000]) (simp_all add: sat_sub_def)

end
