(* ===== verification/Routing.thy ===== *)
theory Routing
  imports CoreTypes
begin

text \<open>
  \<open>crates/router/src/routing.rs\<close>: the jump consistent hash that assigns a document to a shard.
  The loop computes in \<open>f64\<close>, which the model does bit by bit; its index \<open>j\<close> is the truncation
  of a quotient of positive numbers, so it is a natural number here, and \<open>b\<close> keeps the
  initial \<open>-1\<close> of the code.
\<close>

definition jump_next :: "u64 \<Rightarrow> nat \<Rightarrow> int" where
  "jump_next k b =
     i64_of_f64 (f64_div (f64_mul (f64_of_nat (b + 1)) (f64_of_nat (2 ^ 31)))
                         (f64_of_nat (unat (drop_bit 33 k) + 1)))"

definition jump_key :: "u64 \<Rightarrow> u64" where
  "jump_key k = k * 2862933555777941757 + 1"

section \<open>Progress\<close>

text \<open>The unit in which \<open>mag_val\<close> measures doubles, kept folded.\<close>

definition unit64 :: nat where
  "unit64 = 2 ^ 1074"

lemma unit64_pos: "0 < unit64"
  by (simp add: unit64_def)

lemma f64_of_nat_raw:
  assumes "c \<le> 2 ^ 53"
  obtains m where "raw64 (f64_of_nat c) = (False, m)" "mag_val 52 m = c * unit64" "m < top b64"
proof -
  obtain m where m: "mag_val 52 m = c * 2 ^ 1074" "m \<le> (1074 + 1) * 2 ^ 52 + 2 ^ 52"
    using representable [of c 52 1074] assms by auto
  have top: "m < top b64" using m(2) by simp
  then have "fround 52 (top b64) (c * 2 ^ 1074 * 1) 1 = m"
    using fround_exact [of 1 m "top b64" 52] m(1) by simp
  then have "raw64 (f64_of_nat c) = (False, m)"
    by (simp add: f64_of_nat_def raw_of_frac raw_of_frac_def)
  then show ?thesis using that m(1) top unfolding unit64_def by blast
qed

lemma raw_mul_pos:
  assumes "raw64 x = (False, a)" "raw64 y = (False, b)" "a < top b64" "b < top b64"
  shows "raw64 (f64_mul x y) = (False, fround 52 (top b64) (mag_val 52 a * mag_val 52 b) unit64)"
  using assms by (simp add: raw64_ops raw_mul_def raw_nan_def raw_inf_def unit64_def Let_def)

lemma raw_div_pos:
  assumes "raw64 x = (False, a)" "raw64 y = (False, b)" "a < top b64" "b < top b64" "b \<noteq> 0"
  shows "raw64 (f64_div x y) = (False, fround 52 (top b64) (mag_val 52 a * unit64) (mag_val 52 b))"
  using assms by (simp add: raw64_ops raw_div_def raw_nan_def raw_inf_def unit64_def Let_def)

lemma i64_of_f64_ge:
  assumes "raw64 x = (False, q)" "q \<le> top b64" "c * unit64 \<le> mag_val 52 q" "c < 2 ^ 63"
  shows "int c \<le> i64_of_f64 x"
proof -
  have "c \<le> mag_val 52 q div unit64"
    using assms(3) unit64_pos by (simp add: less_eq_div_iff_mult_less_eq)
  then show ?thesis
    using assms(1,2,4) unfolding i64_of_f64_def Let_def unit64_def
    by (simp add: raw_nan_def raw_inf_def)
qed

text \<open>
  The heart of the argument: with \<open>d \<le> 2 ^ 31\<close>, the rounded quotient \<open>c * 2 ^ 31 / d\<close> is still at
  least \<open>c\<close>, because \<open>c\<close> itself is a double and rounding is monotone.
\<close>

lemma quotient_ge:
  assumes c: "0 < c" "c \<le> 2 ^ 33" and d: "0 < d" "d \<le> 2 ^ 31"
  shows "int c \<le> i64_of_f64 (f64_div (f64_mul (f64_of_nat c) (f64_of_nat (2 ^ 31))) (f64_of_nat d))"
proof -
  have c53: "c \<le> 2 ^ 53" and d53: "d \<le> 2 ^ 53" using c(2) d(2) by simp_all
  obtain mc where mc: "raw64 (f64_of_nat c) = (False, mc)" "mag_val 52 mc = c * unit64" "mc < top b64"
    using c53 by (rule f64_of_nat_raw)
  have "(2 :: nat) ^ 31 \<le> 2 ^ 53" by simp
  then obtain mt where mt: "raw64 (f64_of_nat (2 ^ 31)) = (False, mt)"
    "mag_val 52 mt = 2 ^ 31 * unit64" "mt < top b64"
    by (rule f64_of_nat_raw)
  obtain md where md: "raw64 (f64_of_nat d) = (False, md)" "mag_val 52 md = d * unit64" "md < top b64"
    using d53 by (rule f64_of_nat_raw)
  have md0: "md \<noteq> 0" using md(2) d(1) unit64_pos by (cases "md = 0") auto
  obtain mp where "mag_val 52 mp = c * 2 ^ (1074 + 31)" and mp_top: "mp < top b64"
    using representable [of c 52 "1074 + 31"] c53 by auto
  then have mp: "mag_val 52 mp = c * unit64 * 2 ^ 31"
    unfolding unit64_def power_add by simp
  have "fround 52 (top b64) (c * unit64 * (2 ^ 31 * unit64)) unit64 = mp"
    using fround_exact [OF unit64_pos less_imp_le [OF mp_top], of 52] mp by (simp add: ac_simps)
  then have mul: "raw64 (f64_mul (f64_of_nat c) (f64_of_nat (2 ^ 31))) = (False, mp)"
    using raw_mul_pos [OF mc(1) mt(1) mc(3) mt(3)] by (simp add: mc(2) mt(2))
  define q where "q = fround 52 (top b64) (c * unit64 * 2 ^ 31 * unit64) (d * unit64)"
  have div: "raw64 (f64_div (f64_mul (f64_of_nat c) (f64_of_nat (2 ^ 31))) (f64_of_nat d)) = (False, q)"
    using raw_div_pos [OF mul md(1) mp_top md(3) md0] by (simp add: mp md(2) q_def)
  have "c * unit64 * (d * unit64) \<le> c * unit64 * (2 ^ 31 * unit64)"
    by (intro mult_le_mono order_refl d(2))
  then have "mag_val 52 mc * (d * unit64) \<le> c * unit64 * 2 ^ 31 * unit64"
    unfolding mc(2) by (simp only: mult.assoc)
  then have "mc \<le> q"
    unfolding q_def using d(1) unit64_pos mc(3) by (intro fround_ge) simp_all
  then have "c * unit64 \<le> mag_val 52 q" using mag_val_mono [of mc q 52] mc(2) by simp
  moreover have "q \<le> top b64" unfolding q_def by (rule fround_le_top)
  moreover have "c < 2 ^ 63" using c(2) by simp
  ultimately show ?thesis by (intro i64_of_f64_ge [OF div])
qed

lemma jump_next_ge: "b < 2 ^ 32 \<Longrightarrow> int b < jump_next k b"
proof -
  assume b: "b < 2 ^ 32"
  have "unat (drop_bit 33 k) = unat k div 2 ^ 33"
    by (simp only: unat_drop_bit_eq) (simp add: drop_bit_eq_div)
  then have "unat (drop_bit 33 k) + 1 \<le> 2 ^ 31"
    using unat_less(4) [of k] by (simp add: less_mult_imp_div_less Suc_le_eq)
  then show ?thesis
    unfolding jump_next_def using quotient_ge [of "b + 1" "unat (drop_bit 33 k) + 1"] b by simp
qed

section \<open>The loop\<close>

function jump_loop :: "u32 \<Rightarrow> u64 \<Rightarrow> int \<Rightarrow> nat \<Rightarrow> int" where
  "jump_loop num_buckets k b j =
     (if j < unat num_buckets
      then let b = j; k = jump_key k in jump_loop num_buckets k (int b) (nat (jump_next k b))
      else b)"
  by auto

termination jump_loop
proof (relation "measure (\<lambda>(n, k, b, j). unat n - j)", goal_cases)
  case 1
  then show ?case by simp
next
  case (2 n k b j x y)
  then have "j < 2 ^ 32" using unat_less(3) [of n] by simp
  with 2 show ?case using jump_next_ge [of j y] by simp
qed

declare jump_loop.simps [simp del]

definition jump_consistent_hash :: "u64 \<Rightarrow> u32 \<Rightarrow> u32" where
  "jump_consistent_hash key num_buckets = word_of_int (jump_loop num_buckets key (- 1) 0)"

lemma jump_loop_range:
  assumes "unat n = N" "j < N \<or> (\<exists>c < N. b = int c)"
  shows "\<exists>c < N. jump_loop n k b j = int c"
  using assms
proof (induction n k b j rule: jump_loop.induct)
  case (1 n k b j)
  show ?case
  proof (cases "j < N")
    case True
    then have "\<exists>c < N. jump_loop n (jump_key k) (int j) (nat (jump_next (jump_key k) j)) = int c"
      using 1 by auto
    then show ?thesis using True 1(2) jump_loop.simps [of n k b j] by (simp add: Let_def)
  next
    case False
    then show ?thesis using 1(2,3) jump_loop.simps [of n k b j] by auto
  qed
qed

text \<open>Growing the number of buckets from \<open>N\<close> to \<open>N + 1\<close> keeps the bucket or moves to the new one.\<close>

lemma jump_loop_Suc:
  assumes "unat n = N" "unat n' = Suc N"
  shows "jump_loop n' k b j = jump_loop n k b j \<or> jump_loop n' k b j = int N"
  using assms(1)
proof (induction n k b j rule: jump_loop.induct)
  case (1 n k b j)
  note IH = 1(1) and N = 1(2)
  let ?k = "jump_key k"
  let ?j = "nat (jump_next ?k j)"
  consider "j < N" | "j = N" | "N < j" by linarith
  then show ?case
  proof cases
    case 1
    then have "jump_loop n' k b j = jump_loop n' ?k (int j) ?j" "jump_loop n k b j = jump_loop n ?k (int j) ?j"
      using assms(2) N jump_loop.simps [of n k b j] jump_loop.simps [of n' k b j]
      by (simp_all add: Let_def)
    then show ?thesis using IH N 1 by auto
  next
    case 2
    then have "j < 2 ^ 32" using unat_less(3) [of n] N by simp
    then have "\<not> ?j < unat n'" using jump_next_ge [of j ?k] assms(2) 2 by simp
    then have "jump_loop n' ?k (int j) ?j = int j" by (subst jump_loop.simps) simp
    then show ?thesis
      using 2 assms(2) by (subst jump_loop.simps) (simp add: Let_def)
  next
    case 3
    then show ?thesis
      using assms(2) N jump_loop.simps [of n k b j] jump_loop.simps [of n' k b j] by simp
  qed
qed

section \<open>Properties\<close>

lemma jump_hash_nat:
  assumes "n \<noteq> 0"
  shows "jump_loop n key (- 1) 0 = int (unat (jump_consistent_hash key n))"
    and "unat (jump_consistent_hash key n) < unat n"
proof -
  have "0 < unat n" using assms by (simp add: unat_gt_0)
  then obtain c where c: "c < unat n" "jump_loop n key (- 1) 0 = int c"
    using jump_loop_range [OF refl, of 0 n "- 1" key] by auto
  then have "jump_consistent_hash key n = word_of_nat c"
    by (simp add: jump_consistent_hash_def)
  then have "unat (jump_consistent_hash key n) = c"
    using c(1) unat_less(3) [of n] by (simp add: unat_of_nat)
  with c show "jump_loop n key (- 1) 0 = int (unat (jump_consistent_hash key n))"
    and "unat (jump_consistent_hash key n) < unat n" by simp_all
qed

text \<open>
  C29: the hash terminates for every key and every number of buckets (its loop is a total function:
  the computed double never falls back), and with at least one bucket it names one of the buckets.
\<close>
theorem jump_hash_in_range:
  assumes "n \<noteq> 0"
  shows "jump_consistent_hash key n < n"
  using jump_hash_nat(2) [OF assms] by (simp add: word_less_nat_alt)

theorem jump_hash_in_range_witness: "jump_consistent_hash 42 4 < 4"
  by (rule jump_hash_in_range) simp

text \<open>
  C19: the hash is consistent: when a bucket is added, every key keeps its bucket or moves to the
  new one, so no document moves between old shards.
\<close>
theorem jump_hash_consistent:
  assumes "n \<noteq> 0" "n \<noteq> - 1"
  shows "jump_consistent_hash key (n + 1) \<in> {jump_consistent_hash key n, n}"
proof -
  have "unat n \<noteq> 2 ^ 32 - 1"
    using assms(2) unat_minus_one_max [where 'a = 32] by (simp add: word_unat_eq_iff)
  then have n1: "unat (n + 1) = Suc (unat n)"
    using unat_less(3) [of n] by (simp add: unat_add_lem [THEN iffD1])
  then have n0: "n + 1 \<noteq> 0" by auto
  have "int (unat (jump_consistent_hash key (n + 1))) = int (unat (jump_consistent_hash key n)) \<or>
      int (unat (jump_consistent_hash key (n + 1))) = int (unat n)"
    using jump_loop_Suc [OF refl n1, of key "- 1" 0]
    by (simp only: jump_hash_nat(1) [OF n0] jump_hash_nat(1) [OF assms(1)])
  then show ?thesis by (simp only: of_nat_eq_iff word_unat_eq_iff insert_iff empty_iff simp_thms)
qed

theorem jump_hash_consistent_witness:
  "jump_consistent_hash 42 (4 + 1) \<in> {jump_consistent_hash 42 4, 4}"
  by (rule jump_hash_consistent) simp_all

text \<open>With no bucket at all the result is the largest \<open>u32\<close>: the initial \<open>-1\<close>, cast.\<close>

lemma jump_hash_no_bucket: "jump_consistent_hash key 0 = - 1"
  by (simp add: jump_consistent_hash_def jump_loop.simps)

end
