(* ===== verification/Analysis.thy ===== *)
theory Analysis
  imports CoreTypes
begin

text \<open>
  The crate \<open>search-analysis\<close>: tokens (\<open>token.rs\<close>), tokenizers (\<open>tokenizer.rs\<close>), token filters
  (\<open>filter.rs\<close>) and analyzers (\<open>analyzer.rs\<close>).

  What the crate takes from elsewhere is the record \<open>text_env\<close>: word segmentation
  (\<open>unicode-segmentation\<close>), the Unicode tables behind \<open>char::is_alphanumeric\<close> and
  \<open>str::to_lowercase\<close>, and the Snowball stemmers (\<open>rust-stemmers\<close>).
\<close>

section \<open>Characters of a UTF-8 string\<close>

text \<open>
  The first byte of a character determines its length.  A character is represented by its bytes,
  so \<open>len_utf8\<close> is \<open>length\<close>.
\<close>

definition utf8_len :: "char \<Rightarrow> nat" where
  "utf8_len c =
     (let n = (of_char c :: nat)
      in if n < 0xC0 then 1 else if n < 0xE0 then 2 else if n < 0xF0 then 3 else 4)"

lemma utf8_len_pos: "0 < utf8_len c"
  by (simp add: utf8_len_def Let_def)

function char_indices_from :: "nat \<Rightarrow> string \<Rightarrow> (nat \<times> string) list" where
  "char_indices_from off [] = []"
| "char_indices_from off (c # cs) =
     (off, take (utf8_len c) (c # cs)) # char_indices_from (off + utf8_len c) (drop (utf8_len c) (c # cs))"
  by pat_completeness auto

termination char_indices_from
proof (relation "measure (\<lambda>(off, s). length s)", goal_cases)
  case 1
  then show ?case by simp
next
  case (2 off c cs)
  then show ?case using utf8_len_pos [of c] by simp
qed

definition char_indices :: "string \<Rightarrow> (nat \<times> string) list" where
  "char_indices s = char_indices_from 0 s"

definition chars :: "string \<Rightarrow> string list" where
  "chars s = List.map snd (char_indices s)"

lemma char_indices_from_bounds:
  "(i, c) \<in> set (char_indices_from off s) \<Longrightarrow>
     off \<le> i \<and> c \<noteq> [] \<and> i + length c \<le> off + length s \<and> take (length c) (drop (i - off) s) = c"
proof (induction off s rule: char_indices_from.induct)
  case (1 off)
  then show ?case by simp
next
  case (2 off b cs)
  let ?n = "utf8_len b"
  note n = utf8_len_pos [of b]
  from 2(2) consider "(i, c) = (off, take ?n (b # cs))"
    | "(i, c) \<in> set (char_indices_from (off + ?n) (drop ?n (b # cs)))" by auto
  then show ?case
  proof cases
    case 1
    then show ?thesis using n by (auto simp: min_def)
  next
    case rec: 2
    then obtain k where k: "i = off + ?n + k"
      using 2(1) [OF rec] le_Suc_ex by blast
    have "0 < length c" "off + ?n + k + length c \<le> off + ?n + (length (b # cs) - ?n)"
      and tk: "take (length c) (drop (k + ?n) (b # cs)) = c"
      using 2(1) [OF rec] by (simp_all add: k)
    then have "i + length c \<le> off + length (b # cs)" unfolding k by linarith
    moreover have "take (length c) (drop (i - off) (b # cs)) = c"
      using tk by (simp add: k add.commute)
    ultimately show ?thesis using 2(1) [OF rec] by (simp add: k)
  qed
qed

lemma char_indices_from_sorted:
  "sorted_wrt (\<lambda>(i, c) (j, d). i + length c \<le> j) (char_indices_from off s)"
proof (induction off s rule: char_indices_from.induct)
  case (2 off b cs)
  have "off + length (take (utf8_len b) (b # cs)) \<le> j"
    if "(j, d) \<in> set (char_indices_from (off + utf8_len b) (drop (utf8_len b) (b # cs)))" for j d
    using char_indices_from_bounds [OF that] by (auto simp: min_def)
  then show ?case using 2 by auto
qed simp

section \<open>Tokens and tokenizers\<close>

record token =
  t_text :: string
  t_start :: nat
  t_end :: nat
  t_position :: nat

record text_env =
  unicode_word_indices :: "string \<Rightarrow> (nat \<times> string) list"
  is_alphanumeric :: "string \<Rightarrow> bool"
  to_lowercase :: "string \<Rightarrow> string"
  stem :: "language_id \<Rightarrow> string \<Rightarrow> string"

text \<open>The trimming of one word: the byte range from its first to its last alphanumeric character.\<close>

definition trimmed_start :: "text_env \<Rightarrow> string \<Rightarrow> nat" where
  "trimmed_start env word =
     (case List.find (\<lambda>(i, c). is_alphanumeric env c) (char_indices word) of
        None \<Rightarrow> 0 | Some (i, c) \<Rightarrow> i)"

definition trimmed_end :: "text_env \<Rightarrow> string \<Rightarrow> nat" where
  "trimmed_end env word =
     (case List.find (\<lambda>(i, c). is_alphanumeric env c) (rev (char_indices word)) of
        None \<Rightarrow> length word | Some (i, c) \<Rightarrow> i + length c)"

fun tokenize_words :: "text_env \<Rightarrow> (nat \<times> string) list \<Rightarrow> nat \<Rightarrow> token list" where
  "tokenize_words env [] pos = []"
| "tokenize_words env ((byte_offset, word) # ws) pos =
     (if \<not> list_ex (is_alphanumeric env) (chars word) then tokenize_words env ws pos
      else
        let s = trimmed_start env word; e = trimmed_end env word;
            trimmed = take (e - s) (drop s word)
        in if trimmed = [] then tokenize_words env ws pos
           else \<lparr>t_text = trimmed, t_start = byte_offset + s, t_end = byte_offset + e,
                 t_position = pos\<rparr> # tokenize_words env ws (pos + 1))"

datatype tokenizer = UnicodeTokenizer | KeywordTokenizer

fun tokenize :: "text_env \<Rightarrow> tokenizer \<Rightarrow> string \<Rightarrow> token list" where
  "tokenize env UnicodeTokenizer text = tokenize_words env (unicode_word_indices env text) 0"
| "tokenize env KeywordTokenizer text =
     (if text = [] then []
      else [\<lparr>t_text = text, t_start = 0, t_end = length text, t_position = 0\<rparr>])"

section \<open>Filters and analyzers\<close>

datatype token_filter = LowercaseFilter | StemmerFilter language_id

fun filter_apply :: "text_env \<Rightarrow> token_filter \<Rightarrow> token list \<Rightarrow> token list" where
  "filter_apply env LowercaseFilter tokens =
     map (\<lambda>t. t\<lparr>t_text := to_lowercase env (t_text t)\<rparr>) tokens"
| "filter_apply env (StemmerFilter l) tokens =
     map (\<lambda>t. t\<lparr>t_text := stem env l (t_text t)\<rparr>) tokens"

record analyzer =
  an_tokenizer :: tokenizer
  an_filters :: "token_filter list"

definition analyze :: "text_env \<Rightarrow> analyzer \<Rightarrow> string \<Rightarrow> token list" where
  "analyze env a text =
     foldl (\<lambda>tokens f. filter_apply env f tokens) (tokenize env (an_tokenizer a) text) (an_filters a)"

definition analyze_to_terms :: "text_env \<Rightarrow> analyzer \<Rightarrow> string \<Rightarrow> string list" where
  "analyze_to_terms env a text = map t_text (analyze env a text)"

definition standard_analyzer :: "language_id \<Rightarrow> analyzer" where
  "standard_analyzer l =
     \<lparr>an_tokenizer = UnicodeTokenizer, an_filters = [LowercaseFilter, StemmerFilter l]\<rparr>"

definition keyword_analyzer :: analyzer where
  "keyword_analyzer = \<lparr>an_tokenizer = KeywordTokenizer, an_filters = []\<rparr>"

fun analyzer_build :: "analyzer_type \<Rightarrow> analyzer" where
  "analyzer_build (Standard l) = standard_analyzer l"
| "analyzer_build KeywordAnalyzer = keyword_analyzer"

section \<open>Interfaces\<close>

text \<open>
  The two traits.  A tokenizer numbers its tokens and cuts them out of the text; a token filter
  rewrites the text of each token and nothing else.
\<close>

definition cut_from :: "string \<Rightarrow> token \<Rightarrow> bool" where
  "cut_from text t \<longleftrightarrow> t_text t \<noteq> [] \<and> slice text (t_start t) (t_end t) = Some (t_text t)"

definition numbered :: "token list \<Rightarrow> bool" where
  "numbered ts \<longleftrightarrow> map t_position ts = [0..<length ts]"

definition disjoint_ascending :: "token list \<Rightarrow> bool" where
  "disjoint_ascending ts \<longleftrightarrow> sorted_wrt (\<lambda>s t. t_end s \<le> t_start t) ts"

locale tokenizer_law =
  fixes tok :: "string \<Rightarrow> token list"
    and dom_ok :: "string \<Rightarrow> bool"
  assumes tok_numbered: "numbered (tok text)"
    and tok_cut: "dom_ok text \<Longrightarrow> \<forall>t \<in> set (tok text). cut_from text t"
    and tok_ascending: "dom_ok text \<Longrightarrow> disjoint_ascending (tok text)"

locale filter_law =
  fixes app :: "token list \<Rightarrow> token list"
    and rewrite :: "string \<Rightarrow> string"
  assumes app_map: "app ts = map (\<lambda>t. t\<lparr>t_text := rewrite (t_text t)\<rparr>) ts"
begin

lemma app_numbered [wf_intros]: "numbered ts \<Longrightarrow> numbered (app ts)"
  by (simp add: numbered_def app_map comp_def)

lemma app_ascending [wf_intros]: "disjoint_ascending ts \<Longrightarrow> disjoint_ascending (app ts)"
  by (simp add: disjoint_ascending_def app_map sorted_wrt_map)

lemma app_spans: "map (\<lambda>t. (t_start t, t_end t)) (app ts) = map (\<lambda>t. (t_start t, t_end t)) ts"
  by (simp add: app_map comp_def)

lemma app_texts: "map t_text (app ts) = map rewrite (map t_text ts)"
  by (simp add: app_map comp_def)

end

section \<open>The tokenizers meet the interface\<close>

lemma find_SomeD: "List.find p xs = Some a \<Longrightarrow> p a" "List.find p xs = Some a \<Longrightarrow> a \<in> set xs"
  by (auto simp: find_Some_iff)

lemma find_rev_SomeD:
  assumes "sorted_wrt P xs" "List.find p xs = Some a" "List.find p (rev xs) = Some b"
  shows "a = b \<or> P a b"
proof -
  obtain i where i: "i < length xs" "xs ! i = a" "p a" "\<forall>j < i. \<not> p (xs ! j)"
    using assms(2) by (auto simp: find_Some_iff)
  obtain k where k: "k < length xs" "xs ! k = b" "p b"
  proof -
    have "b \<in> set xs" "p b" using find_SomeD [OF assms(3)] by simp_all
    then show thesis using that by (auto simp: in_set_conv_nth)
  qed
  then have "i \<le> k" using i by (metis not_le)
  then show ?thesis
    using i k assms(1) by (cases "i = k") (auto simp: sorted_wrt_nth_less)
qed

text \<open>A word with an alphanumeric character is trimmed to a non-empty range within it.\<close>

lemma trimmed_range:
  assumes "list_ex (is_alphanumeric env) (chars word)"
  shows "trimmed_start env word < trimmed_end env word \<and> trimmed_end env word \<le> length word"
proof -
  let ?cs = "char_indices word" and ?p = "\<lambda>(i, c). is_alphanumeric env c"
  obtain a where a: "a \<in> set ?cs" "?p a"
    using assms by (auto simp: list_ex_iff chars_def)
  obtain i c where f: "List.find ?p ?cs = Some (i, c)"
    using a find_None_iff [of ?p ?cs] by (cases "List.find ?p ?cs") auto
  obtain j d where l: "List.find ?p (rev ?cs) = Some (j, d)"
    using a find_None_iff [of ?p "rev ?cs"] by (cases "List.find ?p (rev ?cs)") auto
  have "(i, c) = (j, d) \<or> i + length c \<le> j"
    using find_rev_SomeD [OF char_indices_from_sorted [of 0 word], of ?p "(i, c)" "(j, d)"] f l
    by (simp add: char_indices_def)
  moreover have "(i, c) \<in> set ?cs" "(j, d) \<in> set ?cs"
    using find_SomeD(2) [OF f] find_SomeD(2) [OF l] by simp_all
  then have "c \<noteq> []" "d \<noteq> []" "j + length d \<le> length word"
    using char_indices_from_bounds [of i c 0 word] char_indices_from_bounds [of j d 0 word]
    by (auto simp: char_indices_def)
  ultimately show ?thesis
    by (auto simp: trimmed_start_def trimmed_end_def f l simp flip: length_greater_0_conv)
qed

text \<open>
  What \<open>unicode_word_indices\<close> documents: the words with their byte offsets in the text, in order
  and without overlap.
\<close>

definition words_ok :: "text_env \<Rightarrow> string \<Rightarrow> bool" where
  "words_ok env text \<longleftrightarrow>
     (\<forall>(off, w) \<in> set (unicode_word_indices env text). slice text off (off + length w) = Some w) \<and>
     sorted_wrt (\<lambda>(i, v) (j, w). i + length v \<le> j) (unicode_word_indices env text)"

lemma tokenize_words_positions:
  "map t_position (tokenize_words env ws pos) = [pos..<pos + length (tokenize_words env ws pos)]"
proof (induction env ws pos rule: tokenize_words.induct)
  case (2 env off word ws pos)
  then show ?case by (simp add: Let_def upt_rec [of pos])
qed simp

lemma slice_slice:
  assumes "slice text off (off + length w) = Some w" "s \<le> e" "e \<le> length w"
  shows "slice text (off + s) (off + e) = Some (take (e - s) (drop s w))"
proof -
  have w: "w = take (length w) (drop off text)" and l: "off + length w \<le> length text"
    using assms(1) by (auto simp: slice_def split: if_splits)
  have "take (e - s) (drop s w) = take (e - s) (drop s (take (length w) (drop off text)))"
    using w by simp
  also have "\<dots> = take (e - s) (drop (off + s) text)"
    using assms(2,3) by (simp add: drop_take take_take min_def add.commute)
  finally show ?thesis using assms(2,3) l by (simp add: slice_def)
qed

lemma tokenize_words_spans:
  assumes "\<forall>(off, w) \<in> set ws. slice text off (off + length w) = Some w"
    and "sorted_wrt (\<lambda>(i, v) (j, w). i + length v \<le> j) ws"
  shows "(\<forall>t \<in> set (tokenize_words env ws pos). cut_from text t) \<and>
    disjoint_ascending (tokenize_words env ws pos) \<and>
    (\<forall>t \<in> set (tokenize_words env ws pos). \<exists>(off, w) \<in> set ws. off \<le> t_start t \<and> t_end t \<le> off + length w)"
  using assms
proof (induction env ws pos rule: tokenize_words.induct)
  case (1 env pos)
  then show ?case by (simp add: disjoint_ascending_def)
next
  case (2 env off word ws pos)
  let ?s = "trimmed_start env word" and ?e = "trimmed_end env word"
  show ?case
  proof (cases "list_ex (is_alphanumeric env) (chars word)")
    case False
    then show ?thesis using 2 by auto
  next
    case True
    note r = trimmed_range [OF True]
    let ?t = "\<lparr>t_text = take (?e - ?s) (drop ?s word), t_start = off + ?s, t_end = off + ?e, t_position = pos\<rparr>"
    have ne: "take (?e - ?s) (drop ?s word) \<noteq> []" using r by simp
    have cut: "cut_from text ?t"
      using ne slice_slice [of "text" off word ?s ?e] 2(4) r by (simp add: cut_from_def)
    have rec: "tokenize_words env ((off, word) # ws) pos = ?t # tokenize_words env ws (pos + 1)"
      using True ne by (simp add: Let_def)
    have IH: "(\<forall>t \<in> set (tokenize_words env ws (pos + 1)). cut_from text t) \<and>
        disjoint_ascending (tokenize_words env ws (pos + 1)) \<and>
        (\<forall>t \<in> set (tokenize_words env ws (pos + 1)). \<exists>(o', w) \<in> set ws. o' \<le> t_start t \<and> t_end t \<le> o' + length w)"
      using 2(3) [OF _ refl refl refl] True ne 2(4,5) by auto
    moreover have "\<forall>t \<in> set (tokenize_words env ws (pos + 1)). off + ?e \<le> t_start t"
      using IH 2(5) r by fastforce
    ultimately show ?thesis
      unfolding rec using cut r by (auto simp: disjoint_ascending_def)
  qed
qed

interpretation unicode: tokenizer_law "tokenize env UnicodeTokenizer" "words_ok env" for env
  by unfold_locales
    (auto simp: numbered_def tokenize_words_positions words_ok_def tokenize_words_spans)

interpretation keyword: tokenizer_law "tokenize env KeywordTokenizer" "\<lambda>text. True" for env
  by unfold_locales (auto simp: numbered_def cut_from_def slice_def disjoint_ascending_def)

interpretation lowercase: filter_law "filter_apply env LowercaseFilter" "to_lowercase env" for env
  by unfold_locales simp

interpretation stemmer: filter_law "filter_apply env (StemmerFilter l)" "stem env l" for env l
  by unfold_locales simp

section \<open>Properties\<close>

text \<open>
  C31: the standard analyzer numbers its tokens from zero without gaps, keeps the byte spans of the
  tokenizer (within the text, non-empty, ascending and disjoint), and each term is the stem of the
  lower-cased piece of text at the token's span.
\<close>
theorem standard_analyzer_tokens:
  assumes "words_ok env text"
  shows "numbered (analyze env (analyzer_build (Standard l)) text) \<and>
    disjoint_ascending (analyze env (analyzer_build (Standard l)) text) \<and>
    (\<forall>t \<in> set (analyze env (analyzer_build (Standard l)) text).
       \<exists>w. w \<noteq> [] \<and> slice text (t_start t) (t_end t) = Some w \<and>
           t_text t = stem env l (to_lowercase env w))"
proof -
  let ?ts = "tokenize env UnicodeTokenizer text"
  have a: "analyze env (analyzer_build (Standard l)) text =
      filter_apply env (StemmerFilter l) (filter_apply env LowercaseFilter ?ts)"
    by (simp add: analyze_def standard_analyzer_def)
  have "numbered (filter_apply env (StemmerFilter l) (filter_apply env LowercaseFilter ?ts))"
    by (intro stemmer.app_numbered lowercase.app_numbered unicode.tok_numbered)
  moreover have "disjoint_ascending (filter_apply env (StemmerFilter l) (filter_apply env LowercaseFilter ?ts))"
    by (intro stemmer.app_ascending lowercase.app_ascending unicode.tok_ascending assms)
  moreover have "\<forall>t \<in> set ?ts. cut_from text t" by (rule unicode.tok_cut [OF assms])
  ultimately show ?thesis
    unfolding a by (fastforce simp: cut_from_def)
qed

definition ascii_env :: text_env where
  "ascii_env =
     \<lparr>unicode_word_indices = (\<lambda>s. if s = ''A, b'' then [(0, ''A,''), (3, ''b'')] else []),
      is_alphanumeric = (\<lambda>c. c \<noteq> '',''), to_lowercase = (\<lambda>w. if w = ''A'' then ''a'' else w),
      stem = (\<lambda>l w. w)\<rparr>"

theorem standard_analyzer_tokens_witness:
  "numbered (analyze ascii_env (analyzer_build (Standard English)) ''A, b'')"
proof -
  have "words_ok ascii_env ''A, b''" by (simp add: words_ok_def ascii_env_def slice_def)
  then show ?thesis using standard_analyzer_tokens by blast
qed

end
