(* ===== verification/Column.thy ===== *)
theory Column
  imports CoreTypes
begin

text \<open>
  \<open>crates/index/src/column.rs\<close>: dictionary-encoded keyword columns, numeric columns, their
  incremental writers, and the filters and count aggregation over them.  A \<open>RoaringBitmap\<close> is
  the set of document numbers it stands for, iterated in ascending order; the \<open>bincode\<close> form of
  a column store on disk is an argument of theory \<open>Segment\<close>.
\<close>

section \<open>Columns and writers\<close>

type_synonym bitmap = "u32 set"

record keyword_column =
  kc_dict :: "string list"
  kc_ordinals :: "u32 list"

record numeric_column =
  nc_values :: "f64 list"
  nc_present :: "bool list"

record keyword_writer =
  kw_value_to_ordinal :: "string \<rightharpoonup> u32"
  kw_dict :: "string list"
  kw_ordinals :: "u32 list"

definition missing_ord :: u32 where
  "missing_ord = - 1"

definition kw_new :: keyword_writer where
  "kw_new = \<lparr>kw_value_to_ordinal = Map.empty, kw_dict = [], kw_ordinals = []\<rparr>"

definition kw_add :: "string \<Rightarrow> keyword_writer \<Rightarrow> keyword_writer" where
  "kw_add value w =
     (case kw_value_to_ordinal w value of
        Some ord \<Rightarrow> w\<lparr>kw_ordinals := kw_ordinals w @ [ord]\<rparr>
      | None \<Rightarrow>
          let ord = word_of_nat (length (kw_dict w))
          in w\<lparr>kw_dict := kw_dict w @ [value],
               kw_value_to_ordinal := (kw_value_to_ordinal w)(value \<mapsto> ord),
               kw_ordinals := kw_ordinals w @ [ord]\<rparr>)"

definition kw_add_missing :: "keyword_writer \<Rightarrow> keyword_writer" where
  "kw_add_missing w = w\<lparr>kw_ordinals := kw_ordinals w @ [missing_ord]\<rparr>"

definition kw_build :: "keyword_writer \<Rightarrow> keyword_column" where
  "kw_build w = \<lparr>kc_dict = kw_dict w, kc_ordinals = kw_ordinals w\<rparr>"

record numeric_writer =
  nw_values :: "f64 list"
  nw_present :: "bool list"

definition nw_new :: numeric_writer where
  "nw_new = \<lparr>nw_values = [], nw_present = []\<rparr>"

definition nw_add :: "f64 \<Rightarrow> numeric_writer \<Rightarrow> numeric_writer" where
  "nw_add value w = w\<lparr>nw_values := nw_values w @ [value], nw_present := nw_present w @ [True]\<rparr>"

definition nw_add_missing :: "numeric_writer \<Rightarrow> numeric_writer" where
  "nw_add_missing w =
     w\<lparr>nw_values := nw_values w @ [F64 0], nw_present := nw_present w @ [False]\<rparr>"

definition nw_build :: "numeric_writer \<Rightarrow> numeric_column" where
  "nw_build w = \<lparr>nc_values = nw_values w, nc_present = nw_present w\<rparr>"

record column_store =
  keyword_columns :: "string \<rightharpoonup> keyword_column"
  numeric_columns :: "string \<rightharpoonup> numeric_column"

definition empty_column_store :: column_store where
  "empty_column_store = \<lparr>keyword_columns = Map.empty, numeric_columns = Map.empty\<rparr>"

section \<open>Filters and aggregation\<close>

text \<open>The loop that inserts the positions of a vector that satisfy a test.\<close>

definition insert_where :: "('a \<Rightarrow> bool) \<Rightarrow> 'a list \<Rightarrow> bitmap" where
  "insert_where p xs = set (map (\<lambda>(i, x). word_of_nat i) (filter (\<lambda>(i, x). p x) (List.enumerate 0 xs)))"

definition cs_filter_eq :: "column_store \<Rightarrow> string \<Rightarrow> string \<Rightarrow> bitmap" where
  "cs_filter_eq cs field value =
     (case keyword_columns cs field of None \<Rightarrow> {}
      | Some col \<Rightarrow>
          (case position (\<lambda>v. v = value) (kc_dict col) of None \<Rightarrow> {}
           | Some p \<Rightarrow>
               let target_ord = word_of_nat p
               in insert_where (\<lambda>ord. ord = target_ord) (kc_ordinals col)))"

definition cs_filter_in :: "column_store \<Rightarrow> string \<Rightarrow> string list \<Rightarrow> bitmap" where
  "cs_filter_in cs field vals =
     (case keyword_columns cs field of None \<Rightarrow> {}
      | Some col \<Rightarrow>
          let target_ords = List.map_filter
                (\<lambda>v. map_option word_of_nat (position (\<lambda>d. d = v) (kc_dict col))) vals
          in insert_where (\<lambda>ord. ord \<in> set target_ords) (kc_ordinals col))"

definition passes_range :: "f64 option \<Rightarrow> f64 option \<Rightarrow> f64 \<Rightarrow> bool" where
  "passes_range gte lte value =
     ((case gte of None \<Rightarrow> True | Some mn \<Rightarrow> f64_le mn value) \<and>
      (case lte of None \<Rightarrow> True | Some mx \<Rightarrow> f64_le value mx))"

definition cs_filter_range ::
  "column_store \<Rightarrow> string \<Rightarrow> f64 option \<Rightarrow> f64 option \<Rightarrow> bitmap" where
  "cs_filter_range cs field gte lte =
     (case numeric_columns cs field of None \<Rightarrow> {}
      | Some col \<Rightarrow>
          insert_where (\<lambda>(value, present). present \<and> passes_range gte lte value)
            (zip (nc_values col) (nc_present col)))"

definition count_step :: "u32 list \<Rightarrow> u64 list \<Rightarrow> u32 \<Rightarrow> u64 list" where
  "count_step ordinals counts doc_id =
     (let idx = unat doc_id
      in if idx < length ordinals
         then let ord = unat (ordinals ! idx)
              in if ord < length counts then counts[ord := counts ! ord + 1] else counts
         else counts)"

definition cs_aggregate_counts :: "column_store \<Rightarrow> string \<Rightarrow> bitmap \<Rightarrow> (string \<times> u64) list" where
  "cs_aggregate_counts cs field matching_docs =
     (case keyword_columns cs field of None \<Rightarrow> []
      | Some col \<Rightarrow>
          let counts = foldl (count_step (kc_ordinals col)) (replicate (length (kc_dict col)) 0)
                (sorted_list_of_set matching_docs)
          in map (\<lambda>(i, v). (v, counts ! i))
               (filter (\<lambda>(i, v). 0 < counts ! i) (List.enumerate 0 (kc_dict col))))"

section \<open>The writer's contract\<close>

text \<open>
  The abstract column: one optional value per document.  \<open>kw_run\<close> feeds it to the writer, and
  \<open>kw_inv\<close> says what the writer has built.
\<close>

fun kw_put :: "keyword_writer \<Rightarrow> string option \<Rightarrow> keyword_writer" where
  "kw_put w (Some v) = kw_add v w"
| "kw_put w None = kw_add_missing w"

definition kw_run :: "string option list \<Rightarrow> keyword_writer" where
  "kw_run vals = foldl kw_put kw_new vals"

definition ord_of :: "string list \<Rightarrow> string option \<Rightarrow> u32 \<Rightarrow> bool" where
  "ord_of dict v ord \<longleftrightarrow>
     (case v of None \<Rightarrow> ord = missing_ord
      | Some s \<Rightarrow> \<exists>p < length dict. dict ! p = s \<and> ord = word_of_nat p)"

definition kw_inv :: "string option list \<Rightarrow> keyword_writer \<Rightarrow> bool" where
  "kw_inv vals w \<longleftrightarrow>
     distinct (kw_dict w) \<and> set (kw_dict w) = {s. Some s \<in> set vals} \<and>
     length (kw_dict w) \<le> length vals \<and>
     (\<forall>s ord. kw_value_to_ordinal w s = Some ord \<longleftrightarrow>
        (\<exists>p < length (kw_dict w). kw_dict w ! p = s \<and> ord = word_of_nat p)) \<and>
     list_all2 (ord_of (kw_dict w)) vals (kw_ordinals w)"

lemma ord_of_mono: "ord_of dict v ord \<Longrightarrow> ord_of (dict @ ds) v ord"
  by (fastforce simp: ord_of_def nth_append split: option.splits)

lemma kw_inv_add:
  assumes "kw_inv vals w"
  shows "kw_inv (vals @ [Some v]) (kw_add v w)"
proof (cases "kw_value_to_ordinal w v")
  case (Some ord)
  then obtain p where "p < length (kw_dict w)" "kw_dict w ! p = v" "ord = word_of_nat p"
    using assms by (auto simp: kw_inv_def)
  then have "ord_of (kw_dict w) (Some v) ord" "v \<in> set (kw_dict w)"
    by (auto simp: ord_of_def)
  moreover have "kw_add v w = w\<lparr>kw_ordinals := kw_ordinals w @ [ord]\<rparr>"
    using Some by (simp add: kw_add_def)
  ultimately show ?thesis
    using assms unfolding kw_inv_def by (auto intro: list_all2_appendI)
next
  case None
  let ?d = "kw_dict w @ [v]" and ?n = "word_of_nat (length (kw_dict w)) :: u32"
  have fresh: "v \<notin> set (kw_dict w)"
  proof
    assume "v \<in> set (kw_dict w)"
    then have "\<exists>p < length (kw_dict w). kw_dict w ! p = v \<and> word_of_nat p = (word_of_nat p :: u32)"
      by (auto simp: in_set_conv_nth)
    then have "\<exists>ord. kw_value_to_ordinal w v = Some ord"
      using assms unfolding kw_inv_def by blast
    then show False using None by simp
  qed
  have "list_all2 (ord_of ?d) vals (kw_ordinals w)"
    using assms by (auto simp: kw_inv_def intro: list_all2_mono ord_of_mono)
  moreover have "ord_of ?d (Some v) ?n"
    by (auto simp: ord_of_def intro!: exI [of _ "length (kw_dict w)"])
  moreover have "((kw_value_to_ordinal w)(v \<mapsto> ?n)) s = Some ord \<longleftrightarrow>
      (\<exists>p < length ?d. ?d ! p = s \<and> ord = word_of_nat p)" for s ord
  proof (cases "s = v")
    case True
    have "?d ! p = v \<longleftrightarrow> p = length (kw_dict w)" if "p < length ?d" for p
      using that fresh by (auto simp: nth_append less_Suc_eq)
    then show ?thesis using True by auto
  next
    case False
    then have "(\<exists>p < length ?d. ?d ! p = s \<and> ord = word_of_nat p) \<longleftrightarrow>
        (\<exists>p < length (kw_dict w). kw_dict w ! p = s \<and> ord = word_of_nat p)"
      by (auto simp: nth_append less_Suc_eq)
    then show ?thesis using False assms by (simp add: kw_inv_def)
  qed
  moreover have "kw_add v w = w\<lparr>kw_dict := ?d,
      kw_value_to_ordinal := (kw_value_to_ordinal w)(v \<mapsto> ?n), kw_ordinals := kw_ordinals w @ [?n]\<rparr>"
    using None by (simp add: kw_add_def Let_def)
  moreover have "distinct ?d" "set ?d = {s. Some s \<in> set (vals @ [Some v])}"
    "length ?d \<le> length (vals @ [Some v])"
    using assms fresh by (auto simp: kw_inv_def)
  ultimately show ?thesis
    unfolding kw_inv_def by (auto intro: list_all2_appendI simp del: distinct_append)
qed

lemma kw_inv_run: "kw_inv vals (kw_run vals)"
proof (induction vals rule: rev_induct)
  case Nil
  then show ?case by (simp add: kw_run_def kw_new_def kw_inv_def)
next
  case (snoc v vals)
  show ?case
  proof (cases v)
    case None
    have "ord_of (kw_dict (kw_run vals)) None missing_ord" by (simp add: ord_of_def)
    then show ?thesis
      using snoc None unfolding kw_inv_def kw_run_def
      by (auto simp: kw_add_missing_def intro: list_all2_appendI)
  next
    case (Some s)
    then show ?thesis using kw_inv_add [OF snoc] by (simp add: kw_run_def)
  qed
qed

lemma position_dict:
  assumes "kw_inv vals w"
  shows "position (\<lambda>d. d = s) (kw_dict w) = Some p \<longleftrightarrow> p < length (kw_dict w) \<and> kw_dict w ! p = s"
  using assms position_SomeD [of "\<lambda>d. d = s" "kw_dict w" p] position_distinct [of "kw_dict w" p]
  by (auto simp: kw_inv_def)

text \<open>With fewer than \<open>2 ^ 32 - 1\<close> documents, ordinals identify values.\<close>

lemma ordinal_iff:
  assumes inv: "kw_inv vals w" and small: "length vals < 2 ^ 32 - 1" and i: "i < length vals"
    and p: "p < length (kw_dict w)"
  shows "kw_ordinals w ! i = word_of_nat p \<longleftrightarrow> vals ! i = Some (kw_dict w ! p)"
proof -
  have o: "ord_of (kw_dict w) (vals ! i) (kw_ordinals w ! i)"
    using inv i by (simp add: kw_inv_def list_all2_conv_all_nth)
  have le: "length (kw_dict w) \<le> length vals" and d: "distinct (kw_dict w)"
    using inv by (auto simp: kw_inv_def)
  have u: "unat (word_of_nat q :: u32) = q" if "q < length (kw_dict w)" for q
    using that le small by (simp add: unat_of_nat)
  have "word_of_nat p \<noteq> missing_ord"
    using u [OF p] unat_minus_one_max [where 'a = 32] p le small
    by (auto simp: missing_ord_def)
  then show ?thesis
  proof (cases "vals ! i")
    case None
    then show ?thesis using o \<open>word_of_nat p \<noteq> missing_ord\<close> by (simp add: ord_of_def)
  next
    case (Some s)
    then obtain q where q: "q < length (kw_dict w)" "kw_dict w ! q = s" "kw_ordinals w ! i = word_of_nat q"
      using o by (auto simp: ord_of_def)
    have "word_of_nat q = (word_of_nat p :: u32) \<longleftrightarrow> q = p"
      using u [OF p] u [OF q(1)] by metis
    then show ?thesis using q Some p d by (auto simp: nth_eq_iff_index_eq)
  qed
qed

section \<open>Exactness\<close>

lemma insert_where_alt: "insert_where p xs = word_of_nat ` {i. i < length xs \<and> p (xs ! i)}"
  by (force simp: insert_where_def in_set_enumerate_eq)

lemma kw_run_length [simp]: "length (kw_ordinals (kw_run vals)) = length vals"
  using kw_inv_run [of vals] list_all2_lengthD unfolding kw_inv_def by fastforce

lemma insert_where_cong:
  "length xs = length ys \<Longrightarrow> (\<And>i. i < length xs \<Longrightarrow> p (xs ! i) \<longleftrightarrow> q (ys ! i)) \<Longrightarrow>
     insert_where p xs = insert_where q ys"
  unfolding insert_where_alt by (rule arg_cong [of _ _ "image word_of_nat"]) auto

text \<open>The column store holds, under \<open>field\<close>, the column built from \<open>vals\<close>.\<close>

definition keyword_field :: "column_store \<Rightarrow> string \<Rightarrow> string option list \<Rightarrow> bool" where
  "keyword_field cs field vals \<longleftrightarrow> keyword_columns cs field = Some (kw_build (kw_run vals))"

lemma dict_mem: "s \<in> set (kw_dict (kw_run vals)) \<longleftrightarrow> Some s \<in> set vals"
  using kw_inv_run [of vals] by (auto simp: kw_inv_def)

lemma in_map_filter: "y \<in> set (List.map_filter f xs) \<longleftrightarrow> (\<exists>x \<in> set xs. f x = Some y)"
  by (induction xs) (auto simp: map_filter_def)

lemma cs_filter_in_exact:
  assumes "keyword_field cs field vals" "length vals < 2 ^ 32 - 1"
  shows "cs_filter_in cs field wanted = insert_where (\<lambda>v. \<exists>s \<in> set wanted. v = Some s) vals"
proof -
  let ?w = "kw_run vals"
  let ?ords = "List.map_filter (\<lambda>v. map_option word_of_nat (position (\<lambda>d. d = v) (kw_dict ?w))) wanted :: u32 list"
  have "kw_ordinals ?w ! i \<in> set ?ords \<longleftrightarrow> (\<exists>s \<in> set wanted. vals ! i = Some s)"
    if i: "i < length vals" for i
  proof -
    have "kw_ordinals ?w ! i \<in> set ?ords \<longleftrightarrow>
        (\<exists>s \<in> set wanted. \<exists>p < length (kw_dict ?w). kw_dict ?w ! p = s \<and> kw_ordinals ?w ! i = word_of_nat p)"
      unfolding in_map_filter map_option_eq_Some position_dict [OF kw_inv_run [of vals]]
      by (metis (no_types, lifting))
    also have "\<dots> \<longleftrightarrow> (\<exists>s \<in> set wanted. vals ! i = Some s)"
      using ordinal_iff [OF kw_inv_run assms(2) i] dict_mem [of _ vals] i
      by (metis in_set_conv_nth nth_mem)
    finally show ?thesis .
  qed
  then show ?thesis
    using assms(1) unfolding keyword_field_def cs_filter_in_def
    by (auto simp: kw_build_def Let_def intro!: insert_where_cong)
qed

lemma cs_filter_eq_in:
  assumes "keyword_field cs field vals"
  shows "cs_filter_eq cs field value = cs_filter_in cs field [value]"
  using assms
  by (auto simp: cs_filter_eq_def cs_filter_in_def keyword_field_def kw_build_def Let_def map_filter_def
      insert_where_def split: option.splits)

text \<open>Counting.\<close>

lemma count_step_length [simp]: "length (count_step ords counts d) = length counts"
  by (simp add: count_step_def Let_def)

lemma count_foldl_length [simp]: "length (foldl (count_step ords) counts ds) = length counts"
  by (induction ds arbitrary: counts) simp_all

lemma count_foldl:
  assumes "o' < length counts"
  shows "foldl (count_step ords) counts ds ! o' =
    counts ! o' + word_of_nat (length (filter (\<lambda>d. unat d < length ords \<and> unat (ords ! unat d) = o') ds))"
  using assms
  by (induction ds arbitrary: counts)
    (auto simp: count_step_def Let_def nth_list_update)

definition count_of :: "string option list \<Rightarrow> bitmap \<Rightarrow> string \<Rightarrow> nat" where
  "count_of vals docs s = card {d \<in> docs. unat d < length vals \<and> vals ! unat d = Some s}"

lemma aggregate_nth:
  assumes small: "length vals < 2 ^ 32 - 1" and p: "p < length (kw_dict (kw_run vals))"
  shows "foldl (count_step (kw_ordinals (kw_run vals))) (replicate (length (kw_dict (kw_run vals))) 0)
      (sorted_list_of_set docs) ! p = word_of_nat (count_of vals docs (kw_dict (kw_run vals) ! p))"
proof -
  let ?w = "kw_run vals"
  have pu: "unat (word_of_nat p :: u32) = p"
    using p kw_inv_run [of vals] small by (simp add: kw_inv_def unat_of_nat)
  have eq: "unat (kw_ordinals ?w ! i) = p \<longleftrightarrow> vals ! i = Some (kw_dict ?w ! p)" if "i < length vals" for i
  proof -
    have "unat (kw_ordinals ?w ! i) = p \<longleftrightarrow> kw_ordinals ?w ! i = word_of_nat p"
      using pu by (auto simp: word_unat_eq_iff)
    then show ?thesis using ordinal_iff [OF kw_inv_run small that p] by simp
  qed
  have "filter (\<lambda>d. unat d < length (kw_ordinals ?w) \<and> unat (kw_ordinals ?w ! unat d) = p) (sorted_list_of_set docs) =
      filter (\<lambda>d. unat d < length vals \<and> vals ! unat d = Some (kw_dict ?w ! p)) (sorted_list_of_set docs)"
    using eq by (intro filter_cong) auto
  moreover have "length (filter P (sorted_list_of_set docs)) = card {d \<in> docs. P d}" for P
  proof -
    have "length (filter P (sorted_list_of_set docs)) = card (set (filter P (sorted_list_of_set docs)))"
      by (rule distinct_card [symmetric]) simp
    also have "set (filter P (sorted_list_of_set docs)) = {d \<in> docs. P d}" by auto
    finally show ?thesis .
  qed
  ultimately show ?thesis
    using p by (simp add: count_foldl count_of_def)
qed

lemma count_of_less: "count_of vals docs s < 2 ^ 64"
proof -
  have "count_of vals docs s \<le> card (UNIV :: u32 set)"
    unfolding count_of_def by (intro card_mono) auto
  then show ?thesis by (simp add: card_word)
qed

text \<open>The dictionary of the column: the distinct values, in order of first appearance.\<close>

lemma enumerate_map: "List.enumerate 0 xs = map (\<lambda>i. (i, xs ! i)) [0..<length xs]"
  by (rule nth_equalityI) (simp_all add: nth_enumerate_eq)

lemma cs_aggregate_counts_alt:
  assumes "keyword_field cs field vals" "length vals < 2 ^ 32 - 1"
  shows "cs_aggregate_counts cs field docs =
    map (\<lambda>s. (s, word_of_nat (count_of vals docs s)))
      (filter (\<lambda>s. 0 < count_of vals docs s) (kw_dict (kw_run vals)))"
proof -
  let ?dict = "kw_dict (kw_run vals)"
  let ?counts = "foldl (count_step (kw_ordinals (kw_run vals))) (replicate (length ?dict) 0)
      (sorted_list_of_set docs)"
  let ?n = "\<lambda>s. word_of_nat (count_of vals docs s) :: u64"
  have pos: "0 < ?n s \<longleftrightarrow> 0 < count_of vals docs s" for s
    using count_of_less [of vals docs s] by (simp add: word_gt_0 word_unat_eq_iff unat_of_nat)
  have "cs_aggregate_counts cs field docs =
      map (\<lambda>i. (?dict ! i, ?counts ! i)) (filter (\<lambda>i. 0 < ?counts ! i) [0..<length ?dict])"
    using assms(1) unfolding cs_aggregate_counts_def keyword_field_def
    by (simp add: kw_build_def enumerate_map filter_map comp_def Let_def)
  also have "\<dots> = map (\<lambda>i. (?dict ! i, ?n (?dict ! i)))
      (filter (\<lambda>i. 0 < ?n (?dict ! i)) [0..<length ?dict])"
    by (intro map_cong filter_cong refl) (simp_all add: aggregate_nth [OF assms(2)])
  also have "\<dots> = map (\<lambda>s. (s, ?n s)) (filter (\<lambda>s. 0 < ?n s) (map ((!) ?dict) [0..<length ?dict]))"
    by (simp add: filter_map comp_def)
  finally show ?thesis by (simp add: map_nth pos)
qed

text \<open>Numeric columns.\<close>

fun nw_put :: "numeric_writer \<Rightarrow> f64 option \<Rightarrow> numeric_writer" where
  "nw_put w (Some v) = nw_add v w"
| "nw_put w None = nw_add_missing w"

definition nw_run :: "f64 option list \<Rightarrow> numeric_writer" where
  "nw_run vals = foldl nw_put nw_new vals"

lemma nw_run_columns:
  "nw_values (nw_run vals) = map (\<lambda>v. case v of None \<Rightarrow> F64 0 | Some x \<Rightarrow> x) vals \<and>
   nw_present (nw_run vals) = map (\<lambda>v. v \<noteq> None) vals"
proof (induction vals rule: rev_induct)
  case Nil
  then show ?case by (simp add: nw_run_def nw_new_def)
next
  case (snoc v vals)
  then show ?case by (cases v) (simp_all add: nw_run_def nw_add_def nw_add_missing_def)
qed

definition numeric_field :: "column_store \<Rightarrow> string \<Rightarrow> f64 option list \<Rightarrow> bool" where
  "numeric_field cs field vals \<longleftrightarrow> numeric_columns cs field = Some (nw_build (nw_run vals))"

lemma cs_filter_range_exact:
  assumes "numeric_field cs field vals"
  shows "cs_filter_range cs field gte lte =
    word_of_nat ` {i. i < length vals \<and> (\<exists>x. vals ! i = Some x \<and> passes_range gte lte x)}"
proof -
  have "cs_filter_range cs field gte lte =
      insert_where (\<lambda>(value, present). present \<and> passes_range gte lte value)
        (zip (map (\<lambda>v. case v of None \<Rightarrow> F64 0 | Some x \<Rightarrow> x) vals) (map (\<lambda>v. v \<noteq> None) vals))"
    using assms nw_run_columns [of vals] by (simp add: cs_filter_range_def numeric_field_def nw_build_def)
  also have "\<dots> = insert_where (\<lambda>v. \<exists>x. v = Some x \<and> passes_range gte lte x) vals"
    by (rule insert_where_cong) (auto split: option.splits)
  finally show ?thesis by (simp add: insert_where_alt)
qed

section \<open>Properties\<close>

text \<open>
  The keyword filters are exact: on a column built from one optional value per document, the
  IN filter returns exactly the documents whose value is one of those asked for, documents without
  a value never match, and the equality filter is the case of one value.
\<close>
theorem keyword_filters_exact:
  assumes "keyword_field cs field vals" "length vals < 2 ^ 32 - 1"
  shows "cs_filter_in cs field wanted =
      word_of_nat ` {i. i < length vals \<and> (\<exists>s \<in> set wanted. vals ! i = Some s)} \<and>
    cs_filter_eq cs field value = word_of_nat ` {i. i < length vals \<and> vals ! i = Some value}"
  using cs_filter_in_exact [OF assms] cs_filter_eq_in [OF assms(1)] by (simp add: insert_where_alt)

definition example_column :: column_store where
  "example_column =
     \<lparr>keyword_columns = [''brand'' \<mapsto> kw_build (kw_run [Some ''a'', None, Some ''b'', Some ''a''])],
      numeric_columns = [''stock'' \<mapsto> nw_build (nw_run [Some (F64 0x4000000000000000), None])]\<rparr>"

theorem keyword_filters_exact_witness:
  "cs_filter_in example_column ''brand'' [''a'', ''z''] =
     word_of_nat ` {i. i < length [Some ''a'', None, Some ''b'', Some ''a''] \<and>
       (\<exists>s \<in> set [''a'', ''z'']. [Some ''a'', None, Some ''b'', Some ''a''] ! i = Some s)}"
  by (rule keyword_filters_exact [THEN conjunct1]) (simp_all add: keyword_field_def example_column_def)

text \<open>
  The range filter is exact: it returns the documents that have a value within both bounds;
  documents without a value, and NaN values when a bound is given, never match.
\<close>
theorem range_filter_exact:
  assumes "numeric_field cs field vals"
  shows "cs_filter_range cs field gte lte =
    word_of_nat ` {i. i < length vals \<and> (\<exists>x. vals ! i = Some x \<and> passes_range gte lte x)}"
  by (rule cs_filter_range_exact [OF assms])

theorem range_filter_exact_witness:
  "cs_filter_range example_column ''stock'' (Some (F64 0x3ff0000000000000)) None =
     word_of_nat ` {i. i < length [Some (F64 0x4000000000000000), None] \<and>
       (\<exists>x. [Some (F64 0x4000000000000000), None] ! i = Some x \<and>
          passes_range (Some (F64 0x3ff0000000000000)) None x)}"
  by (rule range_filter_exact) (simp add: numeric_field_def example_column_def)

text \<open>
  The count aggregation is exact: one bucket for each value that occurs among the matching
  documents, with the number of matching documents that have it, and no value twice.
\<close>
theorem aggregate_counts_exact:
  assumes "keyword_field cs field vals" "length vals < 2 ^ 32 - 1"
  shows "distinct (map fst (cs_aggregate_counts cs field docs)) \<and>
    fst ` set (cs_aggregate_counts cs field docs) = {s. 0 < count_of vals docs s} \<and>
    (\<forall>(s, n) \<in> set (cs_aggregate_counts cs field docs). unat n = count_of vals docs s)"
proof -
  have d: "distinct (kw_dict (kw_run vals))" and s: "set (kw_dict (kw_run vals)) = {s. Some s \<in> set vals}"
    using kw_inv_run [of vals] by (auto simp: kw_inv_def)
  have "Some s \<in> set vals" if "0 < count_of vals docs s" for s
    using that by (auto simp: count_of_def card_gt_0_iff in_set_conv_nth)
  moreover have "unat (word_of_nat (count_of vals docs s) :: u64) = count_of vals docs s" for s
    using count_of_less [of vals docs s] by (simp add: unat_of_nat)
  ultimately show ?thesis
    using d s by (auto simp: cs_aggregate_counts_alt [OF assms] comp_def image_image)
qed

theorem aggregate_counts_exact_witness:
  "distinct (map fst (cs_aggregate_counts example_column ''brand'' {0, 1, 3, 9}))"
  using aggregate_counts_exact [of example_column "''brand''" "[Some ''a'', None, Some ''b'', Some ''a'']"]
  by (simp add: keyword_field_def example_column_def)

end
