(* ===== verification/Codec.thy ===== *)
theory Codec
  imports Prelude
begin

text \<open>
  Byte codecs with a cursor.  The decoders of the index (posting lists, document store,
  columns, log records) read at an offset into a byte slice and advance it; the encoders append
  to a buffer.  The locale below states what such a pair promises of each other, with an extra
  state threaded from one element to the next (the previous document id of a delta encoding),
  and carries the promise from one element to the loops over many.
\<close>

section \<open>Reading many elements\<close>

text \<open>The loop \<open>for _ in 0..n { .. push(..) }\<close> over a decoder that may panic (\<open>None\<close>).\<close>

fun read_n :: "(u8 list \<Rightarrow> nat \<Rightarrow> 's \<Rightarrow> ('a \<times> nat) option) \<Rightarrow> ('s \<Rightarrow> 'a \<Rightarrow> 's) \<Rightarrow>
    nat \<Rightarrow> u8 list \<Rightarrow> nat \<Rightarrow> 's \<Rightarrow> ('a list \<times> nat) option" where
  "read_n dec nxt 0 data off s = Some ([], off)"
| "read_n dec nxt (Suc n) data off s =
     (case dec data off s of None \<Rightarrow> None
      | Some (x, off') \<Rightarrow>
          (case read_n dec nxt n data off' (nxt s x) of None \<Rightarrow> None
           | Some (xs, off'') \<Rightarrow> Some (x # xs, off'')))"

text \<open>The loop \<open>for x in xs { .. extend(..) }\<close> of an encoder.\<close>

fun write_all :: "('s \<Rightarrow> 'a \<Rightarrow> u8 list) \<Rightarrow> ('s \<Rightarrow> 'a \<Rightarrow> 's) \<Rightarrow> 's \<Rightarrow> 'a list \<Rightarrow> u8 list" where
  "write_all enc nxt s [] = []"
| "write_all enc nxt s (x # xs) = enc s x @ write_all enc nxt (nxt s x) xs"

fun all_ok :: "('s \<Rightarrow> 'a \<Rightarrow> bool) \<Rightarrow> ('s \<Rightarrow> 'a \<Rightarrow> 's) \<Rightarrow> 's \<Rightarrow> 'a list \<Rightarrow> bool" where
  "all_ok ok nxt s [] \<longleftrightarrow> True"
| "all_ok ok nxt s (x # xs) \<longleftrightarrow> ok s x \<and> all_ok ok nxt (nxt s x) xs"

section \<open>The interface\<close>

locale cursor_codec =
  fixes enc :: "'s \<Rightarrow> 'a \<Rightarrow> u8 list"
    and dec :: "u8 list \<Rightarrow> nat \<Rightarrow> 's \<Rightarrow> ('a \<times> nat) option"
    and nxt :: "'s \<Rightarrow> 'a \<Rightarrow> 's"
    and ok :: "'s \<Rightarrow> 'a \<Rightarrow> bool"
  assumes dec_enc:
    "ok s x \<Longrightarrow> dec (pre @ enc s x @ post) (length pre) s = Some (x, length pre + length (enc s x))"
begin

lemma dec_at:
  assumes "data = pre @ enc s x @ post" "off = length pre" "ok s x"
  shows "dec data off s = Some (x, off + length (enc s x))"
  using assms dec_enc by simp

lemma read_write:
  assumes "all_ok ok nxt s xs"
  shows "read_n dec nxt (length xs) (pre @ write_all enc nxt s xs @ post) (length pre) s =
    Some (xs, length pre + length (write_all enc nxt s xs))"
  using assms
proof (induction xs arbitrary: s pre)
  case Nil
  then show ?case by simp
next
  case (Cons x xs)
  have "read_n dec nxt (length xs) ((pre @ enc s x) @ write_all enc nxt (nxt s x) xs @ post)
      (length (pre @ enc s x)) (nxt s x) =
    Some (xs, length (pre @ enc s x) + length (write_all enc nxt (nxt s x) xs))"
    using Cons.prems by (intro Cons.IH) simp
  moreover have "dec (pre @ enc s x @ (write_all enc nxt (nxt s x) xs @ post)) (length pre) s =
      Some (x, length pre + length (enc s x))"
    using Cons.prems by (intro dec_enc) simp
  ultimately show ?case by simp
qed

text \<open>Distinct well-formed sequences of the same length have distinct encodings.\<close>

lemma write_all_inj:
  assumes "all_ok ok nxt s xs" "all_ok ok nxt s ys" "length xs = length ys"
    and "write_all enc nxt s xs = write_all enc nxt s ys"
  shows "xs = ys"
  using read_write [OF assms(1), of "[]" "[]"] read_write [OF assms(2), of "[]" "[]"] assms(3,4)
  by simp

end

text \<open>The stateless case.\<close>

abbreviation no_state :: "unit \<Rightarrow> 'a \<Rightarrow> unit" where
  "no_state \<equiv> (\<lambda>s x. s)"

lemma all_ok_no_state [simp]: "all_ok (\<lambda>s x. P x) no_state s xs \<longleftrightarrow> (\<forall>x\<in>set xs. P x)"
  by (induction xs) auto

lemma write_all_no_state: "write_all (\<lambda>s x. f x) no_state s xs = concat (map f xs)"
  by (induction xs) auto

section \<open>Fixed-width integers\<close>

text \<open>\<open>uN::from_le_bytes(data[off..off + w].try_into().unwrap())\<close>.\<close>

definition read_le :: "nat \<Rightarrow> u8 list \<Rightarrow> nat \<Rightarrow> unit \<Rightarrow> (nat \<times> nat) option" where
  "read_le w data off s =
     (case slice data off (off + w) of None \<Rightarrow> None | Some bs \<Rightarrow> Some (of_le_bytes bs, off + w))"

interpretation le32: cursor_codec "\<lambda>s x. u32_le x"
  "\<lambda>data off s. map_option (apfst word_of_nat) (read_le 4 data off s)" no_state "\<lambda>s x. True"
proof
  fix x :: u32 and pre post
  show "map_option (apfst word_of_nat) (read_le 4 (pre @ u32_le x @ post) (length pre) s) =
      Some (x, length pre + length (u32_le x))" for s
    using u32_from_le_u32_le [of x]
    by (simp add: read_le_def slice_def u32_from_le_def)
qed

interpretation le64: cursor_codec "\<lambda>s x. u64_le x"
  "\<lambda>data off s. map_option (apfst word_of_nat) (read_le 8 data off s)" no_state "\<lambda>s x. True"
proof
  fix x :: u64 and pre post
  show "map_option (apfst word_of_nat) (read_le 8 (pre @ u64_le x @ post) (length pre) s) =
      Some (x, length pre + length (u64_le x))" for s
    using u64_from_le_u64_le [of x]
    by (simp add: read_le_def slice_def u64_from_le_def)
qed

end
