(* ===== verification/Disk.thy ===== *)
theory Disk
  imports CoreTypes Codec
begin

text \<open>
  What the index and the shard use of the file system and of serialisation libraries.

  A directory is a map from file names to contents.  \<open>std::fs::read\<close> fails on a missing file;
  writes succeed (a full or failing disk is not modelled).  A serialisation library (\<open>bincode\<close>,
  \<open>serde_json\<close>, the portable format of \<open>roaring\<close>) is a pair of functions, an argument of the
  definitions that call it; \<open>codec_ok\<close> is the round trip it documents.
\<close>

type_synonym bytes = "u8 list"

type_synonym dir = "string \<rightharpoonup> bytes"

type_synonym 'a io_result = "io_error + 'a"

definition fs_read :: "dir \<Rightarrow> string \<Rightarrow> bytes io_result" where
  "fs_read d name =
     (case d name of None \<Rightarrow> Inl (IoError FileNotFound name) | Some data \<Rightarrow> Inr data)"

definition fs_exists :: "dir \<Rightarrow> string \<Rightarrow> bool" where
  "fs_exists d name \<longleftrightarrow> d name \<noteq> None"

definition fs_write :: "dir \<Rightarrow> string \<Rightarrow> bytes \<Rightarrow> dir" where
  "fs_write d name data = d(name \<mapsto> data)"

lemma fs_read_write [simp]:
  "fs_read (fs_write d name data) name' = (if name' = name then Inr data else fs_read d name')"
  by (simp add: fs_read_def fs_write_def)

lemma fs_exists_write [simp]: "fs_exists (fs_write d name data) name' \<longleftrightarrow> name' = name \<or> fs_exists d name'"
  by (simp add: fs_exists_def fs_write_def)

lemma fs_write_same [simp]: "fs_write d name data name' = (if name' = name then Some data else d name')"
  by (simp add: fs_write_def)

record 'a codec =
  ser :: "'a \<Rightarrow> string + bytes"
  de :: "bytes \<Rightarrow> string + 'a"

definition codec_ok :: "'a codec \<Rightarrow> 'a \<Rightarrow> bool" where
  "codec_ok c x \<longleftrightarrow> (\<exists>data. ser c x = Inr data \<and> de c data = Inr x)"

definition encoding :: "'a codec \<Rightarrow> 'a \<Rightarrow> bytes" where
  "encoding c x = (case ser c x of Inl e \<Rightarrow> [] | Inr data \<Rightarrow> data)"

lemma codec_okD:
  "codec_ok c x \<Longrightarrow> ser c x = Inr (encoding c x)"
  "codec_ok c x \<Longrightarrow> de c (encoding c x) = Inr x"
  by (auto simp: codec_ok_def encoding_def)

definition map_io_err :: "io_kind \<Rightarrow> string + 'a \<Rightarrow> 'a io_result" where
  "map_io_err k r = (case r of Inl msg \<Rightarrow> Inl (IoError k msg) | Inr x \<Rightarrow> Inr x)"

lemma map_io_err_Inr [simp]: "map_io_err k (Inr x) = Inr x" "map_io_err k r = Inr x \<longleftrightarrow> r = Inr x"
  by (auto simp: map_io_err_def split: sum.splits)

text \<open>A slice of a table of records of one width.\<close>

lemma length_concat_fixed:
  "(\<And>x. x \<in> set xs \<Longrightarrow> length (f x) = w) \<Longrightarrow> length (concat (map f xs)) = length xs * w"
  by (induction xs) auto

lemma slice_drop: "slice (pre @ data) (length pre + a) (length pre + b) = slice data a b"
  by (simp add: slice_def)

lemma slice_append_left: "b \<le> length data \<Longrightarrow> slice (data @ post) a b = slice data a b"
  by (auto simp: slice_def)

lemma slice_concat:
  assumes "i < length xs"
  shows "slice (concat (map f xs)) (length (concat (map f (take i xs))))
    (length (concat (map f (take i xs))) + length (f (xs ! i))) = Some (f (xs ! i))"
proof -
  have "xs = take i xs @ xs ! i # drop (Suc i) xs"
    using assms by (rule id_take_nth_drop)
  then have "concat (map f xs) = concat (map f (take i xs)) @ f (xs ! i) @ concat (map f (drop (Suc i) xs))"
    by (metis concat.simps(2) concat_append list.simps(9) map_append)
  then show ?thesis by simp
qed

lemma slice_split:
  assumes "slice xs a b = Some (u @ v)"
  shows "slice xs a (a + length u) = Some u" "slice xs (a + length u) (a + length u + length v) = Some v"
proof -
  have ab: "a \<le> b" "b \<le> length xs" and uv: "take (b - a) (drop a xs) = u @ v"
    using assms by (auto simp: slice_def split: if_splits)
  have b: "b = a + length u + length v"
    using arg_cong [OF uv, of length] ab by simp
  have d: "drop a xs = u @ v @ drop b xs"
    using uv append_take_drop_id [of "b - a" "drop a xs"] ab by simp
  have "drop (a + length u) xs = v @ drop b xs"
    using arg_cong [OF d, of "drop (length u)"] by (simp add: add.commute)
  with d show "slice xs a (a + length u) = Some u"
    "slice xs (a + length u) (a + length u + length v) = Some v"
    using ab b by (simp_all add: slice_def)
qed

end
