(* ===== verification/DocStore.thy ===== *)
theory DocStore
  imports Disk Column
begin

text \<open>
  \<open>crates/index/src/docstore.rs\<close>: the document store of a segment.  The file holds the number of
  documents, a table of offsets and the length-prefixed encodings; a separate file holds the
  bitmap of deleted documents.  Slices out of range panic: \<open>open\<close> and \<open>get\<close> are \<open>None\<close> there.
  The encodings of a document and of a bitmap are arguments (\<open>codec\<close>).
\<close>

section \<open>Writing\<close>

record docstore_writer =
  dw_docs :: "document list"

definition dw_new :: docstore_writer where
  "dw_new = \<lparr>dw_docs = []\<rparr>"

definition dw_add :: "document \<Rightarrow> docstore_writer \<Rightarrow> docstore_writer" where
  "dw_add doc w = w\<lparr>dw_docs := dw_docs w @ [doc]\<rparr>"

definition dw_doc_count :: "docstore_writer \<Rightarrow> nat" where
  "dw_doc_count w = length (dw_docs w)"

fun dw_encode_docs ::
  "document codec \<Rightarrow> document list \<Rightarrow> bytes \<Rightarrow> u64 list \<Rightarrow> (bytes \<times> u64 list) io_result" where
  "dw_encode_docs c [] doc_data offsets = Inr (doc_data, offsets)"
| "dw_encode_docs c (doc # docs) doc_data offsets =
     (let offsets = offsets @ [word_of_nat (length doc_data)]
      in res_bind (map_io_err OtherKind (ser c doc)) (\<lambda>encoded.
           dw_encode_docs c docs
             (doc_data @ u32_le (word_of_nat (length encoded)) @ encoded) offsets))"

definition dw_write :: "document codec \<Rightarrow> docstore_writer \<Rightarrow> dir \<Rightarrow> dir io_result" where
  "dw_write c w d =
     res_bind (dw_encode_docs c (dw_docs w) [] []) (\<lambda>(doc_data, offsets).
       Inr (fs_write d ''docs.bin''
         (u32_le (word_of_nat (length (dw_docs w))) @ concat (map u64_le offsets) @ doc_data)))"

section \<open>Reading\<close>

record docstore_reader =
  dr_data :: bytes
  dr_doc_count :: u32
  dr_offset_table_start :: nat
  dr_data_start :: nat
  dr_deletion_bitmap :: bitmap

definition load_deletion_bitmap :: "bitmap codec \<Rightarrow> dir \<Rightarrow> bitmap io_result" where
  "load_deletion_bitmap bc d =
     (if fs_exists d ''deletions.bin''
      then res_bind (fs_read d ''deletions.bin'') (\<lambda>data. map_io_err InvalidData (de bc data))
      else Inr {})"

definition dr_open :: "bitmap codec \<Rightarrow> dir \<Rightarrow> docstore_reader io_result option" where
  "dr_open bc d =
     (case fs_read d ''docs.bin'' of Inl e \<Rightarrow> Some (Inl e)
      | Inr data \<Rightarrow>
          (case slice data 0 4 of None \<Rightarrow> None
           | Some bs \<Rightarrow>
               let doc_count = u32_from_le bs; offset_table_start = 4;
                   data_start = offset_table_start + unat doc_count * 8
               in Some (res_bind (load_deletion_bitmap bc d) (\<lambda>deletion_bitmap.
                    Inr \<lparr>dr_data = data, dr_doc_count = doc_count,
                         dr_offset_table_start = offset_table_start, dr_data_start = data_start,
                         dr_deletion_bitmap = deletion_bitmap\<rparr>))))"

definition dr_get :: "document codec \<Rightarrow> docstore_reader \<Rightarrow> u32 \<Rightarrow> document option option" where
  "dr_get c r local_doc_id =
     (if dr_doc_count r \<le> local_doc_id \<or> local_doc_id \<in> dr_deletion_bitmap r then Some None
      else
        let offset_pos = dr_offset_table_start r + unat local_doc_id * 8
        in case slice (dr_data r) offset_pos (offset_pos + 8) of None \<Rightarrow> None
           | Some obs \<Rightarrow>
               let abs_offset = dr_data_start r + unat (u64_from_le obs)
               in case slice (dr_data r) abs_offset (abs_offset + 4) of None \<Rightarrow> None
                  | Some lbs \<Rightarrow>
                      (case slice (dr_data r) (abs_offset + 4)
                              (abs_offset + 4 + unat (u32_from_le lbs)) of None \<Rightarrow> None
                       | Some doc_data \<Rightarrow>
                           Some (case de c doc_data of Inl e \<Rightarrow> None | Inr doc \<Rightarrow> Some doc)))"

definition dr_live_doc_count :: "docstore_reader \<Rightarrow> u32" where
  "dr_live_doc_count r = dr_doc_count r - word_of_nat (card (dr_deletion_bitmap r))"

definition dr_is_deleted :: "docstore_reader \<Rightarrow> u32 \<Rightarrow> bool" where
  "dr_is_deleted r local_doc_id \<longleftrightarrow> local_doc_id \<in> dr_deletion_bitmap r"

definition deletion_save :: "bitmap codec \<Rightarrow> bitmap \<Rightarrow> dir \<Rightarrow> dir io_result" where
  "deletion_save bc bitmap d =
     res_bind (map_io_err OtherKind (ser bc bitmap)) (\<lambda>data. Inr (fs_write d ''deletions.bin'' data))"

definition deletion_mark :: "bitmap codec \<Rightarrow> dir \<Rightarrow> u32 \<Rightarrow> (bitmap \<times> dir) io_result" where
  "deletion_mark bc d local_doc_id =
     res_bind
       (if fs_exists d ''deletions.bin''
        then res_bind (fs_read d ''deletions.bin'') (\<lambda>data. map_io_err InvalidData (de bc data))
        else Inr {})
       (\<lambda>bitmap. let bitmap = insert local_doc_id bitmap
                 in res_bind (deletion_save bc bitmap d) (\<lambda>d. Inr (bitmap, d)))"

section \<open>The written file\<close>

definition doc_record :: "document codec \<Rightarrow> document \<Rightarrow> bytes" where
  "doc_record c doc = u32_le (word_of_nat (length (encoding c doc))) @ encoding c doc"

definition doc_offset :: "document codec \<Rightarrow> document list \<Rightarrow> nat \<Rightarrow> nat" where
  "doc_offset c docs i = length (concat (map (doc_record c) (take i docs)))"

lemma dw_encode_docs_ok:
  assumes "\<forall>doc \<in> set docs. codec_ok c doc"
  shows "dw_encode_docs c docs data offs =
    Inr (data @ concat (map (doc_record c) docs),
         offs @ map (\<lambda>i. word_of_nat (length data + doc_offset c docs i)) [0..<length docs])"
  using assms
proof (induction docs arbitrary: data offs)
  case Nil
  then show ?case by simp
next
  case (Cons doc docs)
  have "[0..<Suc (length docs)] = 0 # map Suc [0..<length docs]"
    by (simp add: upt_conv_Cons map_Suc_upt del: upt_Suc)
  then show ?case
    using Cons codec_okD(1) [of c doc]
    by (simp add: Let_def doc_record_def doc_offset_def comp_def add.assoc del: upt_Suc)
qed

definition docs_file :: "document codec \<Rightarrow> document list \<Rightarrow> bytes" where
  "docs_file c docs =
     u32_le (word_of_nat (length docs)) @
     concat (map u64_le (map (\<lambda>i. word_of_nat (doc_offset c docs i)) [0..<length docs])) @
     concat (map (doc_record c) docs)"

lemma dw_write_ok:
  "\<forall>doc \<in> set docs. codec_ok c doc \<Longrightarrow>
     dw_write c \<lparr>dw_docs = docs\<rparr> d = Inr (fs_write d ''docs.bin'' (docs_file c docs))"
  by (simp add: dw_write_def dw_encode_docs_ok docs_file_def)

text \<open>The bounds under which the fields of the file do not overflow.\<close>

definition docs_fit :: "document codec \<Rightarrow> document list \<Rightarrow> bool" where
  "docs_fit c docs \<longleftrightarrow>
     (\<forall>doc \<in> set docs. codec_ok c doc \<and> length (encoding c doc) < 2 ^ 32) \<and>
     length docs < 2 ^ 32 \<and> length (concat (map (doc_record c) docs)) < 2 ^ 64"

definition reader_of :: "document codec \<Rightarrow> document list \<Rightarrow> bitmap \<Rightarrow> docstore_reader" where
  "reader_of c docs deleted =
     \<lparr>dr_data = docs_file c docs, dr_doc_count = word_of_nat (length docs), dr_offset_table_start = 4,
      dr_data_start = 4 + length docs * 8, dr_deletion_bitmap = deleted\<rparr>"

lemma dr_open_written:
  assumes "docs_fit c docs" "fs_read d ''docs.bin'' = Inr (docs_file c docs)"
    and "load_deletion_bitmap bc d = Inr deleted"
  shows "dr_open bc d = Some (Inr (reader_of c docs deleted))"
proof -
  have "slice (docs_file c docs) 0 4 = Some (u32_le (word_of_nat (length docs)))"
    by (simp add: docs_file_def slice_def)
  then show ?thesis
    using assms by (simp add: dr_open_def reader_of_def docs_fit_def Let_def unat_of_nat)
qed

lemma doc_offset_le:
  "doc_offset c docs i \<le> length (concat (map (doc_record c) docs))"
proof -
  have "concat (map (doc_record c) docs) =
      concat (map (doc_record c) (take i docs)) @ concat (map (doc_record c) (drop i docs))"
    by (metis append_take_drop_id concat_append map_append)
  then show ?thesis by (simp add: doc_offset_def)
qed

lemma dr_get_written:
  assumes fit: "docs_fit c docs" and i: "i < length docs" and live: "word_of_nat i \<notin> deleted"
  shows "dr_get c (reader_of c docs deleted) (word_of_nat i) = Some (Some (docs ! i))"
proof -
  define head where "head = u32_le (word_of_nat (length docs))"
  define offs where "offs = map (\<lambda>i. word_of_nat (doc_offset c docs i) :: u64) [0..<length docs]"
  define body where "body = concat (map (doc_record c) docs)"
  let ?f = "head @ concat (map u64_le offs) @ body" and ?doc = "docs ! i"
  have f: "docs_file c docs = ?f"
    by (simp add: docs_file_def head_def offs_def body_def)
  have iu: "unat (word_of_nat i :: u32) = i" and nu: "unat (word_of_nat (length docs) :: u32) = length docs"
    using fit i by (simp_all add: docs_fit_def unat_of_nat)
  have tab: "length (concat (map u64_le offs)) = length docs * 8"
    by (simp add: offs_def length_concat_fixed [where w = 8])
  have pre: "length (concat (map u64_le (take i offs))) = i * 8"
    using i by (simp add: length_concat_fixed [where w = 8] offs_def)
  have "slice (concat (map u64_le offs)) (i * 8) (i * 8 + 8) = Some (u64_le (offs ! i))"
    using slice_concat [of i offs u64_le] i pre by (simp add: offs_def)
  then have obs: "slice ?f (4 + i * 8) (4 + i * 8 + 8) = Some (u64_le (offs ! i))"
    using slice_drop [of head "concat (map u64_le offs) @ body" "i * 8" "i * 8 + 8"]
      slice_append_left [of "i * 8 + 8" "concat (map u64_le offs)" body "i * 8"] tab i
    by (simp add: head_def add.assoc)
  define o' where "o' = doc_offset c docs i"
  have oi: "unat (offs ! i) = o'"
    using doc_offset_le [of c docs i] fit i by (simp add: offs_def o'_def docs_fit_def unat_of_nat)
  have rec: "slice body o' (o' + length (doc_record c ?doc)) = Some (doc_record c ?doc)"
    using slice_concat [OF i, of "doc_record c"] by (simp add: body_def o'_def doc_offset_def)
  have body_slice: "slice ?f (4 + length docs * 8 + a) (4 + length docs * 8 + b) = slice body a b" for a b
    using slice_drop [of "head @ concat (map u64_le offs)" body a b] tab by (simp add: head_def add.assoc)
  have lbs: "slice body o' (o' + 4) = Some (u32_le (word_of_nat (length (encoding c ?doc))))"
    and data: "slice body (o' + 4) (o' + 4 + length (encoding c ?doc)) = Some (encoding c ?doc)"
    using slice_split [OF rec [unfolded doc_record_def]] by simp_all
  have doc: "codec_ok c ?doc" "unat (word_of_nat (length (encoding c ?doc)) :: u32) = length (encoding c ?doc)"
    using fit i by (simp_all add: docs_fit_def unat_of_nat)
  have "\<not> word_of_nat (length docs) \<le> (word_of_nat i :: u32)"
    using iu nu i by (simp add: word_le_nat_alt)
  then show ?thesis
    using live obs body_slice [of o' "o' + 4"]
      body_slice [of "o' + 4" "o' + 4 + length (encoding c ?doc)"] lbs data codec_okD(2) [OF doc(1)]
    by (simp add: dr_get_def reader_of_def f iu oi doc(2) Let_def add.assoc)
qed

section \<open>Deletions\<close>

lemma deletion_mark_run:
  assumes "load_deletion_bitmap bc d = Inr deleted" "codec_ok bc (insert lid deleted)"
  shows "deletion_mark bc d lid =
      Inr (insert lid deleted, fs_write d ''deletions.bin'' (encoding bc (insert lid deleted))) \<and>
    load_deletion_bitmap bc (fs_write d ''deletions.bin'' (encoding bc (insert lid deleted))) =
      Inr (insert lid deleted)"
proof -
  have "(if fs_exists d ''deletions.bin''
      then res_bind (fs_read d ''deletions.bin'') (\<lambda>data. map_io_err InvalidData (de bc data))
      else Inr {}) = Inr deleted"
    using assms(1) by (simp add: load_deletion_bitmap_def)
  then show ?thesis
    using codec_okD [OF assms(2)] by (simp add: deletion_mark_def deletion_save_def load_deletion_bitmap_def Let_def)
qed

section \<open>Properties\<close>

lemma load_deletion_bitmap_cong:
  "d ''deletions.bin'' = d' ''deletions.bin'' \<Longrightarrow> load_deletion_bitmap bc d = load_deletion_bitmap bc d'"
  by (simp add: load_deletion_bitmap_def fs_exists_def fs_read_def)

lemma load_after_docs_write [simp]:
  "load_deletion_bitmap bc (fs_write d ''docs.bin'' data) = load_deletion_bitmap bc d"
  by (simp add: load_deletion_bitmap_def)

lemma dr_get_any:
  assumes "docs_fit c docs"
  shows "dr_get c (reader_of c docs deleted) lid =
    Some (if unat lid < length docs \<and> lid \<notin> deleted then Some (docs ! unat lid) else None)"
proof (cases "unat lid < length docs \<and> lid \<notin> deleted")
  case True
  then show ?thesis using dr_get_written [OF assms, of "unat lid" deleted] by simp
next
  case False
  have "unat (word_of_nat (length docs) :: u32) = length docs"
    using assms by (simp add: docs_fit_def unat_of_nat)
  then show ?thesis
    using False by (auto simp: dr_get_def reader_of_def word_le_nat_alt not_less)
qed

text \<open>
  C32: a store written from a batch of documents opens again, without panicking, and reading it
  returns the document written at each position below the number of documents that is not marked
  as deleted, and nothing at any other position.
\<close>
theorem docstore_roundtrip:
  assumes "docs_fit c docs" "load_deletion_bitmap bc d = Inr deleted"
  shows "\<exists>d' r. dw_write c (foldl (\<lambda>w doc. dw_add doc w) dw_new docs) d = Inr d' \<and>
    dr_open bc d' = Some (Inr r) \<and>
    (\<forall>lid. dr_get c r lid =
       Some (if unat lid < length docs \<and> lid \<notin> deleted then Some (docs ! unat lid) else None))"
proof -
  have w: "foldl (\<lambda>w doc. dw_add doc w) \<lparr>dw_docs = ds\<rparr> docs = \<lparr>dw_docs = ds @ docs\<rparr>" for ds
    by (induction docs arbitrary: ds) (simp_all add: dw_add_def)
  have "dw_write c \<lparr>dw_docs = docs\<rparr> d = Inr (fs_write d ''docs.bin'' (docs_file c docs))"
    using assms(1) by (intro dw_write_ok) (simp add: docs_fit_def)
  moreover have "dr_open bc (fs_write d ''docs.bin'' (docs_file c docs)) =
      Some (Inr (reader_of c docs deleted))"
    using assms by (intro dr_open_written) simp_all
  ultimately show ?thesis
    using dr_get_any [OF assms(1)] w [of "[]"] by (auto simp: dw_new_def)
qed

definition example_doc :: "u64 \<Rightarrow> document" where
  "example_doc i =
     \<lparr>d_id = i, d_title = ''title'', d_description = [], d_price = F64 0, d_category = ''cat'',
      d_attributes = Map.empty\<rparr>"

definition example_doc_codec :: "document codec" where
  "example_doc_codec =
     \<lparr>ser = (\<lambda>doc. Inr (u64_le (d_id doc))), de = (\<lambda>data. Inr (example_doc (u64_from_le data)))\<rparr>"

lemma example_doc_codec_ok: "codec_ok example_doc_codec (example_doc i)"
  by (simp add: codec_ok_def example_doc_codec_def) (simp add: example_doc_def)

text \<open>A byte format for bitmaps: the numbers in ascending order.\<close>

fun u32s_from_le :: "bytes \<Rightarrow> u32 list" where
  "u32s_from_le (a # b # c # d # data) = u32_from_le [a, b, c, d] # u32s_from_le data"
| "u32s_from_le data = []"

lemma u32s_round: "u32s_from_le (u32_le x @ data) = x # u32s_from_le data"
proof -
  have four: "xs = [xs ! 0, xs ! 1, xs ! 2, xs ! 3]" if "length xs = 4" for xs :: bytes
    using that by (intro nth_equalityI) (auto simp: numeral_eq_Suc less_Suc_eq)
  obtain a b c d where x: "u32_le x = [a, b, c, d]"
    using four [of "u32_le x"] by auto
  then show ?thesis using u32_from_le_u32_le [of x] by simp
qed

definition example_bitmap_codec :: "bitmap codec" where
  "example_bitmap_codec =
     \<lparr>ser = (\<lambda>b. Inr (concat (map u32_le (sorted_list_of_set b)))),
      de = (\<lambda>data. Inr (set (u32s_from_le data)))\<rparr>"

lemma example_bitmap_codec_ok: "codec_ok example_bitmap_codec b"
proof -
  have "u32s_from_le (concat (map u32_le xs)) = xs" for xs
    by (induction xs) (simp_all add: u32s_round)
  then show ?thesis by (simp add: codec_ok_def example_bitmap_codec_def)
qed

lemma example_docs_fit: "docs_fit example_doc_codec [example_doc 7, example_doc 9]"
  by (simp add: docs_fit_def example_doc_codec_ok doc_record_def)
    (simp add: encoding_def example_doc_codec_def)

theorem docstore_roundtrip_witness:
  "\<exists>d' r. dw_write example_doc_codec (foldl (\<lambda>w doc. dw_add doc w) dw_new [example_doc 7, example_doc 9])
      Map.empty = Inr d' \<and>
    dr_open example_bitmap_codec d' = Some (Inr r) \<and>
    (\<forall>lid. dr_get example_doc_codec r lid =
       Some (if unat lid < length [example_doc 7, example_doc 9] \<and> lid \<notin> {}
             then Some ([example_doc 7, example_doc 9] ! unat lid) else None))"
  by (rule docstore_roundtrip [OF example_docs_fit])
    (simp add: load_deletion_bitmap_def fs_exists_def)

end
