(* ===== verification/Posting.thy ===== *)
theory Posting
  imports CoreTypes Codec
begin

unbundle bit_operations_syntax

text \<open>
  \<open>crates/index/src/posting.rs\<close>: postings, posting lists with their block headers, the BM25
  impact of one posting, the merge of posting lists and their variable-length byte encoding.
  Reading past the end of the data panics in the code and is \<open>None\<close> here.
\<close>

section \<open>Postings\<close>

definition BLOCK_SIZE :: nat where
  "BLOCK_SIZE = 64"

definition K1 :: f32 where
  "K1 = f32_of_frac 12 10"

definition B :: f32 where
  "B = f32_of_frac 75 100"

record posting =
  p_doc_id :: u32
  p_term_freq :: u8
  p_doc_len :: u16

record posting_block =
  max_impact :: f32

record posting_list =
  postings :: "posting list"
  blocks :: "posting_block list"

definition bm25_impact :: "u8 \<Rightarrow> u16 \<Rightarrow> f32 \<Rightarrow> f32" where
  "bm25_impact tf doc_len avgdl =
     (let tf = f32_of_nat (unat tf);
          dl = f32_of_nat (unat doc_len);
          avgdl = f32_max avgdl (f32_of_nat 1);
          num = f32_mul tf (f32_add K1 (f32_of_nat 1));
          denom = f32_add tf (f32_mul K1
                    (f32_add (f32_sub (f32_of_nat 1) B) (f32_div (f32_mul B dl) avgdl)))
      in f32_div num denom)"

definition pl_new :: posting_list where
  "pl_new = \<lparr>postings = [], blocks = []\<rparr>"

definition pl_add :: "posting_list \<Rightarrow> u32 \<Rightarrow> u8 \<Rightarrow> u16 \<Rightarrow> posting_list" where
  "pl_add pl doc_id term_freq doc_len =
     pl\<lparr>postings := postings pl @
       [\<lparr>p_doc_id = doc_id, p_term_freq = term_freq, p_doc_len = doc_len\<rparr>]\<rparr>"

definition pl_len :: "posting_list \<Rightarrow> nat" where
  "pl_len pl = length (postings pl)"

definition pl_is_empty :: "posting_list \<Rightarrow> bool" where
  "pl_is_empty pl \<longleftrightarrow> postings pl = []"

definition div_ceil :: "nat \<Rightarrow> nat \<Rightarrow> nat" where
  "div_ceil n d = n div d + (if n mod d = 0 then 0 else 1)"

definition block_of :: "f32 \<Rightarrow> posting list \<Rightarrow> nat \<Rightarrow> posting_block" where
  "block_of avgdl ps b =
     (let start = b * BLOCK_SIZE;
          stop = min (start + BLOCK_SIZE) (length ps)
      in \<lparr>max_impact = foldl f32_max (f32_of_nat 0)
            (map (\<lambda>p. bm25_impact (p_term_freq p) (p_doc_len p) avgdl)
               (take (stop - start) (drop start ps)))\<rparr>)"

definition rebuild_blocks :: "f32 \<Rightarrow> posting_list \<Rightarrow> posting_list" where
  "rebuild_blocks avgdl pl =
     pl\<lparr>blocks := map (block_of avgdl (postings pl)) [0..<div_ceil (length (postings pl)) BLOCK_SIZE]\<rparr>"

text \<open>The merge: concatenate, sort by document, then fold duplicates into the last entry.\<close>

definition merge_step :: "posting list \<Rightarrow> posting \<Rightarrow> posting list" where
  "merge_step acc p =
     (if acc \<noteq> [] \<and> p_doc_id (last acc) = p_doc_id p
      then butlast acc @ [(last acc)\<lparr>p_term_freq := sat_add (p_term_freq (last acc)) (p_term_freq p)\<rparr>]
      else acc @ [p])"

definition pl_merge ::
  "(posting comparator \<Rightarrow> posting list \<Rightarrow> posting list) \<Rightarrow> posting_list list \<Rightarrow> posting_list" where
  "pl_merge usort pls =
     (let merged = usort (\<lambda>p q. cmp_of (p_doc_id p) (p_doc_id q)) (concat (map postings pls))
      in \<lparr>postings = foldl merge_step [] merged, blocks = []\<rparr>)"

section \<open>Variable-length integers\<close>

function encode_varint :: "u64 \<Rightarrow> u8 list" where
  "encode_varint value =
     (let byte = ucast (value AND 0x7F) :: u8;
          value = drop_bit 7 value
      in if value \<noteq> 0 then (byte OR 0x80) # encode_varint value else [byte])"
  by auto

lemma drop_bit_less:
  assumes "drop_bit 7 x \<noteq> (0 :: u64)"
  shows "unat (drop_bit 7 x) < unat x"
proof -
  have "unat (drop_bit 7 x) = unat x div 128"
    by (simp only: unat_drop_bit_eq) (simp add: drop_bit_eq_div)
  moreover have "0 < unat x"
    using assms by (cases "x = 0") (auto simp: unat_gt_0)
  ultimately show ?thesis by simp
qed

termination encode_varint
  by (relation "measure unat") (auto simp: drop_bit_less)

declare encode_varint.simps [simp del]

function decode_varint_loop :: "u8 list \<Rightarrow> nat \<Rightarrow> nat \<Rightarrow> u64 \<Rightarrow> (u64 \<times> nat) option" where
  "decode_varint_loop data off shift acc =
     (if off < length data then
        let byte = data ! off;
            acc = acc OR push_bit (shift mod 64) (ucast (byte AND 0x7F))
        in if byte AND 0x80 = 0 then Some (acc, off + 1)
           else decode_varint_loop data (off + 1) (shift + 7) acc
      else None)"
  by auto

termination decode_varint_loop
  by (relation "measure (\<lambda>(data, off, shift, acc). length data - off)") auto

declare decode_varint_loop.simps [simp del]

definition decode_varint :: "u8 list \<Rightarrow> nat \<Rightarrow> (u64 \<times> nat) option" where
  "decode_varint data off = decode_varint_loop data off 0 0"

section \<open>Posting list encoding\<close>

definition enc_block :: "posting_block \<Rightarrow> u8 list" where
  "enc_block b = u32_le (to_bits (max_impact b))"

definition dec_block :: "u8 list \<Rightarrow> nat \<Rightarrow> (posting_block \<times> nat) option" where
  "dec_block data off =
     (case slice data off (off + 4) of None \<Rightarrow> None
      | Some bs \<Rightarrow> Some (\<lparr>max_impact = F32 (u32_from_le bs)\<rparr>, off + 4))"

definition enc_posting :: "u32 \<Rightarrow> posting \<Rightarrow> u8 list" where
  "enc_posting prev p =
     encode_varint (ucast (p_doc_id p - prev)) @
     encode_varint (ucast (p_term_freq p)) @
     encode_varint (ucast (p_doc_len p))"

definition dec_posting :: "u8 list \<Rightarrow> nat \<Rightarrow> u32 \<Rightarrow> (posting \<times> nat) option" where
  "dec_posting data off prev =
     (case decode_varint data off of None \<Rightarrow> None | Some (delta, off) \<Rightarrow>
      (case decode_varint data off of None \<Rightarrow> None | Some (tf, off) \<Rightarrow>
      (case decode_varint data off of None \<Rightarrow> None | Some (dl, off) \<Rightarrow>
         Some (\<lparr>p_doc_id = prev + ucast delta, p_term_freq = ucast tf, p_doc_len = ucast dl\<rparr>, off))))"

definition pl_encode :: "posting_list \<Rightarrow> u8 list" where
  "pl_encode pl =
     encode_varint (word_of_nat (length (blocks pl))) @
     write_all (\<lambda>s. enc_block) no_state () (blocks pl) @
     encode_varint (word_of_nat (length (postings pl))) @
     write_all enc_posting (\<lambda>prev p. p_doc_id p) 0 (postings pl)"

definition pl_decode :: "u8 list \<Rightarrow> posting_list option" where
  "pl_decode data =
     (case decode_varint data 0 of None \<Rightarrow> None | Some (num_blocks, off) \<Rightarrow>
      (case read_n (\<lambda>data off s. dec_block data off) no_state (unat num_blocks) data off () of
         None \<Rightarrow> None | Some (bs, off) \<Rightarrow>
      (case decode_varint data off of None \<Rightarrow> None | Some (cnt, off) \<Rightarrow>
      (case read_n dec_posting (\<lambda>prev p. p_doc_id p) (unat cnt) data off 0 of
         None \<Rightarrow> None | Some (ps, off) \<Rightarrow> Some \<lparr>postings = ps, blocks = bs\<rparr>))))"

section \<open>Round trips\<close>

lemma unat_low7: "unat (ucast (x AND 0x7F) :: u8) = unat x mod 128" for x :: u64
proof -
  have "x AND 0x7F = take_bit 7 x"
    by (simp add: take_bit_eq_mask mask_numeral)
  then show ?thesis
    by (simp add: unsigned_ucast_eq unsigned_take_bit_eq take_bit_eq_mod unat_mod)
qed

lemma low7_bit7: "(ucast (x AND 0x7F) :: u8) AND 0x80 = 0" for x :: u64
  by (rule bit_word_eqI) (auto simp: bit_simps numeral_eq_Suc bit_Suc less_Suc_eq)

lemma set_bit7: "((b :: u8) OR 0x80) AND 0x80 \<noteq> 0"
  by (simp add: word_ao_absorbs)

lemma unat_and_7F: "unat (b AND 0x7F) = unat b mod 128" for b :: u8
proof -
  have "b AND 0x7F = take_bit 7 b"
    by (simp add: take_bit_eq_mask mask_numeral)
  then show ?thesis by (simp add: unsigned_take_bit_eq take_bit_eq_mod unat_mod)
qed

lemma low7_id: "ucast ((ucast (x AND 0x7F) :: u8) AND 0x7F) = x AND 0x7F" for x :: u64
proof -
  have "x AND 0x7F = take_bit 7 x"
    by (simp add: take_bit_eq_mask mask_numeral)
  then have "unat (x AND 0x7F) = unat x mod 128"
    by (simp add: unsigned_take_bit_eq take_bit_eq_mod unat_mod)
  then show ?thesis
    by (simp add: word_unat_eq_iff unsigned_ucast_eq unat_and_7F unat_low7 take_bit_eq_mod)
qed

lemma low7_or: "ucast (((ucast (x AND 0x7F) :: u8) OR 0x80) AND 0x7F) = x AND 0x7F" for x :: u64
  by (simp only: word_ao_dist) (simp add: low7_id)

lemma split_low7: "push_bit s (x AND 0x7F) OR push_bit (s + 7) (drop_bit 7 x) = push_bit s x"
  for x :: u64
proof -
  have "x AND 0x7F = take_bit 7 x"
    by (simp add: take_bit_eq_mask mask_numeral)
  then show ?thesis
    by (auto intro!: bit_word_eqI simp: bit_simps)
qed

lemma unat_drop7: "unat (drop_bit 7 (x :: u64)) = unat x div 128"
  by (simp only: unat_drop_bit_eq) (simp add: drop_bit_eq_div)

lemma drop7_eq_0: "drop_bit 7 (x :: u64) = 0 \<Longrightarrow> x AND 0x7F = x"
proof -
  assume "drop_bit 7 x = 0"
  then have "take_bit 7 x = x"
    using bits_ident [of 7 x] by simp
  then show ?thesis by (simp add: take_bit_eq_mask mask_numeral)
qed

text \<open>
  Decoding an encoding from bit position \<open>s\<close>: the accumulator gains the value shifted by \<open>s\<close>,
  provided the value has no bits that the shift would lose.
\<close>

lemma decode_varint_loop_encode:
  assumes "s < 64" "unat x < 2 ^ (64 - s)"
  shows "decode_varint_loop (pre @ encode_varint x @ post) (length pre) s acc =
    Some (acc OR push_bit s x, length pre + length (encode_varint x))"
  using assms
proof (induction x arbitrary: pre s acc rule: encode_varint.induct)
  case (1 x)
  let ?y = "drop_bit 7 x"
  let ?b = "ucast (x AND 0x7F) :: u8"
  show ?case
  proof (cases "?y = 0")
    case True
    then have enc: "encode_varint x = [?b]"
      by (subst encode_varint.simps) (simp add: Let_def)
    have "ucast (?b AND 0x7F) = x"
      using low7_id [of x] drop7_eq_0 [OF True] by simp
    then show ?thesis
      unfolding enc
      by (subst decode_varint_loop.simps) (use 1 in \<open>simp add: Let_def low7_bit7\<close>)
  next
    case False
    then have enc: "encode_varint x = (?b OR 0x80) # encode_varint ?y"
      by (subst encode_varint.simps) (simp add: Let_def)
    have y: "unat ?y = unat x div 128" by (rule unat_drop7)
    have "0 < unat ?y" using False by (simp add: unat_gt_0)
    then have "128 \<le> unat x" using y by (cases "unat x < 128") auto
    then have "(2::nat) ^ 7 < 2 ^ (64 - s)" using 1 by simp
    then have s: "s + 7 < 64" by (subst (asm) power_strict_increasing_iff) auto
    have "64 - s = 7 + (64 - (s + 7))" using s by simp
    then have "(2::nat) ^ (64 - s) = 2 ^ 7 * 2 ^ (64 - (s + 7))"
      by (metis power_add)
    then have "unat ?y < 2 ^ (64 - (s + 7))"
      using 1 y by (simp add: less_mult_imp_div_less mult.commute)
    then have IH: "decode_varint_loop ((pre @ [?b OR 0x80]) @ encode_varint ?y @ post)
        (length (pre @ [?b OR 0x80])) (s + 7) acc' =
      Some (acc' OR push_bit (s + 7) ?y, length (pre @ [?b OR 0x80]) + length (encode_varint ?y))" for acc'
      using False s by (intro 1) auto
    have "decode_varint_loop (pre @ encode_varint x @ post) (length pre) s acc =
      decode_varint_loop (pre @ encode_varint x @ post) (Suc (length pre)) (s + 7)
        (acc OR push_bit s (x AND 0x7F))"
      unfolding enc
      by (subst decode_varint_loop.simps) (use 1 in \<open>simp add: Let_def set_bit7 low7_or\<close>)
    also have "\<dots> = Some ((acc OR push_bit s (x AND 0x7F)) OR push_bit (s + 7) ?y,
        length pre + length (encode_varint x))"
      using IH [of "acc OR push_bit s (x AND 0x7F)"] by (simp add: enc)
    finally show ?thesis by (simp only: or.assoc split_low7)
  qed
qed

interpretation varint: cursor_codec "\<lambda>s. encode_varint" "\<lambda>data off s. decode_varint data off"
  no_state "\<lambda>s x. True"
proof
  fix x :: u64 and pre post
  have "unat x < 2 ^ 64" using unsigned_less [of x] by simp
  then show "decode_varint (pre @ encode_varint x @ post) (length pre) =
      Some (x, length pre + length (encode_varint x))"
    by (simp add: decode_varint_def decode_varint_loop_encode)
qed

interpretation block: cursor_codec "\<lambda>s. enc_block" "\<lambda>data off s. dec_block data off"
  no_state "\<lambda>s x. True"
  by unfold_locales (simp add: enc_block_def dec_block_def slice_def)

lemma ucast_up_down [simp]:
  "ucast (ucast (a :: u32) :: u64) = a" "ucast (ucast (b :: u16) :: u64) = b"
  "ucast (ucast (c :: u8) :: u64) = c"
  by (auto intro!: bit_word_eqI simp: bit_simps)

interpretation posting: cursor_codec enc_posting dec_posting "\<lambda>prev p. p_doc_id p" "\<lambda>s p. True"
proof
  fix prev :: u32 and p :: posting and pre post
  let ?a = "encode_varint (ucast (p_doc_id p - prev))"
  let ?b = "encode_varint (ucast (p_term_freq p))"
  let ?c = "encode_varint (ucast (p_doc_len p))"
  have "decode_varint (pre @ ?a @ ?b @ ?c @ post) (length pre) =
      Some (ucast (p_doc_id p - prev), length pre + length ?a)"
    by (rule varint.dec_at) auto
  moreover have "decode_varint (pre @ ?a @ ?b @ ?c @ post) (length pre + length ?a) =
      Some (ucast (p_term_freq p), length pre + length ?a + length ?b)"
    by (rule varint.dec_at [where pre = "pre @ ?a" and post = "?c @ post"]) auto
  moreover have "decode_varint (pre @ ?a @ ?b @ ?c @ post) (length pre + length ?a + length ?b) =
      Some (ucast (p_doc_len p), length pre + length ?a + length ?b + length ?c)"
    by (rule varint.dec_at [where pre = "pre @ ?a @ ?b" and post = post]) auto
  ultimately show "dec_posting (pre @ enc_posting prev p @ post) (length pre) prev =
      Some (p, length pre + length (enc_posting prev p))"
    by (simp add: enc_posting_def dec_posting_def)
qed

lemma all_ok_True [simp]: "all_ok (\<lambda>s x. True) nxt s xs"
  by (induction xs arbitrary: s) auto

text \<open>
  The encoding is decoded to the list it came from, whatever the order of its document ids (the
  deltas wrap), for every list a 64-bit length can describe.
\<close>

lemma pl_decode_encode_at:
  assumes "length (blocks pl) < 2 ^ 64" "length (postings pl) < 2 ^ 64"
  shows "pl_decode (pl_encode pl @ post) = Some pl"
proof -
  let ?nb = "encode_varint (word_of_nat (length (blocks pl)))"
  let ?bs = "write_all (\<lambda>s. enc_block) no_state () (blocks pl)"
  let ?np = "encode_varint (word_of_nat (length (postings pl)))"
  let ?ps = "write_all enc_posting (\<lambda>prev p. p_doc_id p) 0 (postings pl)"
  let ?d = "?nb @ ?bs @ ?np @ ?ps @ post"
  have "decode_varint ?d 0 = Some (word_of_nat (length (blocks pl)), length ?nb)"
    using varint.dec_at [where data = ?d and pre = "[]"] by auto
  moreover have "read_n (\<lambda>data off s. dec_block data off) no_state (length (blocks pl)) ?d (length ?nb) () =
      Some (blocks pl, length ?nb + length ?bs)"
    by (rule block.read_write) simp
  moreover have "decode_varint ?d (length ?nb + length ?bs) =
      Some (word_of_nat (length (postings pl)), length ?nb + length ?bs + length ?np)"
    by (rule varint.dec_at [where pre = "?nb @ ?bs" and post = "?ps @ post"]) auto
  moreover have "read_n dec_posting (\<lambda>prev p. p_doc_id p) (length (postings pl)) ?d
      (length ?nb + length ?bs + length ?np) 0 =
      Some (postings pl, length ?nb + length ?bs + length ?np + length ?ps)"
    using posting.read_write [of 0 "postings pl" "?nb @ ?bs @ ?np" post] by (simp add: add.assoc)
  ultimately show ?thesis
    using assms by (simp add: pl_decode_def pl_encode_def unat_of_nat)
qed

section \<open>BM25 impact\<close>

text \<open>The constants of the formula, as the bits of single precision floats.\<close>

lemma bm25_consts:
  "K1 = F32 0x3f99999a" "f32_add (F32 0x3f99999a) (F32 0x3f800000) = F32 0x400ccccd"
  "B = F32 0x3f400000" "f32_sub (F32 0x3f800000) (F32 0x3f400000) = F32 0x3e800000"
  by (simp_all add: K1_def B_def f32_eval cong: let_weak_cong if_weak_cong)

text \<open>The length normalisation \<open>1 - b + b * dl / avgdl\<close> and the denominator of the impact.\<close>

definition len_norm :: "u16 \<Rightarrow> f32 \<Rightarrow> f32" where
  "len_norm doc_len avgdl =
     f32_add (f32_sub (f32_of_nat 1) B)
       (f32_div (f32_mul B (f32_of_nat (unat doc_len))) (f32_max avgdl (f32_of_nat 1)))"

definition impact_denom :: "u8 \<Rightarrow> u16 \<Rightarrow> f32 \<Rightarrow> f32" where
  "impact_denom tf doc_len avgdl =
     f32_add (f32_of_nat (unat tf)) (f32_mul K1 (len_norm doc_len avgdl))"

lemma bm25_impact_alt:
  "bm25_impact tf doc_len avgdl =
     f32_div (f32_mul (f32_of_nat (unat tf)) (f32_add K1 (f32_of_nat 1))) (impact_denom tf doc_len avgdl)"
  by (simp add: bm25_impact_def impact_denom_def len_norm_def Let_def)

text \<open>An average document length of at least one, as \<open>avgdl.max(1.0)\<close> makes it.\<close>

lemma max_one_cases:
  fixes a :: f32
  defines "m \<equiv> f32_max a (f32_of_nat 1)"
  shows "f32_nonneg m \<and> 0x3f800000 \<le> f32_mag m"
proof -
  have one: "raw32 (F32 0x3f800000) = (False, 0x3f800000)" by (simp add: raw32_def)
  show ?thesis
    unfolding m_def f32_consts
    using one snd_raw32 [of a]
    by (cases "raw32 a")
      (auto simp: f32_max_def f32_is_nan_def raw_nan_def f32_lt_key f32_key_def raw_key_def
        f32_nonneg_def f32_mag_def split: if_splits)
qed

lemma f32_of_u8: "f32_fin (f32_of_nat (unat (tf :: u8)))"
  using f32_of_nat_fin [of "unat tf"] unat_less(1) [of tf] by simp

lemma f32_of_u16: "f32_fin (f32_of_nat (unat (dl :: u16)))"
  using f32_of_nat_fin [of "unat dl"] unat_less(2) [of dl] by simp

lemma scaled_len_bounds:
  "f32_fin (f32_mul B (f32_of_nat (unat (dl :: u16)))) \<and>
   f32_mag (f32_mul B (f32_of_nat (unat dl))) \<le> 0x473fff40"
proof -
  let ?n = "f32_of_nat (unat dl)"
  have lits: "f32_of_nat 65535 = F32 0x477fff00" "f32_mul (F32 0x3f400000) (F32 0x477fff00) = F32 0x473fff40"
    by (simp_all add: f32_eval cong: let_weak_cong if_weak_cong)
  note fl = f32_lit [of "0x3f400000", simplified] f32_lit [of "0x477fff00", simplified]
    f32_lit [of "0x473fff40", simplified]
  have n: "f32_mag ?n \<le> 0x477fff00"
    using f32_of_nat_mono [of "unat dl" 65535] unat_less(2) [of dl] fl by (simp add: lits)
  show ?thesis
    unfolding bm25_consts
    using f32_mul_upto [of "F32 0x3f400000" ?n "F32 0x3f400000" "F32 0x477fff00"] n fl f32_of_u16 [of dl]
    by (simp add: lits)
qed

lemma len_quot_bounds:
  "f32_fin (f32_div (f32_mul B (f32_of_nat (unat (dl :: u16)))) (f32_max av (f32_of_nat 1))) \<and>
   f32_mag (f32_div (f32_mul B (f32_of_nat (unat dl))) (f32_max av (f32_of_nat 1))) \<le> 0x473fff40"
proof -
  let ?b = "f32_mul B (f32_of_nat (unat dl))" and ?m = "f32_max av (f32_of_nat 1)"
  have lits: "f32_div (F32 0x473fff40) (F32 0x3f800000) = F32 0x473fff40"
    by (simp_all add: f32_eval cong: let_weak_cong if_weak_cong)
  note fl = f32_lit [of "0x473fff40", simplified] f32_lit [of "0x3f800000", simplified]
  show ?thesis
  proof (cases "f32_fin ?m")
    case True
    then show ?thesis
      using f32_div_upto [of ?b ?m "F32 0x473fff40" "F32 0x3f800000"]
        scaled_len_bounds [of dl] max_one_cases [of av] fl by (simp add: lits)
  next
    case False
    then have "raw32 (f32_div ?b ?m) = (False, 0)"
      using f32_div_inf scaled_len_bounds [of dl] max_one_cases [of av] by blast
    then show ?thesis by (simp add: f32_fin_def f32_mag_def)
  qed
qed

lemma len_norm_bounds:
  "f32_fin (len_norm dl av) \<and> 0x3e800000 \<le> f32_mag (len_norm dl av) \<and>
   f32_mag (len_norm dl av) \<le> 0x473fff80"
proof -
  let ?q = "f32_div (f32_mul B (f32_of_nat (unat dl))) (f32_max av (f32_of_nat 1))"
  have lits: "f32_add (F32 0x3e800000) (F32 0x473fff40) = F32 0x473fff80"
    by (simp_all add: f32_eval cong: let_weak_cong if_weak_cong)
  note fl = f32_lit [of "0x3e800000", simplified] f32_lit [of "0x473fff40", simplified]
    f32_lit [of "0x473fff80", simplified]
  have alt: "len_norm dl av = f32_add (F32 0x3e800000) ?q"
    unfolding len_norm_def bm25_consts(3) f32_consts bm25_consts(4) by (rule refl)
  show ?thesis
    unfolding alt
    using f32_add_upto [of "F32 0x3e800000" ?q "F32 0x3e800000" "F32 0x473fff40"]
      f32_le_add [of "F32 0x3e800000" ?q] len_quot_bounds [of dl av] fl
    by (simp add: lits)
qed

lemma scaled_norm_bounds:
  "f32_fin (f32_mul K1 (len_norm dl av)) \<and> f32_mag (f32_mul K1 (len_norm dl av)) \<le> 0x476665cd"
proof -
  have lits: "f32_mul (F32 0x3f99999a) (F32 0x473fff80) = F32 0x476665cd"
    by (simp_all add: f32_eval cong: let_weak_cong if_weak_cong)
  note fl = f32_lit [of "0x3f99999a", simplified] f32_lit [of "0x473fff80", simplified]
    f32_lit [of "0x476665cd", simplified]
  show ?thesis
    unfolding bm25_consts
    using f32_mul_upto [of "F32 0x3f99999a" "len_norm dl av" "F32 0x3f99999a" "F32 0x473fff80"]
      len_norm_bounds [of dl av] fl by (simp add: lits)
qed

lemmas scaled_norm_fin = scaled_norm_bounds [THEN conjunct1]

lemma impact_denom_bounds:
  "f32_fin (impact_denom tf dl av) \<and> 0x3e99999a \<le> f32_mag (impact_denom tf dl av)"
proof -
  let ?t = "f32_of_nat (unat tf)" and ?k = "f32_mul K1 (len_norm dl av)"
  have lits: "f32_of_nat 255 = F32 0x437f0000"
    "f32_mul (F32 0x3f99999a) (F32 0x3e800000) = F32 0x3e99999a"
    "f32_add (F32 0x437f0000) (F32 0x476665cd) = F32 0x476764cd"
    by (simp_all add: f32_eval cong: let_weak_cong if_weak_cong)
  note fl = f32_lit [of "0x3f99999a", simplified] f32_lit [of "0x3e800000", simplified]
    f32_lit [of "0x473fff80", simplified] f32_lit [of "0x476665cd", simplified]
    f32_lit [of "0x437f0000", simplified] f32_lit [of "0x476764cd", simplified] f32_lit [of "0x3e99999a", simplified]
  have t: "f32_mag ?t \<le> 0x437f0000"
    using f32_of_nat_mono [of "unat tf" 255] unat_less(1) [of tf] fl by (simp add: lits)
  note k = scaled_norm_bounds [of dl av]
  have k_lo: "0x3e99999a \<le> f32_mag ?k"
    unfolding bm25_consts
    using f32_mul_mono [of "F32 0x3f99999a" "F32 0x3e800000" "F32 0x3f99999a" "len_norm dl av"]
      len_norm_bounds [of dl av] fl by (simp add: lits)
  show ?thesis
    unfolding impact_denom_def
    using f32_add_upto [of ?t ?k "F32 0x437f0000" "F32 0x476665cd"] f32_le_add2 [of ?t ?k]
      f32_of_u8 [of tf] t k k_lo fl by (simp add: lits)
qed

lemma impact_num_bounds:
  "f32_fin (f32_mul (f32_of_nat (unat (tf :: u8))) (f32_add K1 (f32_of_nat 1))) \<and>
   f32_mag (f32_mul (f32_of_nat (unat tf)) (f32_add K1 (f32_of_nat 1))) \<le> 0x440c4000"
proof -
  have lits: "f32_of_nat 255 = F32 0x437f0000" "f32_mul (F32 0x437f0000) (F32 0x400ccccd) = F32 0x440c4000"
    by (simp_all add: f32_eval cong: let_weak_cong if_weak_cong)
  note fl = f32_lit [of "0x437f0000", simplified] f32_lit [of "0x400ccccd", simplified]
    f32_lit [of "0x440c4000", simplified]
  have t: "f32_mag (f32_of_nat (unat tf)) \<le> 0x437f0000"
    using f32_of_nat_mono [of "unat tf" 255] unat_less(1) [of tf] fl by (simp add: lits)
  show ?thesis
    unfolding bm25_consts(1) f32_consts bm25_consts(2)
    using f32_mul_upto [of "f32_of_nat (unat tf)" "F32 0x400ccccd" "F32 0x437f0000" "F32 0x400ccccd"]
      t f32_of_u8 [of tf] fl by (simp add: lits)
qed

lemma bm25_impact_fin: "f32_fin (bm25_impact tf dl av) \<and> f32_mag (bm25_impact tf dl av) \<le> 0x44e9bfff"
proof -
  have lits: "f32_div (F32 0x440c4000) (F32 0x3e99999a) = F32 0x44e9bfff"
    by (simp add: f32_eval cong: let_weak_cong if_weak_cong)
  note fl = f32_lit [of "0x440c4000", simplified] f32_lit [of "0x3e99999a", simplified]
    f32_lit [of "0x44e9bfff", simplified]
  show ?thesis
    unfolding bm25_impact_alt
    using f32_div_upto [of "f32_mul (f32_of_nat (unat tf)) (f32_add K1 (f32_of_nat 1))"
        "impact_denom tf dl av" "F32 0x440c4000" "F32 0x3e99999a"]
      impact_num_bounds [of tf] impact_denom_bounds [of tf dl av] fl by (simp add: lits)
qed

text \<open>A longer document never has the larger impact, nor does a smaller average length.\<close>

lemma len_norm_mono: "dl \<le> dl' \<Longrightarrow> f32_mag (len_norm dl av) \<le> f32_mag (len_norm dl' av)"
proof -
  assume dl: "dl \<le> dl'"
  let ?n = "\<lambda>dl :: u16. f32_of_nat (unat dl)" and ?m = "f32_max av (f32_of_nat 1)"
  note fl = f32_lit [of "0x3e800000", simplified] f32_lit [of "0x3f400000", simplified]
  have n: "f32_mag (?n dl) \<le> f32_mag (?n dl')"
    using dl unat_less(2) [of dl'] by (intro f32_of_nat_mono) (simp_all add: word_le_nat_alt)
  have bn: "f32_mag (f32_mul B (?n dl)) \<le> f32_mag (f32_mul B (?n dl'))"
    unfolding bm25_consts using fl n by (intro f32_mul_mono) (simp_all add: f32_of_u16)
  have fb: "f32_fin (f32_mul B (?n dl))" for dl by (rule scaled_len_bounds [THEN conjunct1])
  have q: "f32_mag (f32_div (f32_mul B (?n dl)) ?m) \<le> f32_mag (f32_div (f32_mul B (?n dl')) ?m)"
  proof (cases "f32_fin ?m")
    case True
    then show ?thesis using bn fb max_one_cases [of av] by (intro f32_div_mono) simp_all
  next
    case False
    then show ?thesis
      using f32_div_inf [OF fb [of dl], of ?m] max_one_cases [of av] by (simp add: f32_mag_def)
  qed
  show ?thesis
    unfolding len_norm_def bm25_consts(3) f32_consts bm25_consts(4)
    using q fl len_quot_bounds unfolding bm25_consts(3) f32_consts by (intro f32_add_mono) simp_all
qed

lemma bm25_impact_antimono:
  assumes "dl \<le> dl'"
  shows "f32_mag (bm25_impact tf dl' av) \<le> f32_mag (bm25_impact tf dl av)"
proof -
  note fl = f32_lit [of "0x3f99999a", simplified]
  have k: "f32_mag (f32_mul K1 (len_norm dl av)) \<le> f32_mag (f32_mul K1 (len_norm dl' av))"
    unfolding bm25_consts
    using fl len_norm_bounds len_norm_mono [OF assms] by (intro f32_mul_mono) simp_all
  have kf: "f32_fin (f32_mul K1 (len_norm dl av))" for dl by (rule scaled_norm_fin)
  have "f32_mag (impact_denom tf dl av) \<le> f32_mag (impact_denom tf dl' av)"
    unfolding impact_denom_def using k kf f32_of_u8 by (intro f32_add_mono) simp_all
  then show ?thesis
    unfolding bm25_impact_alt
    using impact_num_bounds [of tf] impact_denom_bounds [of tf dl av]
      impact_denom_bounds [of tf dl' av]
    by (intro f32_div_mono) simp_all
qed

section \<open>Block maxima\<close>

text \<open>A fold of \<open>f32::max\<close> over non-negative scores bounds each of them and is attained.\<close>

lemma f32_max_nonneg:
  assumes "f32_nonneg a" "f32_nonneg b"
  shows "f32_nonneg (f32_max a b)" "f32_mag (f32_max a b) = max (f32_mag a) (f32_mag b)"
    "f32_max a b = a \<or> f32_max a b = b"
  using assms by (auto simp: f32_max_def f32_lt_key f32_nonneg_key)

lemma foldl_max_nonneg:
  assumes "f32_nonneg a" "\<forall>x\<in>set xs. f32_nonneg x"
  shows "f32_nonneg (foldl f32_max a xs) \<and> f32_mag a \<le> f32_mag (foldl f32_max a xs) \<and>
    (\<forall>x\<in>set xs. f32_mag x \<le> f32_mag (foldl f32_max a xs)) \<and>
    foldl f32_max a xs \<in> insert a (set xs)"
  using assms
proof (induction xs arbitrary: a)
  case Nil
  then show ?case by simp
next
  case (Cons x xs)
  then have x: "f32_nonneg x" and m: "f32_nonneg (f32_max a x)"
    by (simp_all add: f32_max_nonneg)
  have "f32_max a x = a \<or> f32_max a x = x" by (rule f32_max_nonneg) (use Cons x in auto)
  then show ?case
    using Cons.IH [OF m] Cons.prems f32_max_nonneg(2) [OF Cons.prems(1) x] by auto
qed

lemma f32_le_nonneg: "f32_nonneg a \<Longrightarrow> f32_nonneg b \<Longrightarrow> f32_le a b \<longleftrightarrow> f32_mag a \<le> f32_mag b"
  by (simp add: f32_le_key f32_nonneg_key)

lemma bm25_impact_nonneg [f32_nn]: "f32_nonneg (bm25_impact tf dl av)"
  using bm25_impact_fin f32_fin_nonneg by blast

lemma zero_nonneg [f32_nn]: "f32_nonneg (f32_of_nat 0)"
  by (simp add: f32_consts f32_nonneg_def raw32_def)

text \<open>The postings of block \<open>b\<close>.\<close>

definition block_postings :: "posting list \<Rightarrow> nat \<Rightarrow> posting list" where
  "block_postings ps b = take BLOCK_SIZE (drop (b * BLOCK_SIZE) ps)"

lemma block_of_alt:
  "max_impact (block_of av ps b) =
     foldl f32_max (f32_of_nat 0)
       (map (\<lambda>p. bm25_impact (p_term_freq p) (p_doc_len p) av) (block_postings ps b))"
proof -
  have "take (min (b * 64 + 64) (length ps) - b * 64) (drop (b * 64) ps) = take 64 (drop (b * 64) ps)"
    by (cases "b * 64 + 64 \<le> length ps") (auto simp: min_def)
  then show ?thesis by (simp add: block_of_def block_postings_def BLOCK_SIZE_def Let_def)
qed

lemma block_of_max:
  "f32_nonneg (max_impact (block_of av ps b)) \<and>
   (\<forall>p\<in>set (block_postings ps b).
      f32_le (bm25_impact (p_term_freq p) (p_doc_len p) av) (max_impact (block_of av ps b))) \<and>
   max_impact (block_of av ps b) \<in> insert (f32_of_nat 0)
      ((\<lambda>p. bm25_impact (p_term_freq p) (p_doc_len p) av) ` set (block_postings ps b))"
  using foldl_max_nonneg [OF zero_nonneg,
      of "map (\<lambda>p. bm25_impact (p_term_freq p) (p_doc_len p) av) (block_postings ps b)"]
  by (simp add: block_of_alt bm25_impact_nonneg f32_le_nonneg)

lemma nth_block_postings:
  assumes "i < length ps"
  shows "ps ! i \<in> set (block_postings ps (i div BLOCK_SIZE))"
proof -
  have "i div 64 * 64 + i mod 64 = i" by simp
  moreover have "i mod 64 < length ps - i div 64 * 64" using assms calculation by linarith
  ultimately have "block_postings ps (i div BLOCK_SIZE) ! (i mod 64) = ps ! i"
    "i mod 64 < length (block_postings ps (i div BLOCK_SIZE))"
    using assms by (simp_all add: block_postings_def BLOCK_SIZE_def)
  then show ?thesis by (metis nth_mem)
qed

lemma div_ceil_bounds: "0 < d \<Longrightarrow> n \<le> div_ceil n d * d \<and> div_ceil n d * d < n + d"
proof -
  assume d: "0 < d"
  have e: "n div d * d + n mod d = n" by simp
  have m: "n mod d < d" using d by simp
  show ?thesis
    unfolding div_ceil_def add_mult_distrib using e m
    by (cases "n mod d = 0"; simp only: if_True if_False simp_thms; intro conjI; linarith)
qed

lemma index_div_ceil: "0 < d \<Longrightarrow> i < n \<Longrightarrow> i div d < div_ceil n d"
  using div_ceil_bounds [of d n] by (auto intro!: less_mult_imp_div_less)

section \<open>Merging\<close>

definition ids_ascending :: "posting list \<Rightarrow> bool" where
  "ids_ascending ps \<longleftrightarrow> sorted_wrt (\<lambda>p q. p_doc_id p < p_doc_id q) ps"

text \<open>The sum of the term frequencies of a document, capped at 255.\<close>

definition tf_total :: "posting list \<Rightarrow> u32 \<Rightarrow> nat" where
  "tf_total ps d = sum_list (map (\<lambda>p. unat (p_term_freq p)) (filter (\<lambda>p. p_doc_id p = d) ps))"

text \<open>What the fold has established after the prefix \<open>ps\<close> of the sorted postings.\<close>

definition merge_inv :: "posting list \<Rightarrow> posting list \<Rightarrow> bool" where
  "merge_inv ps acc \<longleftrightarrow> ids_ascending acc \<and>
     p_doc_id ` set acc = p_doc_id ` set ps \<and>
     (\<forall>q\<in>set acc. unat (p_term_freq q) = min 255 (tf_total ps (p_doc_id q)) \<and>
        (\<exists>p\<in>set ps. p_doc_id p = p_doc_id q \<and> p_doc_len p = p_doc_len q))"

lemma tf_total_snoc:
  "tf_total (ps @ [p]) d = tf_total ps d + (if p_doc_id p = d then unat (p_term_freq p) else 0)"
  by (simp add: tf_total_def)

lemma tf_total_notin: "d \<notin> p_doc_id ` set ps \<Longrightarrow> tf_total ps d = 0"
  by (auto simp: tf_total_def filter_empty_conv)

lemma merge_inv_step:
  assumes inv: "merge_inv ps acc" and last: "\<forall>q\<in>set ps. p_doc_id q \<le> p_doc_id p"
  shows "merge_inv (ps @ [p]) (merge_step acc p)"
proof (cases "acc \<noteq> [] \<and> p_doc_id (last acc) = p_doc_id p")
  case True
  then obtain init l where acc: "acc = init @ [l]" and l: "p_doc_id l = p_doc_id p"
    by (metis append_butlast_last_id)
  have asc: "\<forall>q\<in>set init. p_doc_id q < p_doc_id p" and "ids_ascending init"
    using inv by (auto simp: merge_inv_def ids_ascending_def acc sorted_wrt_append l)
  then have "ids_ascending (init @ [l\<lparr>p_term_freq := x\<rparr>])" for x
    by (simp add: ids_ascending_def sorted_wrt_append l)
  moreover have "p_doc_id ` set (ps @ [p]) = p_doc_id ` set ps"
    using inv l by (auto simp: merge_inv_def acc)
  moreover have "unat (sat_add (p_term_freq l) (p_term_freq p)) = min 255 (tf_total (ps @ [p]) (p_doc_id p))"
    using inv unat_less(1) [of "p_term_freq p"] unfolding merge_inv_def unat_sat_add tf_total_snoc
    by (simp add: acc l min_def)
  moreover have "tf_total (ps @ [p]) (p_doc_id q) = tf_total ps (p_doc_id q)" if "q \<in> set init" for q
    using asc that by (auto simp: tf_total_snoc)
  ultimately show ?thesis
    using inv l unfolding merge_inv_def merge_step_def acc by (auto 0 3)
next
  case False
  have fresh: "p_doc_id p \<notin> p_doc_id ` set ps"
  proof
    assume "p_doc_id p \<in> p_doc_id ` set ps"
    then obtain q where q: "q \<in> set acc" "p_doc_id q = p_doc_id p"
      using inv by (auto simp: merge_inv_def image_iff) (metis (no_types, lifting) image_iff)
    then have "acc \<noteq> []" by auto
    then have "p_doc_id q \<le> p_doc_id (last acc)"
      using q(1) inv by (cases acc rule: rev_cases)
        (auto simp: merge_inv_def ids_ascending_def sorted_wrt_append less_imp_le)
    moreover have "p_doc_id (last acc) \<in> p_doc_id ` set ps"
      using inv \<open>acc \<noteq> []\<close> by (metis merge_inv_def image_eqI last_in_set)
    then have "p_doc_id (last acc) \<le> p_doc_id p" using last by auto
    ultimately show False using False q(2) \<open>acc \<noteq> []\<close> by simp
  qed
  have "p_doc_id q < p_doc_id p" if "q \<in> set acc" for q
  proof -
    have "p_doc_id q \<in> p_doc_id ` set ps" using inv that by (auto simp: merge_inv_def)
    then show ?thesis using last fresh by (metis image_iff order_le_imp_less_or_eq)
  qed
  moreover from this have "tf_total (ps @ [p]) (p_doc_id q) = tf_total ps (p_doc_id q)"
    if "q \<in> set acc" for q using that by (force simp: tf_total_snoc)
  moreover have "tf_total (ps @ [p]) (p_doc_id p) = unat (p_term_freq p)"
    using tf_total_notin [OF fresh] by (simp add: tf_total_snoc)
  moreover have "unat (p_term_freq p) = min 255 (unat (p_term_freq p))"
    using unat_less(1) [of "p_term_freq p"] by simp
  ultimately show ?thesis
    using inv False
    unfolding merge_inv_def merge_step_def ids_ascending_def by (auto simp: sorted_wrt_append)
qed

lemma merge_inv_foldl:
  assumes "sorted_wrt (\<lambda>p q. p_doc_id p \<le> p_doc_id q) ps"
  shows "merge_inv ps (foldl merge_step [] ps)"
  using assms
proof (induction ps rule: rev_induct)
  case Nil
  then show ?case by (simp add: merge_inv_def ids_ascending_def)
next
  case (snoc p ps)
  then show ?case by (simp add: merge_inv_step sorted_wrt_append)
qed

lemma merge_inv_cong: "mset ps = mset qs \<Longrightarrow> merge_inv ps acc \<longleftrightarrow> merge_inv qs acc"
proof -
  assume m: "mset ps = mset qs"
  have "tf_total ps d = tf_total qs d" for d
    unfolding tf_total_def by (simp flip: sum_mset_sum_list add: m)
  moreover have "set ps = set qs" using m by (rule mset_eq_setD)
  ultimately show ?thesis by (simp add: merge_inv_def)
qed

lemma pl_merge_inv:
  assumes "sort_contract usort"
  shows "merge_inv (concat (map postings pls)) (postings (pl_merge usort pls))"
proof -
  let ?cmp = "\<lambda>p q. cmp_of (p_doc_id p) (p_doc_id q)"
  let ?ps = "concat (map postings pls)"
  have na: "not_after ?cmp p q \<longleftrightarrow> p_doc_id p \<le> p_doc_id q" for p q
    by (auto simp: not_after_def cmp_of_def)
  then have "sorted_wrt (\<lambda>p q. p_doc_id p \<le> p_doc_id q) (usort ?cmp ?ps)"
    by (rule sort_contract_key [OF assms])
  then have "merge_inv (usort ?cmp ?ps) (foldl merge_step [] (usort ?cmp ?ps))"
    by (rule merge_inv_foldl)
  then show ?thesis
    using merge_inv_cong [OF sort_contract_mset [OF assms]] by (simp add: pl_merge_def Let_def)
qed

section \<open>Properties\<close>

lemma encode_varint_length: "unat x < 128 ^ n \<Longrightarrow> 0 < n \<Longrightarrow> length (encode_varint x) \<le> n"
proof (induction x arbitrary: n rule: encode_varint.induct)
  case (1 x)
  show ?case
  proof (cases "drop_bit 7 x = 0")
    case True
    then show ?thesis using 1 by (subst encode_varint.simps) (simp add: Let_def)
  next
    case False
    then obtain m where n: "n = Suc m"
      using 1 by (cases n) auto
    have "unat (drop_bit 7 x) < 128 ^ m"
      using 1(2) by (simp add: n unat_drop7 less_mult_imp_div_less mult.commute)
    moreover have "0 < m"
      using calculation unat_gt_0 [of "drop_bit 7 x"] False by (cases m) simp_all
    ultimately have "length (encode_varint (drop_bit 7 x)) \<le> m"
      using 1(1) False by blast
    then show ?thesis using False by (subst encode_varint.simps) (simp add: Let_def n)
  qed
qed

lemma encode_varint_max: "length (encode_varint x) \<le> 10"
  using encode_varint_length [of x 10] unat_less(4) [of x] by simp

lemma write_all_length:
  "(\<And>s x. length (enc s x) \<le> n) \<Longrightarrow> length (write_all enc nxt s xs) \<le> n * length xs"
proof (induction xs arbitrary: s)
  case (Cons x xs)
  then have "length (enc s x) \<le> n" "length (write_all enc nxt (nxt s x) xs) \<le> n * length xs" by auto
  then show ?case by simp
qed simp

text \<open>The size of an encoding.\<close>

lemma pl_encode_length: "length (pl_encode pl) \<le> 20 + 4 * length (blocks pl) + 30 * length (postings pl)"
proof -
  have "length (enc_posting prev p) \<le> 30" for prev p
    using encode_varint_max [of "ucast (p_doc_id p - prev)"] encode_varint_max [of "ucast (p_term_freq p)"]
      encode_varint_max [of "ucast (p_doc_len p)"] by (simp add: enc_posting_def)
  note ps = write_all_length [of enc_posting, OF this, of "\<lambda>prev p. p_doc_id p" 0 "postings pl"]
  have bs: "length (write_all (\<lambda>s. enc_block) no_state () (blocks pl)) \<le> 4 * length (blocks pl)"
    by (rule write_all_length) (simp add: enc_block_def)
  show ?thesis
    using ps bs encode_varint_max [of "word_of_nat (length (blocks pl))"]
      encode_varint_max [of "word_of_nat (length (postings pl))"] by (simp add: pl_encode_def)
qed

lemma encode_varint_not_Nil [simp]: "encode_varint x \<noteq> []"
  by (subst encode_varint.simps) (simp add: Let_def)

text \<open>
  A variable-length integer is one to ten bytes, and reading it at its position in any buffer
  gives the value back and leaves the cursor just behind it.
\<close>
theorem varint_roundtrip:
  "decode_varint (pre @ encode_varint x @ post) (length pre) =
     Some (x, length pre + length (encode_varint x)) \<and>
   0 < length (encode_varint x) \<and> length (encode_varint x) \<le> 10"
  using varint.dec_enc encode_varint_length [of x 10] unat_less(4) [of x] by simp

text \<open>
  C27: \<open>PostingList::decode\<close> inverts \<open>PostingList::encode\<close>, block headers and postings alike, with
  any bytes after the encoding ignored; two lists with the same encoding are equal.
\<close>
theorem posting_list_roundtrip:
  assumes "length (blocks pl) < 2 ^ 64" "length (postings pl) < 2 ^ 64"
  shows "pl_decode (pl_encode pl @ post) = Some pl"
  using assms by (rule pl_decode_encode_at)

theorem posting_list_roundtrip_witness:
  "pl_decode (pl_encode (pl_add (pl_add pl_new 5 2 10) 700 1 8) @ [1, 2]) =
     Some (pl_add (pl_add pl_new 5 2 10) 700 1 8)"
  by (rule posting_list_roundtrip) (simp_all add: pl_add_def pl_new_def)

text \<open>
  C28: \<open>rebuild_blocks\<close> makes one header per started block of 64 postings, and the maximum of a
  posting's block bounds the impact of the posting; the bound is attained in the block (or is
  zero), and the postings do not change.
\<close>
theorem rebuild_blocks_bounds:
  fixes pl avgdl
  defines "pl' \<equiv> rebuild_blocks avgdl pl"
  shows "postings pl' = postings pl \<and>
    length (blocks pl') = div_ceil (pl_len pl) BLOCK_SIZE \<and>
    (\<forall>i < pl_len pl.
       f32_le (bm25_impact (p_term_freq (postings pl ! i)) (p_doc_len (postings pl ! i)) avgdl)
         (max_impact (blocks pl' ! (i div BLOCK_SIZE)))) \<and>
    (\<forall>b < length (blocks pl').
       max_impact (blocks pl' ! b) \<in> insert (f32_of_nat 0)
         ((\<lambda>p. bm25_impact (p_term_freq p) (p_doc_len p) avgdl) ` set (block_postings (postings pl) b)))"
proof -
  have nth: "blocks pl' ! b = block_of avgdl (postings pl) b"
    if "b < div_ceil (length (postings pl)) BLOCK_SIZE" for b
    using that by (simp add: pl'_def rebuild_blocks_def)
  have idx: "i div BLOCK_SIZE < div_ceil (length (postings pl)) BLOCK_SIZE"
    if "i < length (postings pl)" for i
    using that by (intro index_div_ceil) (simp_all add: BLOCK_SIZE_def)
  have len: "length (blocks pl') = div_ceil (length (postings pl)) BLOCK_SIZE"
    by (simp add: pl'_def rebuild_blocks_def)
  show ?thesis
    using block_of_max [of avgdl "postings pl"] nth_block_postings nth idx
    by (simp add: len pl_len_def) (simp add: pl'_def rebuild_blocks_def)
qed

theorem rebuild_blocks_bounds_witness:
  "length (blocks (rebuild_blocks (F32 0) (pl_add pl_new 5 2 10))) = 1 \<and>
   f32_le (bm25_impact 2 10 (F32 0)) (max_impact (blocks (rebuild_blocks (F32 0) (pl_add pl_new 5 2 10)) ! 0))"
  using rebuild_blocks_bounds [where pl = "pl_add pl_new 5 2 10" and avgdl = "F32 0"]
  by (simp add: pl_add_def pl_new_def pl_len_def div_ceil_def BLOCK_SIZE_def)

text \<open>
  C23: the merged posting list is strictly ascending in the document id, holds exactly the
  documents of its inputs, gives each the sum of its term frequencies saturated at 255, and takes
  its length from one of the inputs, whatever order the unstable sort leaves among duplicates.
\<close>
theorem pl_merge_correct:
  assumes "sort_contract usort"
  shows "ids_ascending (postings (pl_merge usort pls)) \<and>
    p_doc_id ` set (postings (pl_merge usort pls)) = (\<Union>pl \<in> set pls. p_doc_id ` set (postings pl)) \<and>
    (\<forall>q \<in> set (postings (pl_merge usort pls)).
       unat (p_term_freq q) = min 255 (tf_total (concat (map postings pls)) (p_doc_id q)) \<and>
       (\<exists>pl \<in> set pls. \<exists>p \<in> set (postings pl). p_doc_id p = p_doc_id q \<and> p_doc_len p = p_doc_len q))"
  using pl_merge_inv [OF assms, of pls] unfolding merge_inv_def
  by (auto simp: image_UN)

theorem pl_merge_correct_witness:
  "ids_ascending (postings (pl_merge sort_by
     [pl_add (pl_add pl_new 1 200 5) 3 1 5, pl_add (pl_add pl_new 3 2 5) 1 100 5]))"
  using pl_merge_correct [of sort_by] by simp

text \<open>
  The impact of a posting is finite and not negative for every term frequency, every document
  length and every average (infinite, negative and NaN averages included), and among documents
  with the same term frequency the longer one never has the larger impact.
\<close>
theorem bm25_impact_well_behaved:
  "f32_fin (bm25_impact tf dl avgdl) \<and>
   f32_le (bm25_impact tf (max dl dl') avgdl) (bm25_impact tf dl avgdl)"
  using bm25_impact_fin [of tf dl avgdl] bm25_impact_antimono [of dl "max dl dl'" tf avgdl]
  by (simp add: f32_le_nonneg bm25_impact_nonneg)

end
