(* ===== verification/OrderedMap.thy ===== *)
theory OrderedMap
  imports Prelude "HOL-Library.List_Lexorder" "HOL-Library.Char_ord"
begin

text \<open>
  \<open>BTreeMap\<close>: a map iterated in ascending key order, here the list of its entries in that order.
  Strings are ordered byte by byte, as \<open>Ord for str\<close> does.
\<close>

type_synonym ('k, 'v) omap = "('k \<times> 'v) list"

definition om_wf :: "('k::linorder, 'v) omap \<Rightarrow> bool" where
  "om_wf m \<longleftrightarrow> sorted_wrt (<) (map fst m)"

text \<open>\<open>*entry(k).or_insert_with(..) = f(..)\<close>: update the entry, or make it from the default.\<close>

fun om_entry :: "'k::linorder \<Rightarrow> ('v option \<Rightarrow> 'v) \<Rightarrow> ('k, 'v) omap \<Rightarrow> ('k, 'v) omap" where
  "om_entry k f [] = [(k, f None)]"
| "om_entry k f ((k', v) # m) =
     (if k < k' then (k, f None) # (k', v) # m
      else if k = k' then (k', f (Some v)) # m
      else (k', v) # om_entry k f m)"

lemma om_entry_keys: "fst ` set (om_entry k f m) = insert k (fst ` set m)"
  by (induction k f m rule: om_entry.induct) auto

lemma om_entry_wf [wf_intros]: "om_wf m \<Longrightarrow> om_wf (om_entry k f m)"
proof (induction k f m rule: om_entry.induct)
  case (2 k f k' v m)
  then show ?case
    using om_entry_keys [of k f m] by (force simp: om_wf_def)
qed (simp add: om_wf_def)

lemma om_entry_lookup:
  "om_wf m \<Longrightarrow> map_of (om_entry k f m) = (map_of m)(k \<mapsto> f (map_of m k))"
proof (induction k f m rule: om_entry.induct)
  case (2 k f k' v m)
  have fresh: "map_of m k = None" if "k < k'"
    using that 2(2) by (force simp: om_wf_def map_of_eq_None_iff)
  show ?case using 2 fresh by (auto simp: om_wf_def fun_eq_iff)
qed simp

lemma om_wf_distinct: "om_wf m \<Longrightarrow> distinct (map fst m)"
  by (simp add: om_wf_def strict_sorted_iff)

lemma om_lookup_mem: "om_wf m \<Longrightarrow> map_of m k = Some v \<longleftrightarrow> (k, v) \<in> set m"
  by (simp add: map_of_eq_Some_iff [OF om_wf_distinct])

lemma om_wf_map: "om_wf (map (\<lambda>(k, v). (k, f k v)) m) \<longleftrightarrow> om_wf m"
  by (simp add: om_wf_def comp_def case_prod_beta)

lemma om_wf_filter [wf_intros]: "om_wf m \<Longrightarrow> om_wf (filter P m)"
  by (induction m) (auto simp: om_wf_def)

section \<open>HashMap\<close>

text \<open>A \<open>HashMap\<close> whose iteration the code observes is the list of its entries, one per key, oldest
  first; the order of an iteration is an argument of the definition that iterates.\<close>

fun hm_entry :: "'k \<Rightarrow> ('v option \<Rightarrow> 'v) \<Rightarrow> ('k \<times> 'v) list \<Rightarrow> ('k \<times> 'v) list" where
  "hm_entry k f [] = [(k, f None)]"
| "hm_entry k f ((k', v) # m) =
     (if k = k' then (k', f (Some v)) # m else (k', v) # hm_entry k f m)"

lemma hm_entry_keys: "fst ` set (hm_entry k f m) = insert k (fst ` set m)"
  by (induction k f m rule: hm_entry.induct) auto

lemma hm_entry_distinct [wf_intros]: "distinct (map fst m) \<Longrightarrow> distinct (map fst (hm_entry k f m))"
proof (induction k f m rule: hm_entry.induct)
  case (2 k f k' v m)
  then show ?case using hm_entry_keys [of k f m] by auto
qed simp

lemma hm_entry_lookup: "map_of (hm_entry k f m) = (map_of m)(k \<mapsto> f (map_of m k))"
  by (induction k f m rule: hm_entry.induct) (auto simp: fun_eq_iff)

text \<open>\<open>*entry(k).or_default() += x\<close>, for a sum of the type's own addition.\<close>

abbreviation or_default :: "'v \<Rightarrow> 'v option \<Rightarrow> 'v" where
  "or_default d x \<equiv> (case x of None \<Rightarrow> d | Some v \<Rightarrow> v)"

end
