(* ===== verification/Inverted.thy ===== *)
theory Inverted
  imports Posting Disk OrderedMap
begin

text \<open>
  \<open>crates/index/src/inverted.rs\<close>: the term dictionary with its posting lists, written to and read
  from disk.  The finite state transducer of the \<open>fst\<close> crate is the ascending list of its keys
  and offsets: its byte form is a \<open>codec\<close>, and the Levenshtein automaton is an argument that says
  which keys it accepts (\<open>None\<close> when the automaton cannot be built).  A slice out of range panics:
  reads are \<open>None\<close> there.
\<close>

section \<open>Writing\<close>

record inverted_writer =
  term_postings :: "(string, posting_list) omap"

definition iw_new :: inverted_writer where
  "iw_new = \<lparr>term_postings = []\<rparr>"

definition occur :: "u32 \<Rightarrow> u16 \<Rightarrow> posting_list option \<Rightarrow> posting_list" where
  "occur doc_id doc_len entry =
     (let pl = (case entry of None \<Rightarrow> pl_new | Some pl \<Rightarrow> pl)
      in if postings pl \<noteq> [] \<and> p_doc_id (last (postings pl)) = doc_id
         then pl\<lparr>postings := butlast (postings pl) @
           [(last (postings pl))\<lparr>p_term_freq := sat_add (p_term_freq (last (postings pl))) 1\<rparr>]\<rparr>
         else pl_add pl doc_id 1 doc_len)"

definition add_term :: "string \<Rightarrow> u32 \<Rightarrow> u16 \<Rightarrow> inverted_writer \<Rightarrow> inverted_writer" where
  "add_term t doc_id doc_len w =
     w\<lparr>term_postings := om_entry t (occur doc_id doc_len) (term_postings w)\<rparr>"

definition iw_term_count :: "inverted_writer \<Rightarrow> nat" where
  "iw_term_count w = length (term_postings w)"

text \<open>The loop over the terms: rebuild the block headers, append the encoding, note the offset.\<close>

fun iw_encode_terms ::
  "f32 \<Rightarrow> (string, posting_list) omap \<Rightarrow> bytes \<Rightarrow> (string \<times> u64) list \<Rightarrow> bytes \<times> (string \<times> u64) list" where
  "iw_encode_terms avgdl [] posting_data keys = (posting_data, keys)"
| "iw_encode_terms avgdl ((t, pl) # m) posting_data keys =
     (let pl = rebuild_blocks avgdl pl;
          offset = word_of_nat (length posting_data);
          encoded = pl_encode pl
      in iw_encode_terms avgdl m
           (posting_data @ u32_le (word_of_nat (length encoded)) @ encoded)
           (keys @ [(t, offset)]))"

definition iw_write ::
  "(string \<times> u64) list codec \<Rightarrow> f32 \<Rightarrow> inverted_writer \<Rightarrow> dir \<Rightarrow> (inverted_writer \<times> dir) io_result" where
  "iw_write fc avgdl w d =
     (let (posting_data, keys) = iw_encode_terms avgdl (term_postings w) [] [];
          w = w\<lparr>term_postings := map (\<lambda>(t, pl). (t, rebuild_blocks avgdl pl)) (term_postings w)\<rparr>
      in res_bind (map_io_err OtherKind (ser fc keys)) (\<lambda>fst_bytes.
           Inr (w, fs_write (fs_write d ''inverted.fst'' fst_bytes) ''inverted.post'' posting_data)))"

section \<open>Reading\<close>

record inverted_reader =
  fst_map :: "(string \<times> u64) list"
  posting_data :: bytes

definition ir_open :: "(string \<times> u64) list codec \<Rightarrow> dir \<Rightarrow> inverted_reader io_result" where
  "ir_open fc d =
     res_bind (fs_read d ''inverted.fst'') (\<lambda>fst_bytes.
     res_bind (fs_read d ''inverted.post'') (\<lambda>posting_data.
     res_bind (map_io_err InvalidData (de fc fst_bytes)) (\<lambda>fst_map.
       Inr \<lparr>fst_map = fst_map, posting_data = posting_data\<rparr>)))"

definition read_at :: "inverted_reader \<Rightarrow> nat \<Rightarrow> posting_list option" where
  "read_at r offset =
     (case slice (posting_data r) offset (offset + 4) of None \<Rightarrow> None
      | Some bs \<Rightarrow>
          (case slice (posting_data r) (offset + 4) (offset + 4 + unat (u32_from_le bs)) of
             None \<Rightarrow> None | Some data \<Rightarrow> pl_decode data))"

definition get_postings :: "inverted_reader \<Rightarrow> string \<Rightarrow> posting_list option option" where
  "get_postings r t =
     (case map_of (fst_map r) t of None \<Rightarrow> Some None
      | Some offset \<Rightarrow> map_option Some (read_at r (unat offset)))"

text \<open>The stream of the keys an automaton accepts, in key order.\<close>

definition stream_search ::
  "inverted_reader \<Rightarrow> (string \<Rightarrow> bool) \<Rightarrow> (string \<times> posting_list) list option" where
  "stream_search r accepts =
     those (map (\<lambda>(key, offset). map_option (Pair key) (read_at r (unat offset)))
              (filter (\<lambda>(key, offset). accepts key) (fst_map r)))"

definition ir_fuzzy_search ::
  "(string \<Rightarrow> u32 \<Rightarrow> (string \<Rightarrow> bool) option) \<Rightarrow> inverted_reader \<Rightarrow> string \<Rightarrow> u32 \<Rightarrow>
   (string \<times> posting_list) list option" where
  "ir_fuzzy_search levenshtein r t max_distance =
     (case levenshtein t max_distance of None \<Rightarrow> Some []
      | Some accepts \<Rightarrow> stream_search r accepts)"

definition ir_prefix_search ::
  "inverted_reader \<Rightarrow> string \<Rightarrow> (string \<times> posting_list) list option" where
  "ir_prefix_search r pre = stream_search r (prefix pre)"

definition ir_term_count :: "inverted_reader \<Rightarrow> nat" where
  "ir_term_count r = length (fst_map r)"

section \<open>What the writer accumulates\<close>

text \<open>
  The occurrences fed to \<open>add_term\<close>, in order, and what they say about a term and a document: in
  how many occurrences the pair appears, and with which lengths.
\<close>

type_synonym occurrence = "string \<times> u32 \<times> u16"

definition feed :: "occurrence list \<Rightarrow> inverted_writer" where
  "feed os = foldl (\<lambda>w (t, d, l). add_term t d l w) iw_new os"

definition occurrences :: "occurrence list \<Rightarrow> string \<Rightarrow> u32 \<Rightarrow> nat" where
  "occurrences os t d = length (filter (\<lambda>(t', d', l). t' = t \<and> d' = d) os)"

definition docs_in_order :: "occurrence list \<Rightarrow> bool" where
  "docs_in_order os \<longleftrightarrow> sorted_wrt (\<lambda>x y. fst (snd x) \<le> fst (snd y)) os"

lemma occurrences_pos: "0 < occurrences os t d \<longleftrightarrow> (\<exists>l. (t, d, l) \<in> set os)"
  by (induction os) (auto simp: occurrences_def)

text \<open>
  Feeding is merging: one occurrence is one posting of frequency one, folded into the list by the
  step of \<open>PostingList::merge\<close>.
\<close>

definition term_occurrences :: "occurrence list \<Rightarrow> string \<Rightarrow> posting list" where
  "term_occurrences os t =
     map (\<lambda>(t', d, l). \<lparr>p_doc_id = d, p_term_freq = 1, p_doc_len = l\<rparr>) (filter (\<lambda>(t', d, l). t' = t) os)"

definition term_list :: "occurrence list \<Rightarrow> string \<Rightarrow> posting_list" where
  "term_list os t = \<lparr>postings = foldl merge_step [] (term_occurrences os t), blocks = []\<rparr>"

lemma occur_merge_step:
  "occur d l (Some pl) = pl\<lparr>postings := merge_step (postings pl) \<lparr>p_doc_id = d, p_term_freq = 1, p_doc_len = l\<rparr>\<rparr>"
  "occur d l None = \<lparr>postings = merge_step [] \<lparr>p_doc_id = d, p_term_freq = 1, p_doc_len = l\<rparr>, blocks = []\<rparr>"
  by (simp_all add: occur_def merge_step_def pl_add_def pl_new_def)

lemma feed_lookup:
  "om_wf (term_postings (feed os)) \<and>
   map_of (term_postings (feed os)) t = (if t \<in> fst ` set os then Some (term_list os t) else None)"
proof (induction os arbitrary: t rule: rev_induct)
  case Nil
  then show ?case by (simp add: feed_def iw_new_def om_wf_def)
next
  case (snoc x os)
  obtain t' d l where x: "x = (t', d, l)" by (cases x) auto
  have w: "term_postings (feed (os @ [x])) = om_entry t' (occur d l) (term_postings (feed os))"
    by (simp add: feed_def x add_term_def)
  have "occur d l (map_of (term_postings (feed os)) t') = term_list (os @ [x]) t'"
  proof (cases "t' \<in> fst ` set os")
    case True
    then show ?thesis using snoc [of t']
      by (simp add: occur_merge_step term_list_def term_occurrences_def x)
  next
    case False
    then have "filter (\<lambda>(t'', d, l). t'' = t') os = []" by (force simp: filter_empty_conv)
    then show ?thesis using snoc [of t'] False
      by (simp add: occur_merge_step term_list_def term_occurrences_def x)
  qed
  moreover have "term_list (os @ [x]) t = term_list os t" if "t \<noteq> t'"
    using that by (simp add: term_list_def term_occurrences_def x)
  ultimately show ?case
    using snoc om_entry_wf [of "term_postings (feed os)" t' "occur d l"]
    by (auto simp: w [unfolded x] om_entry_lookup x)
qed

lemma tf_total_occurrences: "tf_total (term_occurrences os t) d = occurrences os t d"
  by (induction os) (auto simp: tf_total_def term_occurrences_def occurrences_def)

lemma term_list_inv:
  assumes "docs_in_order os"
  shows "merge_inv (term_occurrences os t) (postings (term_list os t))"
proof -
  have "sorted_wrt (\<lambda>p q. p_doc_id p \<le> p_doc_id q) (term_occurrences os t)"
    unfolding term_occurrences_def sorted_wrt_map
    using sorted_wrt_filter [OF assms [unfolded docs_in_order_def], of "\<lambda>(t', d, l). t' = t"]
    by (simp add: case_prod_beta)
  then show ?thesis unfolding term_list_def by (simp add: merge_inv_foldl)
qed

section \<open>The written files\<close>

definition term_record :: "f32 \<Rightarrow> string \<times> posting_list \<Rightarrow> bytes" where
  "term_record avgdl e =
     (let encoded = pl_encode (rebuild_blocks avgdl (snd e))
      in u32_le (word_of_nat (length encoded)) @ encoded)"

definition term_offset :: "f32 \<Rightarrow> (string, posting_list) omap \<Rightarrow> nat \<Rightarrow> nat" where
  "term_offset avgdl m i = length (concat (map (term_record avgdl) (take i m)))"

definition term_keys :: "f32 \<Rightarrow> (string, posting_list) omap \<Rightarrow> (string \<times> u64) list" where
  "term_keys avgdl m = map (\<lambda>i. (fst (m ! i), word_of_nat (term_offset avgdl m i))) [0..<length m]"

lemma iw_encode_terms_eq:
  "iw_encode_terms avgdl m data ks =
     (data @ concat (map (term_record avgdl) m),
      ks @ map (\<lambda>i. (fst (m ! i), word_of_nat (length data + term_offset avgdl m i))) [0..<length m])"
proof (induction m arbitrary: data ks)
  case Nil
  then show ?case by simp
next
  case (Cons e m)
  obtain t pl where e: "e = (t, pl)" by (cases e)
  have "[0..<Suc (length m)] = 0 # map Suc [0..<length m]"
    by (simp add: upt_conv_Cons map_Suc_upt del: upt_Suc)
  then show ?case
    using Cons by (simp add: e Let_def term_record_def term_offset_def comp_def add.assoc del: upt_Suc)
qed

definition terms_fit :: "f32 \<Rightarrow> (string, posting_list) omap \<Rightarrow> bool" where
  "terms_fit avgdl m \<longleftrightarrow>
     (\<forall>(t, pl) \<in> set m. length (postings pl) < 2 ^ 32 \<and>
        length (pl_encode (rebuild_blocks avgdl pl)) < 2 ^ 32) \<and>
     length (concat (map (term_record avgdl) m)) < 2 ^ 64"

definition ir_of :: "f32 \<Rightarrow> (string, posting_list) omap \<Rightarrow> inverted_reader" where
  "ir_of avgdl m =
     \<lparr>fst_map = term_keys avgdl m, posting_data = concat (map (term_record avgdl) m)\<rparr>"

lemma iw_write_open:
  assumes "codec_ok fc (term_keys avgdl (term_postings w))"
  shows "\<exists>w' d'. iw_write fc avgdl w d = Inr (w', d') \<and>
    iw_term_count w' = iw_term_count w \<and>
    ir_open fc d' = Inr (ir_of avgdl (term_postings w)) \<and>
    (\<forall>name. name \<notin> {''inverted.fst'', ''inverted.post''} \<longrightarrow> d' name = d name)"
proof -
  have k: "term_keys avgdl (term_postings w) =
      map (\<lambda>i. (fst (term_postings w ! i), word_of_nat (term_offset avgdl (term_postings w) i)))
        [0..<length (term_postings w)]"
    by (simp add: term_keys_def)
  show ?thesis
    using codec_okD [OF assms]
    by (simp add: iw_write_def iw_encode_terms_eq Let_def ir_open_def ir_of_def iw_term_count_def
        flip: k)
qed

lemma read_at_written:
  assumes fit: "terms_fit avgdl m" and i: "i < length m"
  shows "read_at (ir_of avgdl m) (term_offset avgdl m i) = Some (rebuild_blocks avgdl (snd (m ! i)))"
proof -
  let ?data = "concat (map (term_record avgdl) m)" and ?o = "term_offset avgdl m i"
  let ?pl = "rebuild_blocks avgdl (snd (m ! i))"
  have rec: "term_record avgdl (m ! i) = u32_le (word_of_nat (length (pl_encode ?pl))) @ pl_encode ?pl"
    by (simp add: term_record_def Let_def)
  have "slice ?data ?o (?o + length (term_record avgdl (m ! i))) = Some (term_record avgdl (m ! i))"
    using slice_concat [OF i, of "term_record avgdl"] by (simp add: term_offset_def)
  note sl = slice_split [OF this [unfolded rec]]
  have mi: "m ! i \<in> set m" using i by simp
  then have len: "length (postings (snd (m ! i))) < 2 ^ 32" "length (pl_encode ?pl) < 2 ^ 32"
    using fit by (auto simp: terms_fit_def)
  have "length (blocks ?pl) \<le> length (postings (snd (m ! i)))"
    using div_ceil_bounds [of BLOCK_SIZE "length (postings (snd (m ! i)))"]
    by (simp add: rebuild_blocks_def BLOCK_SIZE_def)
  then have "pl_decode (pl_encode ?pl) = Some ?pl"
    using pl_decode_encode_at [of ?pl "[]"] len(1) by (simp add: rebuild_blocks_def)
  then show ?thesis
    using sl len(2) by (simp add: read_at_def ir_of_def unat_of_nat)
qed

text \<open>A small index fits.\<close>

lemma terms_fitI:
  assumes "length (concat (map (\<lambda>(t, pl). postings pl) m)) + length m < 2 ^ 24"
  shows "terms_fit avgdl m"
proof -
  have enc: "length (pl_encode (rebuild_blocks avgdl pl)) \<le> 20 + 34 * length (postings pl)" for pl
  proof -
    have "div_ceil (length (postings pl)) 64 \<le> length (postings pl)"
      using div_ceil_bounds [of 64 "length (postings pl)"] by simp
    then show ?thesis
      using pl_encode_length [of "rebuild_blocks avgdl pl"]
      by (simp add: rebuild_blocks_def BLOCK_SIZE_def)
  qed
  have "length (concat (map (term_record avgdl) m)) \<le>
      34 * (length (concat (map (\<lambda>(t, pl). postings pl) m)) + length m)"
  proof (induction m)
    case (Cons e m)
    then show ?case using enc [of "snd e"] by (auto simp: term_record_def Let_def case_prod_beta)
  qed simp
  moreover have "length (postings pl) \<le> length (concat (map (\<lambda>(t, pl). postings pl) m))"
    if "(t, pl) \<in> set m" for t pl
    using that by (induction m) auto
  ultimately show ?thesis
    using assms enc unfolding terms_fit_def by (fastforce intro: le_less_trans)
qed

lemma term_offset_unat:
  assumes "terms_fit avgdl m"
  shows "unat (word_of_nat (term_offset avgdl m i) :: u64) = term_offset avgdl m i"
proof -
  have "concat (map (term_record avgdl) m) =
      concat (map (term_record avgdl) (take i m)) @ concat (map (term_record avgdl) (drop i m))"
    by (metis append_take_drop_id concat_append map_append)
  then have "term_offset avgdl m i \<le> length (concat (map (term_record avgdl) m))"
    by (simp add: term_offset_def)
  then show ?thesis using assms by (simp add: terms_fit_def unat_of_nat)
qed

lemma stream_search_written:
  assumes "terms_fit avgdl m"
  shows "stream_search (ir_of avgdl m) accepts =
    Some (map (\<lambda>(t, pl). (t, rebuild_blocks avgdl pl)) (filter (\<lambda>(t, pl). accepts t) m))"
proof -
  let ?r = "ir_of avgdl m"
  note off = term_offset_unat [OF assms]
  have those_Some: "those (map (\<lambda>i. Some (f i)) is) = Some (map f is)" for f :: "nat \<Rightarrow> 'b" and "is"
    by (induction "is") simp_all
  have "stream_search ?r accepts =
      those (map (\<lambda>i. map_option (Pair (fst (m ! i))) (read_at ?r (unat (word_of_nat (term_offset avgdl m i) :: u64))))
        (filter (\<lambda>i. accepts (fst (m ! i))) [0..<length m]))"
    by (simp add: stream_search_def ir_of_def term_keys_def filter_map comp_def)
  also have "\<dots> = those (map (\<lambda>i. Some (fst (m ! i), rebuild_blocks avgdl (snd (m ! i))))
        (filter (\<lambda>i. accepts (fst (m ! i))) [0..<length m]))"
    by (intro arg_cong [where f = those] map_cong refl) (simp add: off read_at_written [OF assms])
  also have "\<dots> = Some (map (\<lambda>(t, pl). (t, rebuild_blocks avgdl pl))
      (filter (\<lambda>(t, pl). accepts t) (map ((!) m) [0..<length m])))"
    by (simp add: those_Some filter_map comp_def case_prod_beta)
  finally show ?thesis by (simp add: map_nth)
qed

lemma get_postings_written:
  assumes "terms_fit avgdl m" "om_wf m"
  shows "get_postings (ir_of avgdl m) t = Some (map_option (rebuild_blocks avgdl) (map_of m t))"
proof -
  have keys: "map fst (term_keys avgdl m) = map fst m"
    by (rule nth_equalityI) (simp_all add: term_keys_def)
  have d: "distinct (map fst (term_keys avgdl m))"
    unfolding keys by (rule om_wf_distinct [OF assms(2)])
  show ?thesis
  proof (cases "map_of m t")
    case None
    then have "map_of (term_keys avgdl m) t = None"
      unfolding map_of_eq_None_iff using arg_cong [OF keys, of set] by simp
    with None show ?thesis by (simp add: get_postings_def ir_of_def)
  next
    case (Some pl)
    then obtain i where i: "i < length m" "m ! i = (t, pl)"
      using om_lookup_mem [OF assms(2)] by (metis in_set_conv_nth)
    then have "(t, word_of_nat (term_offset avgdl m i)) \<in> set (term_keys avgdl m)"
      unfolding term_keys_def set_map by (intro image_eqI [of _ _ i]) simp_all
    then have "map_of (term_keys avgdl m) t = Some (word_of_nat (term_offset avgdl m i))"
      using d by (simp add: map_of_eq_Some_iff)
    then have "get_postings (ir_of avgdl m) t =
        map_option Some (read_at (ir_of avgdl m) (term_offset avgdl m i))"
      using term_offset_unat [OF assms(1), of i] by (simp add: get_postings_def ir_of_def)
    then show ?thesis using read_at_written [OF assms(1) i(1)] Some i(2) by simp
  qed
qed

section \<open>Properties\<close>

text \<open>
  Feeding the occurrences of a segment, documents in ascending order, makes one entry per term
  (in key order), and the posting list of a term names exactly the documents in which it occurs,
  ascending, with the number of its occurrences there capped at 255.
\<close>
theorem add_term_correct:
  assumes "docs_in_order os"
  shows "om_wf (term_postings (feed os)) \<and> fst ` set (term_postings (feed os)) = fst ` set os \<and>
    (\<forall>(t, pl) \<in> set (term_postings (feed os)).
       ids_ascending (postings pl) \<and>
       p_doc_id ` set (postings pl) = {d. 0 < occurrences os t d} \<and>
       (\<forall>p \<in> set (postings pl). unat (p_term_freq p) = min 255 (occurrences os t (p_doc_id p)) \<and>
          (t, p_doc_id p, p_doc_len p) \<in> set os))"
proof -
  have wf: "om_wf (term_postings (feed os))" using feed_lookup by blast
  have mem: "(t, pl) \<in> set (term_postings (feed os)) \<longleftrightarrow> t \<in> fst ` set os \<and> pl = term_list os t" for t pl
    using feed_lookup [of os t] by (auto simp: om_lookup_mem [OF wf, symmetric])
  have docs: "p_doc_id ` set (term_occurrences os t) = {d. 0 < occurrences os t d}" for t
    by (force simp: term_occurrences_def occurrences_pos)
  have occ: "(t, p_doc_id q, p_doc_len q) \<in> set os" if "q \<in> set (term_occurrences os t)" for q t
    using that by (auto simp: term_occurrences_def)
  have inv: "merge_inv (term_occurrences os t) (postings (term_list os t))" for t
    by (rule term_list_inv [OF assms])
  have *: "ids_ascending (postings (term_list os t)) \<and>
      p_doc_id ` set (postings (term_list os t)) = {d. 0 < occurrences os t d} \<and>
      (\<forall>p \<in> set (postings (term_list os t)).
         unat (p_term_freq p) = min 255 (occurrences os t (p_doc_id p)) \<and>
         (t, p_doc_id p, p_doc_len p) \<in> set os)" for t
    using inv [of t] occ [of _ t] docs [of t] unfolding merge_inv_def tf_total_occurrences by metis
  have "fst ` set (term_postings (feed os)) = fst ` set os"
    using mem by force
  moreover have "case e of (t, pl) \<Rightarrow> ids_ascending (postings pl) \<and>
       p_doc_id ` set (postings pl) = {d. 0 < occurrences os t d} \<and>
       (\<forall>p \<in> set (postings pl). unat (p_term_freq p) = min 255 (occurrences os t (p_doc_id p)) \<and>
          (t, p_doc_id p, p_doc_len p) \<in> set os)" if "e \<in> set (term_postings (feed os))" for e
  proof (cases e)
    case (Pair t pl)
    then have pl: "pl = term_list os t" using that mem by simp
    show ?thesis unfolding Pair prod.case pl by (rule *)
  qed
  ultimately show ?thesis using wf by blast
qed

theorem add_term_correct_witness:
  "om_wf (term_postings (feed [(''b'', 0, 3), (''a'', 0, 3), (''b'', 0, 3), (''b'', 2, 1)]))"
  using add_term_correct [of "[(''b'', 0, 3), (''a'', 0, 3), (''b'', 0, 3), (''b'', 2, 1)]"]
  by (simp add: docs_in_order_def)

text \<open>
  C33: an inverted index that was written opens again, and looking a term up returns its posting
  list with the block headers rebuilt, or nothing for a term that was not written; a search by
  prefix returns, in key order, exactly the terms with the prefix.  Nothing panics.
\<close>
theorem inverted_roundtrip:
  assumes "om_wf (term_postings w)" "terms_fit avgdl (term_postings w)"
    and "codec_ok fc (term_keys avgdl (term_postings w))"
  shows "\<exists>w' d' r. iw_write fc avgdl w d = Inr (w', d') \<and> ir_open fc d' = Inr r \<and>
    (\<forall>t. get_postings r t = Some (map_option (rebuild_blocks avgdl) (map_of (term_postings w) t))) \<and>
    (\<forall>pre. ir_prefix_search r pre =
       Some (map (\<lambda>(t, pl). (t, rebuild_blocks avgdl pl))
         (filter (\<lambda>(t, pl). prefix pre t) (term_postings w))))"
proof -
  obtain w' d' where "iw_write fc avgdl w d = Inr (w', d')"
    "ir_open fc d' = Inr (ir_of avgdl (term_postings w))"
    using iw_write_open [OF assms(3), of d] by blast
  then show ?thesis
    using get_postings_written [OF assms(2,1)] stream_search_written [OF assms(2)]
    by (intro exI conjI) (auto simp: ir_prefix_search_def)
qed

definition example_index :: inverted_writer where
  "example_index = feed [(''sam'', 0, 3), (''san'', 1, 3)]"

definition example_index_codec :: "(string \<times> u64) list codec" where
  "example_index_codec =
     \<lparr>ser = (\<lambda>ks. Inr []), de = (\<lambda>data. Inr (term_keys (F32 0) (term_postings example_index)))\<rparr>"

theorem inverted_roundtrip_witness:
  "\<exists>w' d' r. iw_write example_index_codec (F32 0) example_index Map.empty = Inr (w', d') \<and>
    ir_open example_index_codec d' = Inr r \<and>
    (\<forall>t. get_postings r t =
       Some (map_option (rebuild_blocks (F32 0)) (map_of (term_postings example_index) t))) \<and>
    (\<forall>pre. ir_prefix_search r pre =
       Some (map (\<lambda>(t, pl). (t, rebuild_blocks (F32 0) pl))
         (filter (\<lambda>(t, pl). prefix pre t) (term_postings example_index))))"
proof (rule inverted_roundtrip)
  show "om_wf (term_postings example_index)"
    unfolding example_index_def using feed_lookup by blast
  show "codec_ok example_index_codec (term_keys (F32 0) (term_postings example_index))"
    by (simp add: codec_ok_def example_index_codec_def)
  show "terms_fit (F32 0) (term_postings example_index)"
    by (rule terms_fitI) (simp add: example_index_def feed_def add_term_def iw_new_def occur_def pl_add_def
        pl_new_def Let_def)
qed

end
