(* ===== verification/Segment.thy ===== *)
theory Segment
  imports Analysis Column DocStore Inverted
begin

text \<open>
  \<open>crates/index/src/segment.rs\<close>: an immutable segment is written from a batch of documents
  (inverted index, columns, document store, metadata) and read back for search.  The libraries
  the crate calls (text segmentation and stemming, the byte formats) are collected in the record
  \<open>index_env\<close>.  A read that slices out of range panics and is \<open>None\<close>.
\<close>

section \<open>Environment and metadata\<close>

record segment_meta =
  m_doc_count :: u32
  m_term_count :: nat
  m_segment_id :: string

record index_env =
  ie_text :: text_env
  ie_meta :: "segment_meta codec"
  ie_fst :: "(string \<times> u64) list codec"
  ie_doc :: "document codec"
  ie_bitmap :: "bitmap codec"
  ie_columns :: "column_store codec"
  ie_levenshtein :: "string \<Rightarrow> u32 \<Rightarrow> (string \<Rightarrow> bool) option"

definition meta_write :: "index_env \<Rightarrow> segment_meta \<Rightarrow> dir \<Rightarrow> dir io_result" where
  "meta_write env m d =
     res_bind (map_io_err OtherKind (ser (ie_meta env) m)) (\<lambda>json. Inr (fs_write d ''meta.json'' json))"

definition meta_read :: "index_env \<Rightarrow> dir \<Rightarrow> segment_meta io_result" where
  "meta_read env d =
     res_bind (fs_read d ''meta.json'') (\<lambda>data. map_io_err InvalidData (de (ie_meta env) data))"

definition columns_write :: "index_env \<Rightarrow> column_store \<Rightarrow> dir \<Rightarrow> dir io_result" where
  "columns_write env cs d =
     res_bind (map_io_err OtherKind (ser (ie_columns env) cs)) (\<lambda>data. Inr (fs_write d ''columns.bin'' data))"

definition columns_read :: "index_env \<Rightarrow> dir \<Rightarrow> column_store io_result" where
  "columns_read env d =
     res_bind (fs_read d ''columns.bin'') (\<lambda>data. map_io_err InvalidData (de (ie_columns env) data))"

section \<open>Writing a segment\<close>

definition keyword_fields :: "index_schema \<Rightarrow> string list" where
  "keyword_fields schema =
     map f_name (filter (\<lambda>f. f_type f = Keyword \<and> (f_filterable f \<or> f_aggregatable f)) schema)"

definition numeric_fields :: "index_schema \<Rightarrow> string list" where
  "numeric_fields schema = map f_name (filter (\<lambda>f. f_type f = Numeric \<and> f_filterable f) schema)"

definition text_analyzers :: "index_schema \<Rightarrow> (string \<times> analyzer \<times> f32) list" where
  "text_analyzers schema =
     map (\<lambda>f. (f_name f, analyzer_build (f_analyzer f), f_boost f))
       (filter (\<lambda>f. f_indexed f \<and> f_type f = Text) schema)"

definition field_text :: "string \<Rightarrow> document \<Rightarrow> string option" where
  "field_text name doc =
     (if name = ''title'' then Some (d_title doc)
      else if name = ''description'' then Some (d_description doc) else None)"

definition doc_length :: "text_env \<Rightarrow> (string \<times> analyzer \<times> f32) list \<Rightarrow> document \<Rightarrow> u16" where
  "doc_length env tas doc =
     (let combined = sum_list (map (\<lambda>(name, a, boost).
            case field_text name doc of None \<Rightarrow> 0 | Some txt \<Rightarrow> length (analyze env a txt)) tas)
      in word_of_nat (min combined 65535))"

definition average_length :: "u16 list \<Rightarrow> f32" where
  "average_length doc_lengths =
     (if doc_lengths = [] then f32_of_nat 1
      else f32_div (f32_of_f64 (foldl f64_add (F64 0) (map (\<lambda>l. f64_of_nat (unat l)) doc_lengths)))
                   (f32_of_nat (length doc_lengths)))"

definition index_text ::
  "text_env \<Rightarrow> (string \<times> analyzer \<times> f32) list \<Rightarrow> u32 \<Rightarrow> u16 \<Rightarrow> document \<Rightarrow> inverted_writer \<Rightarrow> inverted_writer" where
  "index_text env tas local_id doc_len doc iw =
     foldl (\<lambda>iw (name, a, boost).
         case field_text name doc of None \<Rightarrow> iw
         | Some txt \<Rightarrow>
             foldl (\<lambda>iw token. add_term (t_text token) local_id doc_len iw) iw (analyze env a txt))
       iw tas"

definition keyword_value :: "string \<Rightarrow> document \<Rightarrow> string option" where
  "keyword_value name doc =
     (if name = ''category'' then Some (d_category doc)
      else case d_attributes doc name of Some (VString v) \<Rightarrow> Some v | _ \<Rightarrow> None)"

definition numeric_value :: "string \<Rightarrow> document \<Rightarrow> f64 option" where
  "numeric_value name doc =
     (if name = ''price'' then Some (d_price doc)
      else case d_attributes doc name of Some (VNumber v) \<Rightarrow> Some v | _ \<Rightarrow> None)"

record segment_builder =
  sb_inverted :: inverted_writer
  sb_keyword :: "(string \<times> keyword_writer) list"
  sb_numeric :: "(string \<times> numeric_writer) list"
  sb_docs :: docstore_writer

definition index_doc ::
  "text_env \<Rightarrow> (string \<times> analyzer \<times> f32) list \<Rightarrow> u16 list \<Rightarrow> segment_builder \<Rightarrow> nat \<times> document \<Rightarrow> segment_builder" where
  "index_doc env tas doc_lengths sb e =
     (let (local_doc_id, doc) = e; local_id = word_of_nat local_doc_id;
          doc_len = doc_lengths ! local_doc_id
      in \<lparr>sb_inverted = index_text env tas local_id doc_len doc (sb_inverted sb),
          sb_keyword = map (\<lambda>(name, w). (name, kw_put w (keyword_value name doc))) (sb_keyword sb),
          sb_numeric = map (\<lambda>(name, w). (name, nw_put w (numeric_value name doc))) (sb_numeric sb),
          sb_docs = dw_add doc (sb_docs sb)\<rparr>)"

definition segment_build :: "text_env \<Rightarrow> index_schema \<Rightarrow> document list \<Rightarrow> segment_builder" where
  "segment_build env schema docs =
     (let tas = text_analyzers schema
      in foldl (index_doc env tas (map (doc_length env tas) docs))
           \<lparr>sb_inverted = iw_new, sb_keyword = map (\<lambda>n. (n, kw_new)) (keyword_fields schema),
            sb_numeric = map (\<lambda>n. (n, nw_new)) (numeric_fields schema), sb_docs = dw_new\<rparr>
           (List.enumerate 0 docs))"

definition builder_columns :: "segment_builder \<Rightarrow> column_store" where
  "builder_columns sb =
     \<lparr>keyword_columns = foldl (\<lambda>m (name, w). m(name \<mapsto> kw_build w)) Map.empty (sb_keyword sb),
      numeric_columns = foldl (\<lambda>m (name, w). m(name \<mapsto> nw_build w)) Map.empty (sb_numeric sb)\<rparr>"

definition segment_write ::
  "index_env \<Rightarrow> index_schema \<Rightarrow> string \<Rightarrow> document list \<Rightarrow> dir \<Rightarrow> dir io_result" where
  "segment_write env schema segment_id docs d =
     (let tas = text_analyzers schema;
          doc_lengths = map (doc_length (ie_text env) tas) docs;
          avgdl = average_length doc_lengths;
          sb = segment_build (ie_text env) schema docs
      in res_bind (iw_write (ie_fst env) avgdl (sb_inverted sb) d) (\<lambda>(iw, d).
         res_bind (columns_write env (builder_columns sb) d) (\<lambda>d.
         res_bind (dw_write (ie_doc env) (sb_docs sb) d) (\<lambda>d.
           meta_write env \<lparr>m_doc_count = word_of_nat (length docs), m_term_count = iw_term_count iw,
                           m_segment_id = segment_id\<rparr> d))))"

section \<open>Reading a segment\<close>

record segment_reader =
  sr_dir :: string
  sr_meta :: segment_meta
  sr_inverted :: inverted_reader
  sr_columns :: column_store
  sr_docs :: docstore_reader

definition segment_open ::
  "index_env \<Rightarrow> string \<Rightarrow> dir \<Rightarrow> segment_reader io_result option" where
  "segment_open env path d =
     (case meta_read env d of Inl e \<Rightarrow> Some (Inl e) | Inr meta \<Rightarrow>
      (case ir_open (ie_fst env) d of Inl e \<Rightarrow> Some (Inl e) | Inr inverted \<Rightarrow>
      (case columns_read env d of Inl e \<Rightarrow> Some (Inl e) | Inr columns \<Rightarrow>
      (case dr_open (ie_bitmap env) d of None \<Rightarrow> None | Some (Inl e) \<Rightarrow> Some (Inl e)
       | Some (Inr docs) \<Rightarrow>
           Some (Inr \<lparr>sr_dir = path, sr_meta = meta, sr_inverted = inverted, sr_columns = columns,
                      sr_docs = docs\<rparr>)))))"

definition sr_deletions :: "segment_reader \<Rightarrow> bitmap" where
  "sr_deletions r = dr_deletion_bitmap (sr_docs r)"

definition retain_live :: "segment_reader \<Rightarrow> posting_list \<Rightarrow> posting_list" where
  "retain_live r pl =
     (let deletions = sr_deletions r
      in if deletions \<noteq> {} then pl\<lparr>postings := filter (\<lambda>p. p_doc_id p \<notin> deletions) (postings pl)\<rparr>
         else pl)"

definition search_term :: "segment_reader \<Rightarrow> string \<Rightarrow> posting_list option option" where
  "search_term r t = map_option (map_option (retain_live r)) (get_postings (sr_inverted r) t)"

definition prefix_search_term :: "segment_reader \<Rightarrow> string \<Rightarrow> (string \<times> posting_list) list option" where
  "prefix_search_term r pre =
     map_option (map (\<lambda>(t, pl). (t, retain_live r pl))) (ir_prefix_search (sr_inverted r) pre)"

definition fuzzy_search_term ::
  "index_env \<Rightarrow> segment_reader \<Rightarrow> string \<Rightarrow> u32 \<Rightarrow> (string \<times> posting_list) list option" where
  "fuzzy_search_term env r t max_distance =
     map_option (\<lambda>res. filter (\<lambda>(t, pl). \<not> pl_is_empty pl) (map (\<lambda>(t, pl). (t, retain_live r pl)) res))
       (ir_fuzzy_search (ie_levenshtein env) (sr_inverted r) t max_distance)"

definition get_doc :: "index_env \<Rightarrow> segment_reader \<Rightarrow> u32 \<Rightarrow> document option option" where
  "get_doc env r local_doc_id = dr_get (ie_doc env) (sr_docs r) local_doc_id"

definition filter_eq :: "segment_reader \<Rightarrow> string \<Rightarrow> string \<Rightarrow> bitmap" where
  "filter_eq r field value = cs_filter_eq (sr_columns r) field value - sr_deletions r"

definition filter_range :: "segment_reader \<Rightarrow> string \<Rightarrow> f64 option \<Rightarrow> f64 option \<Rightarrow> bitmap" where
  "filter_range r field gte lte = cs_filter_range (sr_columns r) field gte lte - sr_deletions r"

definition filter_in :: "segment_reader \<Rightarrow> string \<Rightarrow> string list \<Rightarrow> bitmap" where
  "filter_in r field vals = cs_filter_in (sr_columns r) field vals - sr_deletions r"

definition aggregate_counts :: "segment_reader \<Rightarrow> string \<Rightarrow> bitmap \<Rightarrow> (string \<times> u64) list" where
  "aggregate_counts r field matching_docs = cs_aggregate_counts (sr_columns r) field matching_docs"

definition all_live_docs :: "segment_reader \<Rightarrow> bitmap" where
  "all_live_docs r = set (map word_of_nat [0..<unat (m_doc_count (sr_meta r))]) - sr_deletions r"

section \<open>What a written segment holds\<close>

text \<open>The terms of a document, and the occurrences a batch of documents feeds to the index.\<close>

definition doc_terms :: "text_env \<Rightarrow> index_schema \<Rightarrow> document \<Rightarrow> string list" where
  "doc_terms env schema doc =
     concat (map (\<lambda>(name, a, boost).
       case field_text name doc of None \<Rightarrow> [] | Some txt \<Rightarrow> map t_text (analyze env a txt))
       (text_analyzers schema))"

definition occurrences_from ::
  "text_env \<Rightarrow> index_schema \<Rightarrow> u16 list \<Rightarrow> document list \<Rightarrow> occurrence list" where
  "occurrences_from env schema lens docs =
     concat (map (\<lambda>(i, doc). map (\<lambda>t. (t, word_of_nat i, lens ! i)) (doc_terms env schema doc))
       (List.enumerate 0 docs))"

definition feed_from :: "inverted_writer \<Rightarrow> occurrence list \<Rightarrow> inverted_writer" where
  "feed_from w os = foldl (\<lambda>w (t, d, l). add_term t d l w) w os"

lemma feed_from_append [simp]: "feed_from w (os @ os') = feed_from (feed_from w os) os'"
  by (simp add: feed_from_def)

lemma feed_from_Nil [simp]: "feed_from w [] = w"
  by (simp add: feed_from_def)

lemma index_tokens:
  "foldl (\<lambda>iw token. add_term (t_text token) i l iw) iw toks =
     feed_from iw (map (\<lambda>t. (t, i, l)) (map t_text toks))"
  by (induction toks arbitrary: iw) (simp_all add: feed_from_def)

lemma index_text_feed:
  "index_text env (text_analyzers schema) i l doc iw =
     feed_from iw (map (\<lambda>t. (t, i, l)) (doc_terms env schema doc))"
proof -
  have "index_text env tas i l doc iw =
      feed_from iw (map (\<lambda>t. (t, i, l)) (concat (map (\<lambda>(name, a, boost).
        case field_text name doc of None \<Rightarrow> [] | Some txt \<Rightarrow> map t_text (analyze env a txt)) tas)))" for tas
    by (induction tas arbitrary: iw)
      (auto simp: index_text_def index_tokens simp del: map_map split: option.splits)
  then show ?thesis by (simp add: doc_terms_def)
qed

text \<open>The builder after any prefix of the batch.\<close>

lemma segment_build_eq:
  "foldl (index_doc env (text_analyzers schema) lens)
     \<lparr>sb_inverted = iw_new, sb_keyword = map (\<lambda>n. (n, kw_new)) kns,
      sb_numeric = map (\<lambda>n. (n, nw_new)) nns, sb_docs = dw_new\<rparr> (List.enumerate 0 docs) =
   \<lparr>sb_inverted = feed (occurrences_from env schema lens docs),
    sb_keyword = map (\<lambda>n. (n, kw_run (map (keyword_value n) docs))) kns,
    sb_numeric = map (\<lambda>n. (n, nw_run (map (numeric_value n) docs))) nns,
    sb_docs = \<lparr>dw_docs = docs\<rparr>\<rparr>"
proof (induction docs rule: rev_induct)
  case Nil
  then show ?case
    by (simp add: occurrences_from_def feed_def kw_run_def nw_run_def dw_new_def)
next
  case (snoc doc docs)
  have "feed (occurrences_from env schema lens (docs @ [doc])) =
      feed_from (feed (occurrences_from env schema lens docs))
        (map (\<lambda>t. (t, word_of_nat (length docs), lens ! length docs)) (doc_terms env schema doc))"
    by (simp add: occurrences_from_def enumerate_append_eq feed_def feed_from_def)
  then show ?case
    using snoc
    by (simp add: enumerate_append_eq index_doc_def Let_def index_text_feed kw_run_def nw_run_def dw_add_def)
qed

definition segment_occurrences :: "text_env \<Rightarrow> index_schema \<Rightarrow> document list \<Rightarrow> occurrence list" where
  "segment_occurrences env schema docs =
     occurrences_from env schema (map (doc_length env (text_analyzers schema)) docs) docs"

definition segment_avgdl :: "text_env \<Rightarrow> index_schema \<Rightarrow> document list \<Rightarrow> f32" where
  "segment_avgdl env schema docs =
     average_length (map (doc_length env (text_analyzers schema)) docs)"

definition segment_columns :: "index_schema \<Rightarrow> document list \<Rightarrow> column_store" where
  "segment_columns schema docs =
     \<lparr>keyword_columns = (\<lambda>n. if n \<in> set (keyword_fields schema)
        then Some (kw_build (kw_run (map (keyword_value n) docs))) else None),
      numeric_columns = (\<lambda>n. if n \<in> set (numeric_fields schema)
        then Some (nw_build (nw_run (map (numeric_value n) docs))) else None)\<rparr>"

lemma foldl_map_upd:
  "foldl (\<lambda>m (n, w). m(n \<mapsto> f w)) m0 (map (\<lambda>n. (n, g n)) ns) =
     (\<lambda>n. if n \<in> set ns then Some (f (g n)) else m0 n)"
  by (induction ns arbitrary: m0) auto

lemma segment_build_columns:
  "builder_columns (segment_build env schema docs) = segment_columns schema docs"
  by (simp add: builder_columns_def segment_build_def segment_build_eq Let_def foldl_map_upd
      segment_columns_def)

lemma occurrences_in_order:
  assumes "length docs \<le> 2 ^ 32"
  shows "docs_in_order (occurrences_from env schema lens docs)"
  using assms
proof (induction docs rule: rev_induct)
  case Nil
  then show ?case by (simp add: occurrences_from_def docs_in_order_def)
next
  case (snoc doc docs)
  have "unat (word_of_nat i :: u32) = i" if "i \<le> length docs" for i
    using that snoc.prems by (simp add: unat_of_nat)
  then have "fst (snd x) \<le> word_of_nat (length docs)"
    if "x \<in> set (occurrences_from env schema lens docs)" for x
    using that by (force simp: occurrences_from_def in_set_enumerate_eq word_le_nat_alt)
  then show ?case
    using snoc by (auto simp: docs_in_order_def occurrences_from_def enumerate_append_eq sorted_wrt_append
        sorted_wrt_map)
qed

lemma occurrences_append: "occurrences (os @ os') t d = occurrences os t d + occurrences os' t d"
  by (simp add: occurrences_def)

lemma occurrences_one_doc:
  "occurrences (map (\<lambda>t. (t, d', l)) ts) t d =
     (if d' = d then length (filter (\<lambda>t'. t' = t) ts) else 0)"
  by (induction ts) (auto simp: occurrences_def)

lemma occurrences_from_count:
  assumes "length docs \<le> 2 ^ 32"
  shows "occurrences (occurrences_from env schema lens docs) t d =
    (if unat d < length docs then length (filter (\<lambda>t'. t' = t) (doc_terms env schema (docs ! unat d))) else 0)"
  using assms
proof (induction docs rule: rev_induct)
  case Nil
  then show ?case by (simp add: occurrences_from_def occurrences_def)
next
  case (snoc doc docs)
  have "unat (word_of_nat (length docs) :: u32) = length docs"
    using snoc.prems by (simp add: unat_of_nat)
  then have d: "word_of_nat (length docs) = d \<longleftrightarrow> unat d = length docs"
    by (auto simp: word_unat_eq_iff)
  have "occurrences (occurrences_from env schema lens (docs @ [doc])) t d =
      occurrences (occurrences_from env schema lens docs) t d +
      (if unat d = length docs then length (filter (\<lambda>t'. t' = t) (doc_terms env schema doc)) else 0)"
    by (simp add: occurrences_from_def enumerate_append_eq occurrences_append occurrences_one_doc d)
  then show ?case using snoc by (auto simp: nth_append)
qed

text \<open>
  The size bounds and round trips of the byte formats under which a batch can be written: what
  the formats document, for the values this batch hands to them.
\<close>

definition segment_meta_of :: "text_env \<Rightarrow> index_schema \<Rightarrow> string \<Rightarrow> document list \<Rightarrow> segment_meta" where
  "segment_meta_of env schema segment_id docs =
     \<lparr>m_doc_count = word_of_nat (length docs),
      m_term_count = iw_term_count (feed (segment_occurrences env schema docs)),
      m_segment_id = segment_id\<rparr>"

definition segment_fits :: "index_env \<Rightarrow> index_schema \<Rightarrow> string \<Rightarrow> document list \<Rightarrow> bool" where
  "segment_fits env schema segment_id docs \<longleftrightarrow>
     (let te = ie_text env; m = term_postings (feed (segment_occurrences te schema docs));
          avgdl = segment_avgdl te schema docs
      in codec_ok (ie_meta env) (segment_meta_of te schema segment_id docs) \<and>
         codec_ok (ie_columns env) (segment_columns schema docs) \<and>
         codec_ok (ie_fst env) (term_keys avgdl m) \<and> terms_fit avgdl m \<and>
         docs_fit (ie_doc env) docs \<and> length docs < 2 ^ 32 - 1)"

definition segment_of ::
  "index_env \<Rightarrow> index_schema \<Rightarrow> string \<Rightarrow> document list \<Rightarrow> string \<Rightarrow> bitmap \<Rightarrow> segment_reader" where
  "segment_of env schema segment_id docs path deleted =
     \<lparr>sr_dir = path, sr_meta = segment_meta_of (ie_text env) schema segment_id docs,
      sr_inverted = ir_of (segment_avgdl (ie_text env) schema docs)
        (term_postings (feed (segment_occurrences (ie_text env) schema docs))),
      sr_columns = segment_columns schema docs,
      sr_docs = reader_of (ie_doc env) docs deleted\<rparr>"

text \<open>The files of a written segment, whatever its deletion bitmap.\<close>

definition segment_files :: "index_env \<Rightarrow> index_schema \<Rightarrow> string \<Rightarrow> document list \<Rightarrow> dir \<Rightarrow> bool" where
  "segment_files env schema segment_id docs d \<longleftrightarrow>
     (let te = ie_text env
      in meta_read env d = Inr (segment_meta_of te schema segment_id docs) \<and>
         ir_open (ie_fst env) d = Inr (ir_of (segment_avgdl te schema docs)
           (term_postings (feed (segment_occurrences te schema docs)))) \<and>
         columns_read env d = Inr (segment_columns schema docs) \<and>
         fs_read d ''docs.bin'' = Inr (docs_file (ie_doc env) docs))"

lemma segment_write_files:
  assumes fit: "segment_fits env schema segment_id docs"
  shows "\<exists>d'. segment_write env schema segment_id docs d = Inr d' \<and>
    segment_files env schema segment_id docs d' \<and> d' ''deletions.bin'' = d ''deletions.bin''"
proof -
  let ?te = "ie_text env"
  let ?w = "feed (segment_occurrences ?te schema docs)" and ?av = "segment_avgdl ?te schema docs"
  let ?meta = "segment_meta_of ?te schema segment_id docs" and ?cols = "segment_columns schema docs"
  have ok: "codec_ok (ie_meta env) ?meta" "codec_ok (ie_columns env) ?cols"
    "codec_ok (ie_fst env) (term_keys ?av (term_postings ?w))" "docs_fit (ie_doc env) docs"
    using fit by (simp_all add: segment_fits_def Let_def)
  obtain w' d1 where d1: "iw_write (ie_fst env) ?av ?w d = Inr (w', d1)"
    "iw_term_count w' = iw_term_count ?w" "ir_open (ie_fst env) d1 = Inr (ir_of ?av (term_postings ?w))"
    "\<forall>name. name \<notin> {''inverted.fst'', ''inverted.post''} \<longrightarrow> d1 name = d name"
    using iw_write_open [OF ok(3), of d] by blast
  define d2 where "d2 = fs_write d1 ''columns.bin'' (encoding (ie_columns env) ?cols)"
  define d3 where "d3 = fs_write d2 ''docs.bin'' (docs_file (ie_doc env) docs)"
  define d4 where "d4 = fs_write d3 ''meta.json'' (encoding (ie_meta env) ?meta)"
  have sb: "segment_build ?te schema docs = \<lparr>sb_inverted = ?w,
      sb_keyword = map (\<lambda>n. (n, kw_run (map (keyword_value n) docs))) (keyword_fields schema),
      sb_numeric = map (\<lambda>n. (n, nw_run (map (numeric_value n) docs))) (numeric_fields schema),
      sb_docs = \<lparr>dw_docs = docs\<rparr>\<rparr>"
    by (simp add: segment_build_def segment_build_eq Let_def segment_occurrences_def)
  have "dw_write (ie_doc env) \<lparr>dw_docs = docs\<rparr> d2 = Inr d3"
    using ok(4) by (simp add: d3_def dw_write_ok docs_fit_def)
  moreover have "columns_write env (builder_columns (segment_build ?te schema docs)) d1 = Inr d2"
    using codec_okD(1) [OF ok(2)] by (simp add: segment_build_columns columns_write_def d2_def)
  moreover have "meta_write env ?meta d3 = Inr d4"
    using codec_okD(1) [OF ok(1)] by (simp add: meta_write_def d4_def)
  moreover have "average_length (map (doc_length ?te (text_analyzers schema)) docs) = ?av"
    by (simp add: segment_avgdl_def)
  ultimately have w: "segment_write env schema segment_id docs d = Inr d4"
    using d1(1,2) by (simp add: segment_write_def Let_def sb segment_meta_of_def)
  have "ir_open (ie_fst env) d4 = ir_open (ie_fst env) d1"
    by (simp add: ir_open_def d4_def d3_def d2_def)
  then have "segment_files env schema segment_id docs d4"
    using d1(3) codec_okD(2) [OF ok(1)] codec_okD(2) [OF ok(2)]
    by (simp add: segment_files_def Let_def meta_read_def columns_read_def d4_def) (simp add: d3_def d2_def)
  moreover have "d4 ''deletions.bin'' = d ''deletions.bin''"
    using d1(4) by (simp add: d4_def d3_def d2_def)
  ultimately show ?thesis using w by blast
qed

lemma segment_files_open:
  assumes "segment_fits env schema segment_id docs" "segment_files env schema segment_id docs d"
    and "load_deletion_bitmap (ie_bitmap env) d = Inr deleted"
  shows "segment_open env path d = Some (Inr (segment_of env schema segment_id docs path deleted))"
proof -
  have "docs_fit (ie_doc env) docs" using assms(1) by (simp add: segment_fits_def Let_def)
  then show ?thesis
    using assms(2,3) dr_open_written
    by (simp add: segment_open_def segment_of_def segment_files_def Let_def)
qed

lemma segment_write_open:
  assumes fit: "segment_fits env schema segment_id docs"
    and del: "load_deletion_bitmap (ie_bitmap env) d = Inr deleted"
  shows "\<exists>d'. segment_write env schema segment_id docs d = Inr d' \<and>
    segment_open env path d' = Some (Inr (segment_of env schema segment_id docs path deleted))"
proof -
  obtain d' where d': "segment_write env schema segment_id docs d = Inr d'"
    "segment_files env schema segment_id docs d'" "d' ''deletions.bin'' = d ''deletions.bin''"
    using segment_write_files [OF fit, of d] by blast
  then show ?thesis
    using segment_files_open [OF fit d'(2)] del load_deletion_bitmap_cong [of d' d "ie_bitmap env"] d'(3) by auto
qed

text \<open>Marking a document as deleted changes the bitmap and no other file.\<close>

lemma segment_files_mark:
  assumes "segment_files env schema segment_id docs d"
    and "load_deletion_bitmap (ie_bitmap env) d = Inr deleted"
    and "codec_ok (ie_bitmap env) (insert lid deleted)"
  shows "\<exists>d'. deletion_mark (ie_bitmap env) d lid = Inr (insert lid deleted, d') \<and>
    segment_files env schema segment_id docs d' \<and>
    load_deletion_bitmap (ie_bitmap env) d' = Inr (insert lid deleted)"
proof -
  note m = deletion_mark_run [OF assms(2,3)]
  show ?thesis
    using m assms(1)
    by (intro exI [of _ "fs_write d ''deletions.bin'' (encoding (ie_bitmap env) (insert lid deleted))"])
      (simp add: segment_files_def Let_def meta_read_def ir_open_def columns_read_def)
qed

section \<open>Reading back\<close>

lemma sr_deletions_segment_of [simp]: "sr_deletions (segment_of env schema sid docs path deleted) = deleted"
  by (simp add: sr_deletions_def segment_of_def reader_of_def)

lemma retain_live_postings:
  "postings (retain_live r pl) = filter (\<lambda>p. p_doc_id p \<notin> sr_deletions r) (postings pl)"
  by (simp add: retain_live_def Let_def)

lemma occurrences_from_terms:
  "fst ` set (occurrences_from env schema lens docs) = (\<Union>doc \<in> set docs. set (doc_terms env schema doc))"
  by (induction docs rule: rev_induct)
    (simp_all add: occurrences_from_def enumerate_append_eq image_Un image_image Un_commute)

lemma search_term_segment:
  assumes fit: "segment_fits env schema sid docs"
  shows "search_term (segment_of env schema sid docs path deleted) t =
    Some (if t \<in> (\<Union>doc \<in> set docs. set (doc_terms (ie_text env) schema doc))
      then Some (retain_live (segment_of env schema sid docs path deleted)
        (rebuild_blocks (segment_avgdl (ie_text env) schema docs)
          (term_list (segment_occurrences (ie_text env) schema docs) t)))
      else None)"
proof -
  let ?te = "ie_text env"
  let ?os = "segment_occurrences ?te schema docs"
  have "fst ` set ?os = (\<Union>doc \<in> set docs. set (doc_terms ?te schema doc))"
    unfolding segment_occurrences_def by (rule occurrences_from_terms)
  then have "map_of (term_postings (feed ?os)) t =
      (if t \<in> (\<Union>doc \<in> set docs. set (doc_terms ?te schema doc)) then Some (term_list ?os t) else None)"
    using feed_lookup [of ?os t] by simp
  moreover have "om_wf (term_postings (feed ?os))" using feed_lookup by blast
  moreover have "terms_fit (segment_avgdl ?te schema docs) (term_postings (feed ?os))"
    using fit by (simp add: segment_fits_def Let_def)
  ultimately show ?thesis
    by (simp add: search_term_def segment_of_def get_postings_written)
qed

lemma term_list_docs:
  assumes "length docs < 2 ^ 32 - 1"
  shows "ids_ascending (postings (term_list (segment_occurrences env schema docs) t))"
    and "p_doc_id ` set (postings (term_list (segment_occurrences env schema docs) t)) =
      {d. unat d < length docs \<and> t \<in> set (doc_terms env schema (docs ! unat d))}"
    and "p \<in> set (postings (term_list (segment_occurrences env schema docs) t)) \<Longrightarrow>
      unat (p_term_freq p) =
        min 255 (length (filter (\<lambda>t'. t' = t) (doc_terms env schema (docs ! unat (p_doc_id p)))))"
proof -
  let ?os = "segment_occurrences env schema docs"
  have le: "length docs \<le> 2 ^ 32" using assms by simp
  have inv: "merge_inv (term_occurrences ?os t) (postings (term_list ?os t))"
    by (rule term_list_inv) (simp add: segment_occurrences_def occurrences_in_order [OF le])
  have cnt: "occurrences ?os t d =
      (if unat d < length docs then length (filter (\<lambda>t'. t' = t) (doc_terms env schema (docs ! unat d))) else 0)" for d
    unfolding segment_occurrences_def by (rule occurrences_from_count [OF le])
  have docs: "p_doc_id ` set (term_occurrences ?os t) = {d. 0 < occurrences ?os t d}"
    by (force simp: term_occurrences_def occurrences_pos)
  show "ids_ascending (postings (term_list ?os t))"
    using inv by (simp add: merge_inv_def)
  show ids: "p_doc_id ` set (postings (term_list ?os t)) =
      {d. unat d < length docs \<and> t \<in> set (doc_terms env schema (docs ! unat d))}"
    using inv unfolding merge_inv_def docs by (auto simp: cnt filter_empty_conv)
  show "unat (p_term_freq p) =
        min 255 (length (filter (\<lambda>t'. t' = t) (doc_terms env schema (docs ! unat (p_doc_id p)))))"
    if "p \<in> set (postings (term_list ?os t))"
  proof -
    have "p_doc_id p \<in> {d. unat d < length docs \<and> t \<in> set (doc_terms env schema (docs ! unat d))}"
      using that ids by blast
    then show ?thesis
      using inv that unfolding merge_inv_def tf_total_occurrences by (auto simp: cnt)
  qed
qed

lemma word_image_less:
  assumes "n < 2 ^ 32"
  shows "word_of_nat ` {i. i < n \<and> P i} = {d :: u32. unat d < n \<and> P (unat d)}"
proof -
  have "unat (word_of_nat i :: u32) = i" if "i < n" for i
    using that assms by (simp add: unat_of_nat)
  then show ?thesis
    by (auto intro!: image_eqI [where x = "unat d" for d])
qed

lemma filter_eq_segment:
  assumes "segment_fits env schema sid docs" "name \<in> set (keyword_fields schema)"
  shows "filter_eq (segment_of env schema sid docs path deleted) name v =
    {d. unat d < length docs \<and> keyword_value name (docs ! unat d) = Some v} - deleted"
proof -
  let ?vals = "map (keyword_value name) docs"
  have f: "keyword_field (segment_columns schema docs) name ?vals" and n: "length ?vals < 2 ^ 32 - 1"
    using assms by (simp_all add: keyword_field_def segment_columns_def segment_fits_def Let_def)
  have "cs_filter_eq (segment_columns schema docs) name v =
      word_of_nat ` {i. i < length ?vals \<and> (\<exists>s \<in> set [v]. ?vals ! i = Some s)}"
    unfolding cs_filter_eq_in [OF f] cs_filter_in_exact [OF f n] insert_where_alt by (rule refl)
  also have "\<dots> = word_of_nat ` {i. i < length docs \<and> keyword_value name (docs ! i) = Some v}"
    by (rule arg_cong [where f = "image word_of_nat"]) auto
  also have "\<dots> = {d. unat d < length docs \<and> keyword_value name (docs ! unat d) = Some v}"
    using n by (intro word_image_less) simp
  finally show ?thesis
    by (simp add: filter_eq_def) (simp add: segment_of_def)
qed

section \<open>Properties\<close>

text \<open>
  C17: a segment written from a batch of documents opens again, and searching it is searching the
  documents: a term has a posting list exactly when some document contains it, the list names, in
  ascending order, exactly the documents that contain it with its number of occurrences capped at
  255; reading a document back gives the document written; and an equality filter on a keyword
  field of the schema returns exactly the documents with that value.
\<close>
theorem segment_roundtrip:
  assumes "segment_fits env schema sid docs" "load_deletion_bitmap (ie_bitmap env) d = Inr {}"
  shows "\<exists>d' r. segment_write env schema sid docs d = Inr d' \<and> segment_open env path d' = Some (Inr r) \<and>
    (\<forall>t. (search_term r t = Some None \<and>
          (\<forall>doc \<in> set docs. t \<notin> set (doc_terms (ie_text env) schema doc))) \<or>
       (\<exists>pl. search_term r t = Some (Some pl) \<and> ids_ascending (postings pl) \<and>
          p_doc_id ` set (postings pl) =
            {i. unat i < length docs \<and> t \<in> set (doc_terms (ie_text env) schema (docs ! unat i))} \<and>
          (\<forall>p \<in> set (postings pl). unat (p_term_freq p) = min 255
             (length (filter (\<lambda>t'. t' = t) (doc_terms (ie_text env) schema (docs ! unat (p_doc_id p)))))))) \<and>
    (\<forall>i. get_doc env r i = Some (if unat i < length docs then Some (docs ! unat i) else None)) \<and>
    (\<forall>name \<in> set (keyword_fields schema). \<forall>v. filter_eq r name v =
       {i. unat i < length docs \<and> keyword_value name (docs ! unat i) = Some v})"
proof -
  let ?r = "segment_of env schema sid docs path {}" and ?te = "ie_text env"
  let ?L = "\<lambda>t. term_list (segment_occurrences ?te schema docs) t"
  obtain d' where d': "segment_write env schema sid docs d = Inr d'" "segment_open env path d' = Some (Inr ?r)"
    using segment_write_open [OF assms] by blast
  have n: "length docs < 2 ^ 32 - 1" and fit: "docs_fit (ie_doc env) docs"
    using assms(1) by (simp_all add: segment_fits_def Let_def)
  have live: "postings (retain_live ?r (rebuild_blocks av pl)) = postings pl" for av pl
    by (simp add: retain_live_postings rebuild_blocks_def)
  have none: "search_term ?r t = Some None" if "\<forall>doc \<in> set docs. t \<notin> set (doc_terms ?te schema doc)" for t
    using that by (simp add: search_term_segment [OF assms(1)])
  have some: "\<exists>pl. search_term ?r t = Some (Some pl) \<and> postings pl = postings (?L t)"
    if "\<not> (\<forall>doc \<in> set docs. t \<notin> set (doc_terms ?te schema doc))" for t
    using that live by (auto simp: search_term_segment [OF assms(1)])
  have docs: "get_doc env ?r i = Some (if unat i < length docs then Some (docs ! unat i) else None)" for i
    using dr_get_any [OF fit, of "{}" i] by (simp add: get_doc_def segment_of_def)
  have "(search_term ?r t = Some None \<and> (\<forall>doc \<in> set docs. t \<notin> set (doc_terms ?te schema doc))) \<or>
       (\<exists>pl. search_term ?r t = Some (Some pl) \<and> ids_ascending (postings pl) \<and>
          p_doc_id ` set (postings pl) =
            {i. unat i < length docs \<and> t \<in> set (doc_terms ?te schema (docs ! unat i))} \<and>
          (\<forall>p \<in> set (postings pl). unat (p_term_freq p) = min 255
             (length (filter (\<lambda>t'. t' = t) (doc_terms ?te schema (docs ! unat (p_doc_id p)))))))" for t
  proof (cases "\<forall>doc \<in> set docs. t \<notin> set (doc_terms ?te schema doc)")
    case True
    then show ?thesis using none by blast
  next
    case False
    then obtain pl where pl: "search_term ?r t = Some (Some pl)" "postings pl = postings (?L t)"
      using some by blast
    show ?thesis
      by (intro disjI2 exI [of _ pl] conjI ballI; (simp only: pl)?)
        (rule term_list_docs [OF n] | assumption)+
  qed
  then show ?thesis
    using d' docs filter_eq_segment [OF assms(1), of _ path "{}"] by (intro exI conjI) auto
qed

text \<open>Codecs for segments of at most one document; the one for the metadata is general.\<close>

definition example_meta_codec :: "segment_meta codec" where
  "example_meta_codec =
     \<lparr>ser = (\<lambda>m. Inr (u32_le (m_doc_count m) @ replicate (m_term_count m) 1 @ [0] @
         map (\<lambda>c. word_of_nat (of_char c)) (m_segment_id m))),
      de = (\<lambda>data. Inr \<lparr>m_doc_count = u32_from_le (take 4 data), m_term_count = length (takeWhile ((=) 1) (drop 4 data)),
         m_segment_id = map (\<lambda>b. char_of (unat b)) (tl (dropWhile ((=) 1) (drop 4 data)))\<rparr>)\<rparr>"

lemma char_byte: "char_of (unat (word_of_nat (of_char c) :: u8)) = c"
  using of_char_of [of "of_char c :: nat"] nat_of_char_less_256 [of c] by (simp add: unat_of_nat)

definition example_env :: index_env where
  "example_env =
     \<lparr>ie_text = \<lparr>unicode_word_indices = (\<lambda>s. if s = [] then [] else [(0, s)]),
                is_alphanumeric = (\<lambda>c. True), to_lowercase = (\<lambda>w. w), stem = (\<lambda>l w. w)\<rparr>,
      ie_meta = example_meta_codec,
      ie_fst = \<lparr>ser = (\<lambda>x. Inr (if x = [] then [] else [1])),
                de = (\<lambda>x. Inr (if x = [] then [] else [(''title'', 0)]))\<rparr>,
      ie_doc = example_doc_codec, ie_bitmap = example_bitmap_codec,
      ie_columns = \<lparr>ser = (\<lambda>x. Inr (if x = segment_columns default_product_schema [] then [] else [1])),
                de = (\<lambda>x. Inr (segment_columns default_product_schema (if x = [] then [] else [example_doc 7])))\<rparr>,
      ie_levenshtein = (\<lambda>t n. None)\<rparr>"

lemma example_terms:
  "doc_terms (ie_text example_env) default_product_schema (example_doc 7) = [''title'']"
  by (simp add: doc_terms_def text_analyzers_def default_product_schema_def field_text_def example_doc_def
      analyze_def standard_analyzer_def example_env_def trimmed_start_def trimmed_end_def chars_def
      char_indices_def utf8_len_def Let_def)

lemma example_meta_ok: "codec_ok (ie_meta example_env) m"
proof -
  have "takeWhile ((=) 1) (replicate n (1 :: u8) @ 0 # xs) = replicate n 1"
    "dropWhile ((=) 1) (replicate n (1 :: u8) @ 0 # xs) = 0 # xs" for n xs
    by (induction n) simp_all
  then show ?thesis
    by (simp add: codec_ok_def example_env_def example_meta_codec_def comp_def char_byte)
qed

lemma example_segment_fits: "segment_fits example_env default_product_schema sid [example_doc 7]"
proof -
  let ?os = "segment_occurrences (ie_text example_env) default_product_schema [example_doc 7]"
  obtain l where os: "?os = [(''title'', 0, l)]"
    by (simp add: segment_occurrences_def occurrences_from_def example_terms)
  then have tp: "term_postings (feed ?os) = [(''title'', pl_add pl_new 0 1 l)]"
    by (simp add: feed_def add_term_def iw_new_def occur_def pl_new_def)
  have "terms_fit av (term_postings (feed ?os))" for av
    by (rule terms_fitI) (simp add: tp pl_add_def pl_new_def)
  moreover have "docs_fit (ie_doc example_env) [example_doc 7]"
    using example_docs_fit by (simp add: docs_fit_def example_env_def)
  moreover have "term_keys av (term_postings (feed ?os)) = [(''title'', 0)]" for av
    unfolding tp by (simp add: term_keys_def term_offset_def)
  then have "codec_ok (ie_fst example_env) (term_keys av (term_postings (feed ?os)))" for av
    by (simp only:) (simp add: codec_ok_def example_env_def)
  moreover have "codec_ok (ie_columns example_env) (segment_columns default_product_schema [example_doc 7])"
    by (simp add: codec_ok_def example_env_def)
  ultimately show ?thesis by (simp add: segment_fits_def Let_def example_meta_ok)
qed

lemma example_segment_fits_Nil: "segment_fits example_env default_product_schema sid []"
proof -
  have "segment_occurrences te default_product_schema [] = []" for te
    by (simp add: segment_occurrences_def occurrences_from_def)
  then have tp: "term_postings (feed (segment_occurrences te default_product_schema [])) = []" for te
    by (simp add: feed_def iw_new_def)
  have "terms_fit av []" for av by (rule terms_fitI) simp
  moreover have "codec_ok (ie_fst example_env) []" by (simp add: codec_ok_def example_env_def)
  moreover have "codec_ok (ie_columns example_env) (segment_columns default_product_schema [])"
    by (simp add: codec_ok_def example_env_def)
  ultimately show ?thesis
    by (simp add: segment_fits_def Let_def example_meta_ok tp term_keys_def docs_fit_def)
qed

theorem segment_roundtrip_witness:
  "\<exists>d' r. segment_write example_env default_product_schema ''s'' [example_doc 7] Map.empty = Inr d' \<and>
    segment_open example_env ''seg'' d' = Some (Inr r) \<and>
    (\<exists>pl. search_term r ''title'' = Some (Some pl) \<and> p_doc_id ` set (postings pl) = {0})"
proof -
  have "load_deletion_bitmap (ie_bitmap example_env) Map.empty = Inr {}"
    by (simp add: load_deletion_bitmap_def fs_exists_def)
  note * = segment_roundtrip [OF example_segment_fits [of "''s''"] this, of "''seg''"]
  have "{i :: u32. unat i < 1 \<and> ''title'' \<in> set (doc_terms (ie_text example_env) default_product_schema
      ([example_doc 7] ! unat i))} = {0}"
    by (auto simp: example_terms word_unat_eq_iff)
  with * example_terms show ?thesis by fastforce
qed

text \<open>
  No read path of a segment returns a deleted document: not the exact, prefix and fuzzy term
  searches, not the three filters, not the set of live documents, not the retrieval by number.
\<close>
theorem segment_hides_deleted:
  assumes "i \<in> sr_deletions r"
  shows "(search_term r t = Some (Some pl) \<longrightarrow> i \<notin> p_doc_id ` set (postings pl)) \<and>
    (prefix_search_term r pre = Some res \<longrightarrow> (\<forall>(t, pl) \<in> set res. i \<notin> p_doc_id ` set (postings pl))) \<and>
    (fuzzy_search_term env r t n = Some res \<longrightarrow> (\<forall>(t, pl) \<in> set res. i \<notin> p_doc_id ` set (postings pl))) \<and>
    i \<notin> filter_eq r field v \<and> i \<notin> filter_in r field vs \<and> i \<notin> filter_range r field lo hi \<and>
    i \<notin> all_live_docs r \<and> get_doc env r i = Some None"
proof -
  have live: "i \<notin> p_doc_id ` set (postings (retain_live r pl))" for pl
    using assms by (auto simp: retain_live_postings)
  then show ?thesis
    using assms
    by (fastforce simp: search_term_def prefix_search_term_def fuzzy_search_term_def filter_eq_def
        filter_in_def filter_range_def all_live_docs_def get_doc_def dr_get_def sr_deletions_def)
qed

theorem segment_hides_deleted_witness:
  "1 \<notin> all_live_docs (segment_of example_env default_product_schema ''s'' [example_doc 7, example_doc 9] ''p'' {1})"
  using segment_hides_deleted [of 1
      "segment_of example_env default_product_schema ''s'' [example_doc 7, example_doc 9] ''p'' {1}"] by simp

end
