(* ===== verification/Understanding.thy ===== *)
theory Understanding
  imports Segment
begin

text \<open>
  \<open>crates/query/src/understanding.rs\<close>: the query understanding pipeline.  The log of
  transformations is kept, with an ASCII arrow in place of the code's arrow character.
\<close>

datatype boolean_mode = BoolAnd | BoolOrFallback

record parsed_query =
  pq_original :: string
  pq_tokens :: "string list"
  pq_language :: language_id
  pq_boolean_mode :: boolean_mode
  pq_transformations :: "string list"

definition pq_new :: "string \<Rightarrow> parsed_query" where
  "pq_new raw =
     \<lparr>pq_original = raw, pq_tokens = [], pq_language = Spanish, pq_boolean_mode = BoolAnd,
      pq_transformations = []\<rparr>"

datatype query_analyzer = TokenizerAnalyzer analyzer_type | LanguageAnalyzer "language_id option"

definition primary_analyzer :: "index_schema \<Rightarrow> analyzer_type" where
  "primary_analyzer schema =
     (case List.find (\<lambda>f. f_indexed f \<and> f_type f = Text) schema of
        None \<Rightarrow> KeywordAnalyzer | Some f \<Rightarrow> f_analyzer f)"

fun language_name :: "language_id \<Rightarrow> string" where
  "language_name English = ''English''"
| "language_name Spanish = ''Spanish''"
| "language_name Portuguese = ''Portuguese''"

fun qa_analyze :: "text_env \<Rightarrow> query_analyzer \<Rightarrow> parsed_query \<Rightarrow> parsed_query" where
  "qa_analyze te (TokenizerAnalyzer ty) q =
     (let toks = map t_text (analyze te (analyzer_build ty) (pq_original q))
      in q\<lparr>pq_tokens := toks,
           pq_transformations := pq_transformations q @
             [''tokenized -> '' @ show_nat (length toks) @ '' tokens'']\<rparr>)"
| "qa_analyze te (LanguageAnalyzer None) q = q"
| "qa_analyze te (LanguageAnalyzer (Some lang)) q =
     q\<lparr>pq_language := lang,
       pq_transformations := pq_transformations q @ [''language override -> '' @ language_name lang]\<rparr>"

definition default_for_schema :: "index_schema \<Rightarrow> query_analyzer list" where
  "default_for_schema schema =
     [TokenizerAnalyzer (primary_analyzer schema), LanguageAnalyzer None]"

definition qu_run :: "text_env \<Rightarrow> query_analyzer list \<Rightarrow> string \<Rightarrow> parsed_query" where
  "qu_run te analyzers raw = foldl (\<lambda>pq a. qa_analyze te a pq) (pq_new raw) analyzers"

text \<open>The default pipeline tokenizes with the primary text analyzer and changes nothing else.\<close>

lemma qu_run_default_tokens:
  "pq_tokens (qu_run te (default_for_schema schema) raw) =
     analyze_to_terms te (analyzer_build (primary_analyzer schema)) raw"
  by (simp add: qu_run_def default_for_schema_def analyze_to_terms_def pq_new_def Let_def)

lemma qu_run_default_rest:
  "pq_original (qu_run te (default_for_schema schema) raw) = raw \<and>
   pq_boolean_mode (qu_run te (default_for_schema schema) raw) = BoolAnd \<and>
   pq_language (qu_run te (default_for_schema schema) raw) = Spanish"
  by (simp add: qu_run_def default_for_schema_def pq_new_def Let_def)

end
