(* ===== verification/Collector.thy ===== *)
theory Collector
  imports CoreTypes
begin

text \<open>
  \<open>crates/query/src/collector.rs\<close>: sorting and pagination of scored documents.  The unstable
  sort is an argument (\<open>sort_contract\<close>).
\<close>

record scored_doc =
  sd_segment_ord :: nat
  sd_local_doc_id :: u32
  sd_global_doc_id :: u64
  sd_score :: f32
  sd_sort_value :: "f64 option"

definition sort_key :: "scored_doc \<Rightarrow> f64" where
  "sort_key d = (case sd_sort_value d of None \<Rightarrow> f64_neg_infinity | Some v \<Rightarrow> v)"

definition doc_cmp :: "sort_spec option \<Rightarrow> scored_doc comparator" where
  "doc_cmp spec_opt a b =
     (case spec_opt of
        Some spec \<Rightarrow>
          (case sort_order spec of
             Asc \<Rightarrow> f64_cmp_or_equal (sort_key a) (sort_key b)
           | Desc \<Rightarrow> f64_cmp_or_equal (sort_key b) (sort_key a))
      | None \<Rightarrow> f32_cmp_or_equal (sd_score b) (sd_score a))"

definition collect ::
  "(scored_doc comparator \<Rightarrow> scored_doc list \<Rightarrow> scored_doc list) \<Rightarrow> scored_doc list \<Rightarrow>
   sort_spec option \<Rightarrow> nat \<Rightarrow> nat \<Rightarrow> scored_doc list \<times> u64" where
  "collect usort docs spec_opt offset limit =
     (let total = word_of_nat (length docs); docs = usort (doc_cmp spec_opt) docs
      in (take limit (drop offset docs), total))"

section \<open>Pages of the ranking\<close>

text \<open>The scores and sort values to compare are numbers.\<close>

definition comparable :: "sort_spec option \<Rightarrow> scored_doc \<Rightarrow> bool" where
  "comparable spec_opt d \<longleftrightarrow>
     (case spec_opt of None \<Rightarrow> \<not> f32_is_nan (sd_score d) | Some spec \<Rightarrow> \<not> f64_is_nan (sort_key d))"

definition rank_key :: "sort_spec option \<Rightarrow> scored_doc \<Rightarrow> int" where
  "rank_key spec_opt d =
     (case spec_opt of None \<Rightarrow> - f32_key (sd_score d)
      | Some spec \<Rightarrow> (case sort_order spec of Asc \<Rightarrow> f64_key (sort_key d) | Desc \<Rightarrow> - f64_key (sort_key d)))"

lemma doc_cmp_key:
  "comparable spec_opt a \<Longrightarrow> comparable spec_opt b \<Longrightarrow> not_after (doc_cmp spec_opt) a b \<longleftrightarrow> rank_key spec_opt a \<le> rank_key spec_opt b"
  unfolding not_after_def doc_cmp_def comparable_def rank_key_def
  using f32_cmp_or_equal_not_after [unfolded not_after_def]
    f64_cmp_or_equal_not_after [unfolded not_after_def]
  by (auto split: option.splits sort_order.splits)

lemma doc_cmp_preorder:
  "\<forall>d \<in> A. comparable spec_opt d \<Longrightarrow> total_preorder_on A (doc_cmp spec_opt)"
  by (rule total_preorder_key_on [where f = "rank_key spec_opt"]) (simp add: doc_cmp_key)

text \<open>
  A page is a contiguous piece of one ranking of all the documents: the ranking is a
  permutation of them, ordered by descending score or by the requested field and direction
  (missing values as negative infinity), the page takes \<open>limit\<close> of it from \<open>offset\<close> on, so
  that every document before the page ranks no later than every document on it; the total is the
  number of documents, whatever the page.
\<close>
theorem collect_page:
  assumes "sort_contract usort" "\<forall>d \<in> set docs. comparable spec_opt d" "length docs < 2 ^ 64"
  shows "\<exists>ranking. mset ranking = mset docs \<and>
    sorted_wrt (\<lambda>a b. rank_key spec_opt a \<le> rank_key spec_opt b) ranking \<and>
    fst (collect usort docs spec_opt offset limit) = page_of offset limit ranking \<and>
    unat (snd (collect usort docs spec_opt offset limit)) = length docs"
proof -
  let ?r = "usort (doc_cmp spec_opt) docs"
  have m: "mset ?r = mset docs" by (rule sort_contract_mset [OF assms(1)])
  have "sorted_by (doc_cmp spec_opt) ?r"
    by (rule sort_contract_sorted [OF assms(1) doc_cmp_preorder [OF assms(2)]])
  then have "sorted_wrt (\<lambda>a b. rank_key spec_opt a \<le> rank_key spec_opt b) ?r"
    unfolding sorted_by_def
    by (rule sorted_wrt_mono_rel [rotated])
      (use assms(2) mset_eq_setD [OF m] in \<open>simp add: doc_cmp_key\<close>)
  then show ?thesis
    using m assms(3) by (intro exI [of _ ?r]) (simp add: collect_def page_of_def Let_def unat_of_nat)
qed

definition example_hit :: "u64 \<Rightarrow> f32 \<Rightarrow> scored_doc" where
  "example_hit i s =
     \<lparr>sd_segment_ord = 0, sd_local_doc_id = 0, sd_global_doc_id = i, sd_score = s, sd_sort_value = None\<rparr>"

theorem collect_page_witness:
  "\<exists>ranking. mset ranking = mset [example_hit 1 (F32 5), example_hit 2 (F32 9)] \<and>
    sorted_wrt (\<lambda>a b. rank_key None a \<le> rank_key None b) ranking \<and>
    fst (collect sort_by [example_hit 1 (F32 5), example_hit 2 (F32 9)] None 0 1) = page_of 0 1 ranking \<and>
    unat (snd (collect sort_by [example_hit 1 (F32 5), example_hit 2 (F32 9)] None 0 1)) =
      length [example_hit 1 (F32 5), example_hit 2 (F32 9)]"
  by (rule collect_page)
    (simp_all add: comparable_def example_hit_def f32_is_nan_def raw_nan_def raw32_def)

end
