(* ===== verification/Scorer.thy ===== *)
theory Scorer
  imports Segment
begin

text \<open>
  \<open>crates/query/src/scorer.rs\<close>: BM25 scoring and the per-segment statistics it uses.  The
  natural logarithm of single precision floats, \<open>f32::ln\<close>, is an argument.

  The executor reads segments this program has written; on those a read does not panic
  (\<open>segment_roundtrip\<close>), and \<open>doc_at\<close>, \<open>term_at\<close> and their like below read them with the
  panicking case folded into absence.
\<close>

section \<open>Reading intact segments\<close>

definition doc_at :: "index_env \<Rightarrow> segment_reader \<Rightarrow> u32 \<Rightarrow> document option" where
  "doc_at env r i = (case get_doc env r i of None \<Rightarrow> None | Some doc \<Rightarrow> doc)"

definition term_at :: "segment_reader \<Rightarrow> string \<Rightarrow> posting_list option" where
  "term_at r t = (case search_term r t of None \<Rightarrow> None | Some pl \<Rightarrow> pl)"

definition prefix_at :: "segment_reader \<Rightarrow> string \<Rightarrow> (string \<times> posting_list) list" where
  "prefix_at r t = (case prefix_search_term r t of None \<Rightarrow> [] | Some pls \<Rightarrow> pls)"

definition fuzzy_at :: "index_env \<Rightarrow> segment_reader \<Rightarrow> string \<Rightarrow> u32 \<Rightarrow> (string \<times> posting_list) list" where
  "fuzzy_at env r t n = (case fuzzy_search_term env r t n of None \<Rightarrow> [] | Some pls \<Rightarrow> pls)"

section \<open>Statistics\<close>

record segment_statistics =
  st_total_docs :: u32
  st_field_avg_lengths :: "string \<rightharpoonup> f32"

definition text_fields :: "index_schema \<Rightarrow> (string \<times> analyzer) list" where
  "text_fields schema =
     map (\<lambda>f. (f_name f, analyzer_build (f_analyzer f)))
       (filter (\<lambda>f. f_indexed f \<and> f_type f = Text) schema)"

definition add_field_length ::
  "text_env \<Rightarrow> document \<Rightarrow> (string \<rightharpoonup> u64) \<Rightarrow> string \<times> analyzer \<Rightarrow> (string \<rightharpoonup> u64)" where
  "add_field_length te doc totals fa =
     (let (name, a) = fa
      in case field_text name doc of None \<Rightarrow> totals
         | Some txt \<Rightarrow>
             let cnt = word_of_nat (length (analyze te a txt))
             in totals(name \<mapsto> (case totals name of None \<Rightarrow> 0 | Some n \<Rightarrow> n) + cnt))"

definition stats_compute :: "index_env \<Rightarrow> segment_reader \<Rightarrow> index_schema \<Rightarrow> segment_statistics" where
  "stats_compute env reader schema =
     (let total_docs = m_doc_count (sr_meta reader);
          totals = foldl (\<lambda>totals i.
              case doc_at env reader (word_of_nat i) of None \<Rightarrow> totals
              | Some doc \<Rightarrow> foldl (add_field_length (ie_text env) doc) totals (text_fields schema))
            Map.empty [0..<unat total_docs];
          live = word_of_nat (card (all_live_docs reader)) :: u32;
          denom = f32_of_nat (unat (max live 1))
      in \<lparr>st_total_docs = live,
          st_field_avg_lengths = map_option (\<lambda>v. f32_div (f32_of_nat (unat v)) denom) \<circ> totals\<rparr>)"

definition avg_length_or :: "segment_statistics \<Rightarrow> string \<Rightarrow> f32 \<Rightarrow> f32" where
  "avg_length_or stats name dflt = (case st_field_avg_lengths stats name of None \<Rightarrow> dflt | Some a \<Rightarrow> a)"

section \<open>BM25\<close>

record bm25_scorer =
  sc_k1 :: f32
  sc_b :: f32

definition default_scorer :: bm25_scorer where
  "default_scorer = \<lparr>sc_k1 = f32_of_frac 12 10, sc_b = f32_of_frac 75 100\<rparr>"

definition SCORER_K1 :: f32 where
  "SCORER_K1 = f32_of_frac 12 10"

definition idf :: "(f32 \<Rightarrow> f32) \<Rightarrow> u32 \<Rightarrow> u32 \<Rightarrow> f32" where
  "idf f32_ln total_docs doc_freq =
     (let n = f32_of_nat (unat total_docs); df = f32_of_nat (unat doc_freq);
          half = f32_of_frac 1 2
      in f32_max (f32_ln (f32_add (f32_of_nat 1)
            (f32_div (f32_add (f32_sub n df) half) (f32_add df half)))) (f32_of_nat 0))"

definition term_score :: "bm25_scorer \<Rightarrow> u32 \<Rightarrow> u32 \<Rightarrow> f32 \<Rightarrow> f32 \<Rightarrow> f32" where
  "term_score s tf dl avgdl weight =
     (let tf = f32_of_nat (unat tf);
          dl = f32_of_nat (unat dl);
          avgdl = f32_max avgdl (f32_of_nat 1);
          num = f32_mul tf (f32_add (sc_k1 s) (f32_of_nat 1));
          denom = f32_add tf (f32_mul (sc_k1 s)
                    (f32_add (f32_sub (f32_of_nat 1) (sc_b s)) (f32_div (f32_mul (sc_b s) dl) avgdl)))
      in f32_div (f32_mul weight num) denom)"

text \<open>On the frequencies and lengths a posting can hold, the score of a unit weight is the impact
  of which the block headers keep the maximum, up to the multiplication by one.\<close>

lemma term_score_posting:
  "term_score default_scorer (ucast tf) (ucast dl) avgdl w =
     f32_div (f32_mul w (f32_mul (f32_of_nat (unat (tf :: u8))) (f32_add K1 (f32_of_nat 1))))
       (impact_denom tf (dl :: u16) avgdl)"
proof -
  have "unat (ucast tf :: u32) = unat tf" "unat (ucast dl :: u32) = unat dl"
    using unat_less(1) [of tf] unat_less(2) [of dl] by (simp_all add: unsigned_ucast_eq take_bit_eq_mod)
  then show ?thesis
    by (simp add: term_score_def impact_denom_def len_norm_def default_scorer_def K1_def B_def Let_def)
qed

end
