(* ===== verification/Wand.thy ===== *)
theory Wand
  imports Scorer "HOL-Library.Product_Lexorder"
begin

text \<open>
  \<open>crates/query/src/wand.rs\<close>: conjunctive Block-Max WAND retrieval of the best \<open>k\<close> documents.

  One turn of the \<open>loop\<close> is \<open>wand_step\<close>, which either returns or hands on the advanced cursors
  and the heap; the loop itself may run forever (a posting for document \<open>u32::MAX\<close> makes it),
  so it is a partial function and a diverging call is \<open>None\<close>.  The \<open>BinaryHeap\<close> is the
  multiset of its entries; the order in which it yields them is an argument, as is the score
  function.
\<close>

section \<open>Cursors\<close>

record term_cursor =
  tc_postings :: "posting list"
  tc_blocks :: "posting_block list"
  tc_position :: nat
  tc_idf :: f32
  tc_avgdl :: f32
  tc_scorer :: bm25_scorer

definition cursor_new :: "posting_list \<Rightarrow> f32 \<Rightarrow> f32 \<Rightarrow> bm25_scorer \<Rightarrow> term_cursor" where
  "cursor_new pl weight avgdl scorer =
     (let pl = (if blocks pl = [] \<and> postings pl \<noteq> [] then rebuild_blocks avgdl pl else pl)
      in \<lparr>tc_postings = postings pl, tc_blocks = blocks pl, tc_position = 0, tc_idf = weight,
          tc_avgdl = avgdl, tc_scorer = scorer\<rparr>)"

definition is_exhausted :: "term_cursor \<Rightarrow> bool" where
  "is_exhausted c \<longleftrightarrow> length (tc_postings c) \<le> tc_position c"

text \<open>Only called on a cursor that is not exhausted (indexing past the end panics).\<close>

definition current_doc_id :: "term_cursor \<Rightarrow> u32" where
  "current_doc_id c = p_doc_id (tc_postings c ! tc_position c)"

definition block_upper_bound :: "f32 \<Rightarrow> f32 \<Rightarrow> term_cursor \<Rightarrow> f32" where
  "block_upper_bound title_boost desc_boost c =
     (let block_idx = tc_position c div BLOCK_SIZE;
          max_impact = (if block_idx < length (tc_blocks c) then max_impact (tc_blocks c ! block_idx)
                        else f32_of_nat 0)
      in f32_mul (f32_mul (f32_of_frac 3 2) (tc_idf c))
           (f32_add (f32_mul title_boost max_impact)
              (f32_mul desc_boost (f32_add SCORER_K1 (f32_of_nat 1)))))"

definition score_current :: "term_cursor \<Rightarrow> f32" where
  "score_current c =
     (let p = tc_postings c ! tc_position c
      in f32_mul (tc_idf c)
           (term_score (tc_scorer c) (ucast (p_term_freq p)) (ucast (p_doc_len p)) (tc_avgdl c)
              (f32_of_nat 1)))"

definition advance_to :: "u32 \<Rightarrow> term_cursor \<Rightarrow> term_cursor" where
  "advance_to target c =
     (let jump = partition_point (\<lambda>p. p_doc_id p < target) (drop (tc_position c) (tc_postings c))
      in c\<lparr>tc_position := tc_position c + jump\<rparr>)"

definition next_block_doc_id :: "term_cursor \<Rightarrow> u32 option" where
  "next_block_doc_id c =
     (let next_pos = (tc_position c div BLOCK_SIZE + 1) * BLOCK_SIZE
      in if next_pos < length (tc_postings c) then Some (p_doc_id (tc_postings c ! next_pos)) else None)"

definition advance_one :: "term_cursor \<Rightarrow> term_cursor" where
  "advance_one c = c\<lparr>tc_position := tc_position c + 1\<rparr>"

section \<open>The heap of the best k\<close>

type_synonym entry = "u32 \<times> u32"

text \<open>Entries are pairs of score bits and document, ordered lexicographically.\<close>

record top_k_heap =
  hp_k :: nat
  hp_entries :: "entry list"

definition heap_new :: "nat \<Rightarrow> top_k_heap" where
  "heap_new k = \<lparr>hp_k = k, hp_entries = []\<rparr>"

text \<open>The entries are kept in ascending order, so the minimum, which \<open>peek\<close> shows and \<open>pop\<close>
  removes, is the first.\<close>

definition heap_push :: "u32 \<Rightarrow> f32 \<Rightarrow> top_k_heap \<Rightarrow> top_k_heap" where
  "heap_push doc_id score h =
     (let es = insort (to_bits score, doc_id) (hp_entries h)
      in h\<lparr>hp_entries := (if hp_k h < length es then tl es else es)\<rparr>)"

definition heap_threshold :: "top_k_heap \<Rightarrow> f32" where
  "heap_threshold h =
     (if length (hp_entries h) < hp_k h then f32_of_nat 0
      else case hp_entries h of [] \<Rightarrow> f32_of_nat 0 | e # es \<Rightarrow> F32 (fst e))"

definition heap_into_vec :: "(entry list \<Rightarrow> entry list) \<Rightarrow> top_k_heap \<Rightarrow> (u32 \<times> f32) list" where
  "heap_into_vec horder h =
     sort_by (\<lambda>a c. f32_cmp_or_equal (snd c) (snd a))
       (map (\<lambda>(bits, doc_id). (doc_id, F32 bits)) (horder (hp_entries h)))"

section \<open>The retrieval loop\<close>

fun pivot_of :: "term_cursor list \<Rightarrow> u32 \<Rightarrow> u32 option" where
  "pivot_of [] acc = Some acc"
| "pivot_of (c # cs) acc =
     (if is_exhausted c then None else pivot_of cs (max acc (current_doc_id c)))"

fun list_min :: "u32 list \<Rightarrow> u32 option" where
  "list_min [] = None"
| "list_min (x # xs) = (case list_min xs of None \<Rightarrow> Some x | Some m \<Rightarrow> Some (min x m))"

definition wand_step ::
  "(u32 \<Rightarrow> f32 option) \<Rightarrow> f32 \<Rightarrow> f32 \<Rightarrow> term_cursor list \<Rightarrow> top_k_heap \<Rightarrow>
   top_k_heap + (term_cursor list \<times> top_k_heap)" where
  "wand_step score_fn title_boost desc_boost cursors heap =
     (case pivot_of cursors 0 of None \<Rightarrow> Inl heap
      | Some pivot \<Rightarrow>
          let cursors = map (advance_to pivot) cursors
          in if list_ex is_exhausted cursors then Inl heap
             else if \<not> list_all (\<lambda>c. current_doc_id c = pivot) cursors then Inr (cursors, heap)
             else
               let threshold = heap_threshold heap;
                   total_block_ub = foldl f32_add (f32_of_nat 0)
                     (map (block_upper_bound title_boost desc_boost) cursors)
               in if f32_le total_block_ub threshold then
                    (case list_min (List.map_filter next_block_doc_id cursors) of
                       Some nd \<Rightarrow> Inr (map (advance_to nd) cursors, heap)
                     | None \<Rightarrow> Inl heap)
                  else
                    let heap = (case score_fn pivot of None \<Rightarrow> heap
                          | Some score \<Rightarrow>
                              if f32_lt threshold score \<or> f32_eq (heap_threshold heap) (f32_of_nat 0)
                              then heap_push pivot score heap else heap)
                    in Inr (map (advance_to (pivot + 1)) cursors, heap))"

partial_function (option) wand_loop ::
  "(u32 \<Rightarrow> f32 option) \<Rightarrow> f32 \<Rightarrow> f32 \<Rightarrow> term_cursor list \<Rightarrow> top_k_heap \<Rightarrow> top_k_heap option" where
  "wand_loop score_fn title_boost desc_boost cursors heap =
     (case wand_step score_fn title_boost desc_boost cursors heap of
        Inl h \<Rightarrow> Some h
      | Inr (cs, h) \<Rightarrow> wand_loop score_fn title_boost desc_boost cs h)"

definition wand_top_k ::
  "(entry list \<Rightarrow> entry list) \<Rightarrow> term_cursor list \<Rightarrow> nat \<Rightarrow> f32 \<Rightarrow> f32 \<Rightarrow> (u32 \<Rightarrow> f32 option) \<Rightarrow>
   (u32 \<times> f32) list option" where
  "wand_top_k horder cursors k title_boost desc_boost score_fn =
     (if cursors = [] \<or> k = 0 then Some []
      else map_option (heap_into_vec horder)
             (wand_loop score_fn title_boost desc_boost cursors (heap_new k)))"

lemma unat_inc: "x \<noteq> - 1 \<Longrightarrow> unat (x + 1) = Suc (unat x)" for x :: "'a::len word"
  by (metis add.commute eq_neg_iff_add_eq_0 unatSuc)

section \<open>Advancing cursors\<close>

abbreviation rest :: "term_cursor \<Rightarrow> posting list" where
  "rest c \<equiv> drop (tc_position c) (tc_postings c)"

definition rest_ids :: "term_cursor \<Rightarrow> u32 set" where
  "rest_ids c = p_doc_id ` set (rest c)"

definition cursor_ok :: "term_cursor \<Rightarrow> bool" where
  "cursor_ok c \<longleftrightarrow> ids_ascending (tc_postings c) \<and> - 1 \<notin> rest_ids c"

lemma takeWhile_compose:
  assumes "\<And>x. P x \<Longrightarrow> Q x"
  shows "length (takeWhile P xs) + length (takeWhile Q (dropWhile P xs)) = length (takeWhile Q xs)"
  by (induction xs) (use assms in auto)

lemma advance_to_alt:
  "advance_to t c =
     c\<lparr>tc_position := tc_position c + length (takeWhile (\<lambda>p. p_doc_id p < t) (rest c))\<rparr>"
  by (simp add: advance_to_def partition_point_def)

lemma rest_advance_to: "rest (advance_to t c) = dropWhile (\<lambda>p. p_doc_id p < t) (rest c)"
  by (simp add: advance_to_alt dropWhile_eq_drop add.commute)

lemma advance_to_advance_to:
  assumes "t \<le> u"
  shows "advance_to u (advance_to t c) = advance_to u c"
proof -
  have "length (takeWhile (\<lambda>p. p_doc_id p < t) (rest c)) +
      length (takeWhile (\<lambda>p. p_doc_id p < u) (rest (advance_to t c))) =
      length (takeWhile (\<lambda>p. p_doc_id p < u) (rest c))"
    unfolding rest_advance_to using assms by (intro takeWhile_compose) auto
  then show ?thesis
    by (simp add: advance_to_alt [of u "advance_to t c"] advance_to_alt [of u c] del: drop_drop)
      (simp add: advance_to_alt [of t c])
qed

lemma advance_to_fields [simp]:
  "tc_postings (advance_to t c) = tc_postings c" "tc_blocks (advance_to t c) = tc_blocks c"
  "tc_idf (advance_to t c) = tc_idf c"
  by (simp_all add: advance_to_def Let_def)

lemma advance_to_0 [simp]: "advance_to 0 c = c"
proof -
  have "takeWhile (\<lambda>p. p_doc_id p < 0) xs = []" for xs :: "posting list"
    by (cases xs) simp_all
  then show ?thesis by (simp add: advance_to_alt)
qed

lemma set_dropWhile_sorted:
  fixes t :: "'k::linorder"
  assumes "sorted_wrt (\<lambda>p q. f p < f q) xs"
  shows "f ` set (dropWhile (\<lambda>p. f p < t) xs) = {d \<in> f ` set xs. t \<le> d}"
  using assms by (induction xs) force+

lemma ids_rest: "cursor_ok c \<Longrightarrow> sorted_wrt (\<lambda>p q. p_doc_id p < p_doc_id q) (rest c)"
  by (simp add: cursor_ok_def ids_ascending_def sorted_wrt_drop)

lemma rest_ids_advance_to:
  "cursor_ok c \<Longrightarrow> rest_ids (advance_to t c) = {d \<in> rest_ids c. t \<le> d}"
  unfolding rest_ids_def rest_advance_to by (rule set_dropWhile_sorted) (rule ids_rest)

lemma exhausted_rest: "is_exhausted c \<longleftrightarrow> rest_ids c = {}"
  by (auto simp: is_exhausted_def rest_ids_def)

lemma current_hd: "\<not> is_exhausted c \<Longrightarrow> current_doc_id c = p_doc_id (hd (rest c))"
  by (simp add: is_exhausted_def current_doc_id_def hd_drop_conv_nth)

lemma current_mem: "\<not> is_exhausted c \<Longrightarrow> current_doc_id c \<in> rest_ids c"
  unfolding rest_ids_def by (subst current_hd) (auto simp: is_exhausted_def)

lemma cursor_ok_advance [simp]: "cursor_ok c \<Longrightarrow> cursor_ok (advance_to t c)"
  using rest_ids_advance_to [of c t] by (auto simp: cursor_ok_def)

lemma current_le:
  assumes "cursor_ok c" "d \<in> rest_ids c"
  shows "\<not> is_exhausted c \<and> current_doc_id c \<le> d"
proof -
  have ne: "\<not> is_exhausted c" using assms(2) by (auto simp: exhausted_rest)
  obtain p ps where r: "rest c = p # ps"
    using ne by (cases "rest c") (auto simp: is_exhausted_def)
  then have "\<forall>q \<in> set ps. p_doc_id p < p_doc_id q"
    using ids_rest [OF assms(1)] unfolding r sorted_wrt.simps by blast
  then show ?thesis
    using ne assms(2) current_hd [OF ne] r by (auto simp: rest_ids_def less_imp_le)
qed

text \<open>The pivot is the largest of the current documents.\<close>

lemma pivot_of_None: "pivot_of cs acc = None \<longleftrightarrow> (\<exists>c \<in> set cs. is_exhausted c)"
  by (induction cs acc rule: pivot_of.induct) auto

lemma pivot_of_Some:
  "pivot_of cs acc = Some p \<Longrightarrow>
     acc \<le> p \<and> (\<forall>c \<in> set cs. \<not> is_exhausted c \<and> current_doc_id c \<le> p) \<and>
     (p = acc \<or> (\<exists>c \<in> set cs. current_doc_id c = p))"
proof (induction cs acc rule: pivot_of.induct)
  case (2 c cs acc)
  then show ?case by (auto simp: max_def split: if_splits)
qed simp

lemma list_min_None: "list_min xs = None \<longleftrightarrow> xs = []"
  by (cases xs) (auto split: option.splits)

lemma list_min_Some: "list_min xs = Some m \<Longrightarrow> m \<in> set xs \<and> (\<forall>x \<in> set xs. m \<le> x)"
  by (induction xs arbitrary: m)
    (auto simp: list_min_None min_def split: option.splits if_splits dest: order_trans)

section \<open>Candidates and blocks\<close>

text \<open>A candidate is a document in every list; the cursors stand at the first document from \<open>t\<close> on.\<close>

definition candidates :: "term_cursor list \<Rightarrow> u32 set" where
  "candidates cs = {d. \<forall>c \<in> set cs. d \<in> rest_ids c}"

abbreviation at_doc :: "u32 \<Rightarrow> term_cursor list \<Rightarrow> term_cursor list" where
  "at_doc t cs \<equiv> map (advance_to t) cs"

definition total_bound :: "f32 \<Rightarrow> f32 \<Rightarrow> term_cursor list \<Rightarrow> f32" where
  "total_bound tb db cs = foldl f32_add (f32_of_nat 0) (map (block_upper_bound tb db) cs)"

text \<open>Between the current document and the first document of the next block, the block does not
  change.\<close>

lemma same_block:
  assumes ok: "cursor_ok c" and d: "d \<in> rest_ids c" "t \<le> d"
    and nb: "\<forall>x. next_block_doc_id (advance_to t c) = Some x \<longrightarrow> d < x"
  shows "block_upper_bound tb db (advance_to d c) = block_upper_bound tb db (advance_to t c)"
proof -
  let ?c = "advance_to t c" and ?e = "advance_to d c"
  let ?next = "(tc_position ?c div BLOCK_SIZE + 1) * BLOCK_SIZE"
  have e: "?e = advance_to d ?c" using advance_to_advance_to [OF d(2)] by simp
  then have le: "tc_position ?c \<le> tc_position ?e" by (simp add: advance_to_def Let_def)
  have in_e: "d \<in> rest_ids ?e" using rest_ids_advance_to [OF ok, of d] d(1) by simp
  then have "\<not> is_exhausted ?e" "current_doc_id ?e \<le> d"
    using current_le [of ?e d] ok by simp_all
  then have pos: "tc_position ?e < length (tc_postings c)" and cur: "p_doc_id (tc_postings c ! tc_position ?e) \<le> d"
    by (simp_all add: is_exhausted_def current_doc_id_def)
  have "tc_position ?e < ?next"
  proof (rule ccontr)
    assume ge: "\<not> tc_position ?e < ?next"
    then have n: "?next < length (tc_postings c)" using pos by simp
    then have "d < p_doc_id (tc_postings c ! ?next)"
      using nb by (simp add: next_block_doc_id_def Let_def)
    moreover have "p_doc_id (tc_postings c ! ?next) \<le> p_doc_id (tc_postings c ! tc_position ?e)"
      using ok ge pos unfolding cursor_ok_def ids_ascending_def
      by (cases "?next = tc_position ?e") (auto simp: sorted_wrt_iff_nth_less less_imp_le)
    ultimately show False using cur by simp
  qed
  then have "tc_position ?e div BLOCK_SIZE = tc_position ?c div BLOCK_SIZE"
    using le div_le_mono [OF le, of BLOCK_SIZE] less_mult_imp_div_less [of "tc_position ?e" _ BLOCK_SIZE]
    by (metis Suc_eq_plus1 le_antisym less_Suc_eq_le)
  then show ?thesis by (simp add: block_upper_bound_def Let_def)
qed

section \<open>The heap\<close>

definition positive :: "f32 \<Rightarrow> bool" where
  "positive s \<longleftrightarrow> f32_nonneg s \<and> 0 < to_bits s"

text \<open>
  What the heap knows of the documents \<open>D\<close> that have been processed: its entries are documents of
  \<open>D\<close> with their scores, and a scored document of \<open>D\<close> that is not among them is beaten by a
  full heap.
\<close>

definition beaten :: "top_k_heap \<Rightarrow> f32 \<Rightarrow> bool" where
  "beaten h s \<longleftrightarrow> length (hp_entries h) = hp_k h \<and> to_bits s \<le> fst (hd (hp_entries h))"

definition heap_inv :: "(u32 \<Rightarrow> f32 option) \<Rightarrow> nat \<Rightarrow> u32 set \<Rightarrow> top_k_heap \<Rightarrow> bool" where
  "heap_inv score k D h \<longleftrightarrow>
     hp_k h = k \<and> 0 < k \<and> length (hp_entries h) \<le> k \<and> sorted (hp_entries h) \<and>
     distinct (map snd (hp_entries h)) \<and>
     (\<forall>(bits, d) \<in> set (hp_entries h). d \<in> D \<and> score d = Some (F32 bits)) \<and>
     (\<forall>d \<in> D. \<forall>s. score d = Some s \<longrightarrow> (to_bits s, d) \<in> set (hp_entries h) \<or> beaten h s)"

definition scores_positive :: "(u32 \<Rightarrow> f32 option) \<Rightarrow> bool" where
  "scores_positive score \<longleftrightarrow> (\<forall>d s. score d = Some s \<longrightarrow> positive s)"

lemma heap_inv_new: "0 < k \<Longrightarrow> heap_inv score k {} (heap_new k)"
  by (simp add: heap_inv_def heap_new_def)

text \<open>Documents without a score, or beaten, may be processed without touching the heap.\<close>

lemma heap_inv_skip:
  assumes "heap_inv score k D h" "\<forall>d \<in> E. \<forall>s. score d = Some s \<longrightarrow> beaten h s"
  shows "heap_inv score k (D \<union> E) h"
  using assms by (fastforce simp: heap_inv_def)

lemma zero_consts: "f32_of_nat 0 = F32 0" "f32_nonneg (F32 0)" "to_bits (F32 0) = 0"
  by (simp_all add: f32_consts f32_nonneg_def raw32_def)

lemma threshold_cases:
  assumes "heap_inv score k D h" "scores_positive score"
  shows "(length (hp_entries h) < k \<and> heap_threshold h = F32 0) \<or>
    (length (hp_entries h) = k \<and> heap_threshold h = F32 (fst (hd (hp_entries h))) \<and>
     positive (heap_threshold h))"
proof (cases "length (hp_entries h) < k")
  case True
  then show ?thesis using assms(1) by (simp add: heap_threshold_def heap_inv_def zero_consts)
next
  case False
  then have len: "length (hp_entries h) = k" "hp_entries h \<noteq> []"
    using assms(1) by (auto simp: heap_inv_def)
  then obtain bits d es where e: "hp_entries h = (bits, d) # es"
    by (cases "hp_entries h") auto
  then have "score d = Some (F32 bits)" using assms(1) by (auto simp: heap_inv_def)
  then have "positive (F32 bits)" using assms(2) by (auto simp: scores_positive_def)
  then show ?thesis
    using len e assms(1) by (simp add: heap_threshold_def heap_inv_def)
qed

lemma le_threshold_beaten:
  assumes "heap_inv score k D h" "scores_positive score" "positive s" "f32_le s (heap_threshold h)"
  shows "beaten h s"
  using threshold_cases [OF assms(1,2)]
proof
  assume *: "length (hp_entries h) < k \<and> heap_threshold h = F32 0"
  then have "to_bits s \<le> 0"
    using assms(3,4) f32_le_bits [of s "F32 0"] zero_consts by (simp add: positive_def)
  then show ?thesis using assms(3) by (simp add: positive_def)
next
  assume *: "length (hp_entries h) = k \<and> heap_threshold h = F32 (fst (hd (hp_entries h))) \<and>
      positive (heap_threshold h)"
  then have "to_bits s \<le> to_bits (heap_threshold h)"
    using assms(3,4) f32_le_bits [of s "heap_threshold h"] unfolding positive_def by blast
  then show ?thesis using * assms(1) by (simp add: beaten_def heap_inv_def)
qed

lemma distinct_map_insort:
  "distinct (map f (insort x xs)) \<longleftrightarrow> f x \<notin> f ` set xs \<and> distinct (map f xs)"
  by (induction xs) (auto simp: set_insort_key)

lemma heap_inv_push:
  assumes inv: "heap_inv score k D h" and d: "d \<notin> D" and s: "score d = Some s"
    and new: "length (hp_entries h) = k \<Longrightarrow> fst (hd (hp_entries h)) < to_bits s"
  shows "heap_inv score k (insert d D) (heap_push d s h)"
proof -
  let ?e = "(to_bits s, d)" and ?es = "hp_entries h"
  have k: "hp_k h = k" "0 < k" "length ?es \<le> k" "sorted ?es" "distinct (map snd ?es)"
    and mem: "\<forall>(bits, d) \<in> set ?es. d \<in> D \<and> score d = Some (F32 bits)"
    and cov: "\<forall>d \<in> D. \<forall>s. score d = Some s \<longrightarrow> (to_bits s, d) \<in> set ?es \<or> beaten h s"
    using inv by (auto simp: heap_inv_def)
  have fresh: "d \<notin> snd ` set ?es" using mem d by auto
  show ?thesis
  proof (cases "length ?es < k")
    case True
    then have p: "heap_push d s h = h\<lparr>hp_entries := insort ?e ?es\<rparr>"
      using k by (simp add: heap_push_def Let_def)
    have "distinct (map snd (insort ?e ?es))"
      using k(5) fresh by (simp add: distinct_map_insort)
    then show ?thesis
      using True k mem cov s by (auto simp: p heap_inv_def sorted_insort set_insort_key beaten_def)
  next
    case False
    then have len: "length ?es = k" using k by simp
    then obtain e0 es where e: "?es = e0 # es" using k by (cases ?es) auto
    have lt: "e0 < ?e" using new [OF len] by (cases e0) (simp add: e)
    have "\<not> ?e \<le> e0" using lt by (simp only: not_le)
    then have ins: "insort ?e ?es = e0 # insort ?e es" by (simp add: e)
    have p: "heap_push d s h = h\<lparr>hp_entries := insort ?e es\<rparr>"
    proof -
      have "Suc (length es) = k" using len by (simp add: e)
      then show ?thesis using k(1) by (simp add: heap_push_def ins Let_def)
    qed
    have ne: "insort ?e es \<noteq> []" by (metis insort_is_Cons neq_Nil_conv insort_not_Nil)
    have "e0 \<le> hd (insort ?e es)"
      using lt k(4) hd_in_set [OF ne] by (auto simp: e set_insort_key)
    then have hd: "fst e0 \<le> fst (hd (insort ?e es))" by (auto simp: less_eq_prod_def)
    have dist: "distinct (map snd (insort ?e es))"
      using k(5) fresh by (simp add: e distinct_map_insort)
    have b: "beaten (heap_push d s h) s'" if "to_bits s' \<le> fst e0" for s'
      using that hd len k by (simp add: beaten_def p e)
    have "(to_bits s', d') \<in> set (insort ?e es) \<or> beaten (heap_push d s h) s'"
      if d': "d' \<in> D" "score d' = Some s'" for d' s'
    proof -
      have "(to_bits s', d') \<in> set ?es \<or> beaten h s'" using cov d' by blast
      then consider "(to_bits s', d') \<in> set es" | "(to_bits s', d') = e0" | "beaten h s'"
        by (auto simp: e)
      then show ?thesis
      proof cases
        case 1
        then show ?thesis by (simp add: set_insort_key)
      next
        case 2
        then have "to_bits s' \<le> fst e0" by (metis fst_conv order_refl)
        then show ?thesis using b by blast
      next
        case 3
        then have "to_bits s' \<le> fst e0" by (simp add: beaten_def e)
        then show ?thesis using b by blast
      qed
    qed
    then show ?thesis
      using k mem s len dist by (auto simp: p heap_inv_def set_insort_key e sorted_insort)
  qed
qed

section \<open>One turn of the loop\<close>

text \<open>
  The bound that lets blocks be skipped: the score of a candidate is at most the sum of the bounds
  of the blocks that hold it.
\<close>

definition bounds_hold :: "(u32 \<Rightarrow> f32 option) \<Rightarrow> f32 \<Rightarrow> f32 \<Rightarrow> term_cursor list \<Rightarrow> bool" where
  "bounds_hold score tb db cs \<longleftrightarrow>
     (\<forall>d \<in> candidates cs. \<forall>s. score d = Some s \<longrightarrow> f32_le s (total_bound tb db (at_doc d cs)))"

text \<open>The state of the loop: all cursors at the first document from \<open>t\<close> on, all candidates before
  \<open>t\<close> processed.\<close>

definition below :: "term_cursor list \<Rightarrow> u32 \<Rightarrow> u32 set" where
  "below cs t = {d \<in> candidates cs. d < t}"

definition wand_ready :: "(u32 \<Rightarrow> f32 option) \<Rightarrow> f32 \<Rightarrow> f32 \<Rightarrow> nat \<Rightarrow> term_cursor list \<Rightarrow> bool" where
  "wand_ready score tb db k cs \<longleftrightarrow>
     cs \<noteq> [] \<and> 0 < k \<and> (\<forall>c \<in> set cs. cursor_ok c) \<and> scores_positive score \<and> bounds_hold score tb db cs"

lemma at_doc_at_doc: "t \<le> u \<Longrightarrow> at_doc u (at_doc t cs) = at_doc u cs"
  by (simp add: advance_to_advance_to comp_def)

lemma candidates_ge:
  assumes "\<forall>c \<in> set cs. cursor_ok c" "c \<in> set cs" "d \<in> candidates cs" "t \<le> d"
  shows "\<not> is_exhausted (advance_to t c) \<and> current_doc_id (advance_to t c) \<le> d"
proof -
  have "d \<in> rest_ids (advance_to t c)"
    using assms by (simp add: candidates_def rest_ids_advance_to)
  then show ?thesis using current_le [of "advance_to t c" d] assms(1,2) by simp
qed

lemma current_ge:
  assumes "cursor_ok c" "\<not> is_exhausted (advance_to t c)"
  shows "t \<le> current_doc_id (advance_to t c) \<and> current_doc_id (advance_to t c) \<in> rest_ids c"
  using current_mem [OF assms(2)] by (simp add: rest_ids_advance_to [OF assms(1)])

text \<open>What a turn does, in terms of the documents it processes.\<close>

text \<open>The pivot of cursors that stand at \<open>t\<close>: no cursor is exhausted, and no candidate is in between.\<close>

lemma pivot_candidates:
  assumes ok: "\<forall>c \<in> set cs. cursor_ok c" and ne: "cs \<noteq> []" and p: "pivot_of (at_doc t cs) 0 = Some p"
  shows "t \<le> p" "\<forall>d \<in> candidates cs. d < t \<or> p \<le> d"
    "c \<in> set cs \<Longrightarrow> \<not> is_exhausted (advance_to t c) \<and> current_doc_id (advance_to t c) \<le> p"
proof -
  note pv = pivot_of_Some [OF p]
  show cur: "\<not> is_exhausted (advance_to t c) \<and> current_doc_id (advance_to t c) \<le> p" if "c \<in> set cs" for c
    using pv that by auto
  obtain c0 where c0: "c0 \<in> set cs" using ne by (cases cs) auto
  show "t \<le> p" using current_ge [of c0 t] cur [OF c0] ok c0 by force
  show "\<forall>d \<in> candidates cs. d < t \<or> p \<le> d"
  proof
    fix d assume d: "d \<in> candidates cs"
    have "p \<le> d" if "t \<le> d"
    proof (cases "p = 0")
      case False
      then obtain c where "c \<in> set cs" "current_doc_id (advance_to t c) = p" using pv by auto
      then show ?thesis using candidates_ge [OF ok _ d that] by blast
    qed simp
    then show "d < t \<or> p \<le> d" by (meson not_le)
  qed
qed

lemma wand_step_at_pivot:
  assumes "pivot_of (at_doc t cs) 0 = Some p" "t \<le> p"
  shows "wand_step score tb db (at_doc t cs) h =
      (if list_ex is_exhausted (at_doc p cs) then Inl h
       else if \<not> list_all (\<lambda>c. current_doc_id c = p) (at_doc p cs) then Inr (at_doc p cs, h)
       else if f32_le (total_bound tb db (at_doc p cs)) (heap_threshold h) then
         (case list_min (List.map_filter next_block_doc_id (at_doc p cs)) of
            Some nd \<Rightarrow> Inr (at_doc nd (at_doc p cs), h) | None \<Rightarrow> Inl h)
       else Inr (at_doc (p + 1) (at_doc p cs),
         case score p of None \<Rightarrow> h | Some s \<Rightarrow>
           if f32_lt (heap_threshold h) s \<or> f32_eq (heap_threshold h) (f32_of_nat 0) then heap_push p s h else h))"
proof -
  have adv: "map (advance_to p) (at_doc t cs) = at_doc p cs" by (rule at_doc_at_doc [OF assms(2)])
  show ?thesis unfolding wand_step_def assms(1) option.case Let_def adv total_bound_def by (rule refl)
qed

text \<open>The bound of a document is the one at \<open>p\<close> up to where the next block begins, which is after \<open>p\<close>.\<close>

lemma total_bound_block:
  assumes ok: "\<forall>c \<in> set cs. cursor_ok c" and d: "d \<in> candidates cs" "p \<le> d"
    and nb: "\<forall>x \<in> set (List.map_filter next_block_doc_id (at_doc p cs)). d < x"
  shows "total_bound tb db (at_doc d cs) = total_bound tb db (at_doc p cs)"
proof -
  have "block_upper_bound tb db (advance_to d c) = block_upper_bound tb db (advance_to p c)" if c: "c \<in> set cs" for c
  proof (rule same_block)
    show "cursor_ok c" "p \<le> d" using ok c d by auto
    show "d \<in> rest_ids c" using d c by (simp add: candidates_def)
    show "\<forall>x. next_block_doc_id (advance_to p c) = Some x \<longrightarrow> d < x" using nb c by (auto simp: in_map_filter)
  qed
  then show ?thesis by (simp add: total_bound_def comp_def cong: map_cong)
qed

lemma next_block_after:
  assumes ok: "cursor_ok c" and at_p: "current_doc_id (advance_to p c) = p"
    and nb: "next_block_doc_id (advance_to p c) = Some u"
  shows "p < u"
proof -
  let ?c = "advance_to p c" and ?n = "(tc_position (advance_to p c) div BLOCK_SIZE + 1) * BLOCK_SIZE"
  have n: "?n < length (tc_postings c)" "u = p_doc_id (tc_postings c ! ?n)"
    using nb by (auto simp: next_block_doc_id_def Let_def split: if_splits)
  have "tc_position ?c < ?n" using dividend_less_times_div [of BLOCK_SIZE "tc_position ?c"]
    by (simp add: BLOCK_SIZE_def algebra_simps)
  then have "p_doc_id (tc_postings c ! tc_position ?c) < u"
    using ok n unfolding cursor_ok_def ids_ascending_def by (auto simp: sorted_wrt_iff_nth_less)
  then show ?thesis using at_p by (auto simp: current_doc_id_def)
qed

lemma pivot_candidate:
  assumes ok: "\<forall>c \<in> set cs. cursor_ok c" and ne: "cs \<noteq> []"
    and at_p: "\<forall>c \<in> set cs. \<not> is_exhausted (advance_to p c) \<and> current_doc_id (advance_to p c) = p"
  shows "p \<in> candidates cs" "at_doc (p + 1) (at_doc p cs) = at_doc (p + 1) cs"
proof -
  have "p \<in> rest_ids c" if "c \<in> set cs" for c
    using current_ge [of c p] at_p ok that by force
  then show cand: "p \<in> candidates cs" by (simp add: candidates_def)
  obtain c0 where "c0 \<in> set cs" using ne by (cases cs) auto
  then have "p \<noteq> - 1" using cand ok by (auto simp: candidates_def cursor_ok_def)
  then have "p \<le> p + 1" by (simp add: word_le_nat_alt unat_inc)
  then show "at_doc (p + 1) (at_doc p cs) = at_doc (p + 1) cs" by (rule at_doc_at_doc)
qed

lemma wand_step_cases:
  assumes ok: "\<forall>c \<in> set cs. cursor_ok c" and ne: "cs \<noteq> []"
  obtains (exhausted) "wand_step score tb db (at_doc t cs) h = Inl h" "\<forall>d \<in> candidates cs. d < t"
  | (disagree) p where "wand_step score tb db (at_doc t cs) h = Inr (at_doc p cs, h)" "t < p"
      "\<forall>d \<in> candidates cs. d < t \<or> p \<le> d"
  | (skip) p u where "wand_step score tb db (at_doc t cs) h = Inr (at_doc u cs, h)" "t \<le> p" "p < u"
      "\<forall>d \<in> candidates cs. d < t \<or> p \<le> d"
      "f32_le (total_bound tb db (at_doc p cs)) (heap_threshold h)"
      "\<forall>d \<in> candidates cs. p \<le> d \<and> d < u \<longrightarrow> total_bound tb db (at_doc d cs) = total_bound tb db (at_doc p cs)"
  | (last) p where "wand_step score tb db (at_doc t cs) h = Inl h" "t \<le> p"
      "\<forall>d \<in> candidates cs. d < t \<or> p \<le> d"
      "f32_le (total_bound tb db (at_doc p cs)) (heap_threshold h)"
      "\<forall>d \<in> candidates cs. p \<le> d \<longrightarrow> total_bound tb db (at_doc d cs) = total_bound tb db (at_doc p cs)"
  | (evaluate) p where
      "wand_step score tb db (at_doc t cs) h = Inr (at_doc (p + 1) cs,
         case score p of None \<Rightarrow> h | Some s \<Rightarrow>
           if f32_lt (heap_threshold h) s \<or> f32_eq (heap_threshold h) (f32_of_nat 0) then heap_push p s h else h)"
      "t \<le> p" "p \<in> candidates cs" "\<forall>d \<in> candidates cs. d < t \<or> p \<le> d"
proof (cases "pivot_of (at_doc t cs) 0")
  case None
  then obtain c where c: "c \<in> set cs" "is_exhausted (advance_to t c)"
    by (auto simp: pivot_of_None)
  then have "\<forall>d \<in> candidates cs. d < t"
    using candidates_ge [OF ok c(1)] by (meson not_le)
  then show thesis using None exhausted by (simp add: wand_step_def)
next
  case (Some p)
  note p_ge = pivot_candidates(1) [OF ok ne Some] and p_le = pivot_candidates(2) [OF ok ne Some]
  note step = wand_step_at_pivot [OF Some p_ge, of score tb db h]
  let ?nbs = "List.map_filter next_block_doc_id (at_doc p cs)"
  consider (dead) "list_ex is_exhausted (at_doc p cs)"
    | (apart) "\<not> list_ex is_exhausted (at_doc p cs)" "\<not> list_all (\<lambda>c. current_doc_id c = p) (at_doc p cs)"
    | (low) "\<not> list_ex is_exhausted (at_doc p cs)" "list_all (\<lambda>c. current_doc_id c = p) (at_doc p cs)"
        "f32_le (total_bound tb db (at_doc p cs)) (heap_threshold h)"
    | (high) "\<not> list_ex is_exhausted (at_doc p cs)" "list_all (\<lambda>c. current_doc_id c = p) (at_doc p cs)"
        "\<not> f32_le (total_bound tb db (at_doc p cs)) (heap_threshold h)" by blast
  then show thesis
  proof cases
    case dead
    then obtain c where c: "c \<in> set cs" "is_exhausted (advance_to p c)" by (auto simp: list_ex_iff)
    have "\<forall>d \<in> candidates cs. d < t"
      using candidates_ge [OF ok c(1)] c(2) p_le by blast
    with step dead exhausted show thesis by (simp only: if_True)
  next
    case apart
    have "t \<noteq> p"
    proof
      assume "t = p"
      then have "\<forall>c \<in> set cs. current_doc_id (advance_to p c) = p"
        using pivot_candidates(3) [OF ok ne Some] current_ge [of _ t] ok by (metis antisym)
      then show False using apart(2) by (simp add: list_all_iff)
    qed
    then show thesis
      using step apart p_ge p_le disagree [of p] by (simp only: if_False if_True simp_thms order_le_less)
  next
    case low
    then have at_p: "\<forall>c \<in> set cs. current_doc_id (advance_to p c) = p" by (simp add: list_all_iff)
    note same = total_bound_block [OF ok, of _ p tb db]
    show thesis
    proof (cases "list_min ?nbs")
      case None
      then have "?nbs = []" by (simp add: list_min_None)
      then show thesis
        using step low p_ge p_le same None last [of p] by (simp del: map_map map_eq_conv)
    next
      case nd: (Some u)
      note m = list_min_Some [OF nd]
      then obtain c where c: "c \<in> set cs" "next_block_doc_id (advance_to p c) = Some u"
        by (auto simp: in_map_filter)
      then have "p < u" using next_block_after ok at_p by blast
      moreover have "at_doc u (at_doc p cs) = at_doc u cs"
        using \<open>p < u\<close> by (intro at_doc_at_doc) simp
      moreover have "\<forall>d \<in> candidates cs. p \<le> d \<and> d < u \<longrightarrow>
          total_bound tb db (at_doc d cs) = total_bound tb db (at_doc p cs)"
        using same m by (meson less_le_trans)
      ultimately show thesis
        using step low p_ge p_le nd skip [of u p] by (simp del: map_map map_eq_conv)
    qed
  next
    case high
    then have "\<forall>c \<in> set cs. \<not> is_exhausted (advance_to p c) \<and> current_doc_id (advance_to p c) = p"
      by (auto simp: list_all_iff list_ex_iff)
    from pivot_candidate [OF ok ne this] show thesis
      using step high p_ge p_le evaluate [of p] by (simp del: map_map map_eq_conv)
  qed
qed

section \<open>The loop\<close>

lemma wand_ready_skip:
  assumes ready: "wand_ready score tb db k cs" and inv: "heap_inv score k D h"
    and low: "f32_le (total_bound tb db (at_doc p cs)) (heap_threshold h)"
    and d: "d \<in> candidates cs" "score d = Some s"
      "total_bound tb db (at_doc d cs) = total_bound tb db (at_doc p cs)"
  shows "beaten h s"
proof (rule le_threshold_beaten [OF inv])
  show "scores_positive score" "positive s"
    using ready d(2) by (auto simp: wand_ready_def scores_positive_def)
  have "f32_le s (total_bound tb db (at_doc d cs))"
    using ready d(1,2) unfolding wand_ready_def bounds_hold_def by blast
  then show "f32_le s (heap_threshold h)" using low d(3) f32_le_trans by simp
qed

lemma heap_inv_evaluate:
  assumes inv: "heap_inv score k D h" and pos: "scores_positive score" and p: "p \<notin> D"
  shows "heap_inv score k (insert p D) (case score p of None \<Rightarrow> h | Some s \<Rightarrow>
    if f32_lt (heap_threshold h) s \<or> f32_eq (heap_threshold h) (f32_of_nat 0) then heap_push p s h else h)"
proof (cases "score p")
  case None
  then show ?thesis using heap_inv_skip [OF inv, of "{p}"] by simp
next
  case (Some s)
  have s: "positive s" using pos Some by (simp add: scores_positive_def)
  note th = threshold_cases [OF inv pos]
  show ?thesis
  proof (cases "f32_lt (heap_threshold h) s \<or> f32_eq (heap_threshold h) (f32_of_nat 0)")
    case True
    have "fst (hd (hp_entries h)) < to_bits s" if "length (hp_entries h) = k"
    proof -
      have t: "heap_threshold h = F32 (fst (hd (hp_entries h)))" "positive (heap_threshold h)"
        using th that by auto
      then have "\<not> f32_eq (heap_threshold h) (f32_of_nat 0)"
        by (auto simp: positive_def zero_consts f32_eq_key f32_nonneg_key dest: f32_nonneg_bits)
          (metis f32.sel f32_nonneg_bits unat_gt_0 word_gt_0 zero_consts(2,3) unsigned_0 less_irrefl)
      then have "to_bits (heap_threshold h) < to_bits s"
        using True t(2) s f32_lt_bits [of "heap_threshold h" s] by (simp add: positive_def)
      then show ?thesis by (simp add: t(1))
    qed
    then show ?thesis using True Some heap_inv_push [OF inv p Some] by simp
  next
    case False
    have "\<not> length (hp_entries h) < k"
      using False th by (auto simp: zero_consts f32_eq_key)
    then have t: "heap_threshold h = F32 (fst (hd (hp_entries h)))" "positive (heap_threshold h)"
      using th by auto
    have "f32_le s (heap_threshold h)"
      using False s t(2) f32_lt_bits [of "heap_threshold h" s] f32_le_bits [of s "heap_threshold h"]
      by (simp add: positive_def not_less)
    then have "beaten h s" by (rule le_threshold_beaten [OF inv pos s])
    then show ?thesis using False Some heap_inv_skip [OF inv, of "{p}"] by simp
  qed
qed

lemma below_split:
  "\<forall>d \<in> candidates cs. d < t \<or> p \<le> d \<Longrightarrow> t \<le> p \<Longrightarrow> below cs p = below cs t"
  by (force simp: below_def)

text \<open>The loop ends, and at its end every candidate has been processed.\<close>

lemma wand_loop_correct:
  assumes ready: "wand_ready score tb db k cs" and inv: "heap_inv score k (below cs t) h"
  shows "\<exists>h'. wand_loop score tb db (at_doc t cs) h = Some h' \<and> heap_inv score k (candidates cs) h'"
  using inv
proof (induction "2 ^ 32 - unat t" arbitrary: t h rule: less_induct)
  case less
  have ok: "\<forall>c \<in> set cs. cursor_ok c" and ne: "cs \<noteq> []" and pos: "scores_positive score"
    using ready by (auto simp: wand_ready_def)
  have step_to: "\<exists>h''. wand_loop score tb db (at_doc u cs) h' = Some h'' \<and> heap_inv score k (candidates cs) h''"
    if "t < u" "heap_inv score k (below cs u) h'" for u h'
    using less.hyps [OF _ that(2)] that(1) unat_less(3) [of u] by (simp add: word_less_nat_alt)
  have all: "below cs p \<union> {d \<in> candidates cs. p \<le> d} = candidates cs" for p
    by (force simp: below_def)
  show ?case
  proof (rule wand_step_cases [OF ok ne, of score tb db t h], goal_cases)
    case 1
    then have "below cs t = candidates cs" by (auto simp: below_def)
    with 1(1) less.prems show ?case by (subst wand_loop.simps) simp
  next
    case (2 p)
    then have "heap_inv score k (below cs p) h" using below_split [OF 2(3)] less.prems by simp
    with step_to [OF 2(2)] 2(1) show ?case by (subst wand_loop.simps) simp
  next
    case (3 p u)
    have "below cs u = below cs p \<union> {d \<in> candidates cs. p \<le> d \<and> d < u}"
      using 3(3) by (force simp: below_def)
    moreover have "heap_inv score k (below cs p \<union> {d \<in> candidates cs. p \<le> d \<and> d < u}) h"
      using less.prems below_split [OF 3(4,2)] 3(5,6)
      by (intro heap_inv_skip) (auto intro: wand_ready_skip [OF ready less.prems])
    ultimately have "heap_inv score k (below cs u) h" by simp
    with step_to [of u h] 3(1,2,3) show ?case by (subst wand_loop.simps) simp
  next
    case (4 p)
    have "heap_inv score k (below cs p \<union> {d \<in> candidates cs. p \<le> d}) h"
      using less.prems below_split [OF 4(3,2)] 4(4,5)
      by (intro heap_inv_skip) (auto intro: wand_ready_skip [OF ready less.prems])
    then have "heap_inv score k (candidates cs) h" by (simp add: all)
    with 4(1) show ?case by (subst wand_loop.simps) simp
  next
    case (5 p)
    have "p \<noteq> - 1"
      using 5(3) ok ne by (cases cs) (auto simp: candidates_def cursor_ok_def)
    then have p1: "unat (p + 1) = Suc (unat p)" by (rule unat_inc)
    have "below cs (p + 1) = insert p (below cs p)"
      using 5(3) by (auto simp: below_def word_less_nat_alt p1 less_Suc_eq word_unat_eq_iff)
    moreover have "p \<notin> below cs p" by (simp add: below_def)
    moreover have "heap_inv score k (below cs p) h"
      using below_split [OF 5(4,2)] less.prems by simp
    moreover have "t < p + 1" using 5(2) by (simp add: word_less_nat_alt word_le_nat_alt p1)
    ultimately show ?case
      using step_to [of "p + 1"] heap_inv_evaluate [of score k "below cs p" h p] pos 5(1)
      by (subst wand_loop.simps) simp
  qed
qed

text \<open>Without the bounds the loop still ends, and what it has collected is sound.\<close>

definition heap_sound :: "(u32 \<Rightarrow> f32 option) \<Rightarrow> nat \<Rightarrow> u32 set \<Rightarrow> top_k_heap \<Rightarrow> bool" where
  "heap_sound score k D h \<longleftrightarrow>
     hp_k h = k \<and> length (hp_entries h) \<le> k \<and> distinct (map snd (hp_entries h)) \<and>
     (\<forall>(bits, d) \<in> set (hp_entries h). d \<in> D \<and> score d = Some (F32 bits))"

lemma heap_sound_mono: "heap_sound score k D h \<Longrightarrow> D \<subseteq> E \<Longrightarrow> heap_sound score k E h"
  by (auto simp: heap_sound_def)

lemma heap_sound_push:
  assumes "heap_sound score k D h" "d \<notin> D" "score d = Some s"
  shows "heap_sound score k (insert d D) (heap_push d s h)"
proof -
  let ?es = "insort (to_bits s, d) (hp_entries h)"
  have "d \<notin> snd ` set (hp_entries h)" using assms by (auto simp: heap_sound_def)
  then have dist: "distinct (map snd ?es)"
    using assms(1) by (simp add: heap_sound_def distinct_map_insort)
  have mem: "\<forall>(bits, d') \<in> set ?es. d' \<in> insert d D \<and> score d' = Some (F32 bits)"
    using assms by (auto simp: heap_sound_def set_insort_key)
  have "set (tl ?es) \<subseteq> set ?es" "distinct (map snd (tl ?es))"
    using dist by (auto simp: map_tl distinct_tl dest: list.set_sel(2) [rotated])
  then show ?thesis
    using dist mem assms(1) by (auto simp: heap_push_def heap_sound_def Let_def)
qed

lemma wand_loop_sound:
  assumes ok: "\<forall>c \<in> set cs. cursor_ok c" and ne: "cs \<noteq> []" and inv: "heap_sound score k (below cs t) h"
  shows "\<exists>h'. wand_loop score tb db (at_doc t cs) h = Some h' \<and> heap_sound score k (candidates cs) h'"
  using inv
proof (induction "2 ^ 32 - unat t" arbitrary: t h rule: less_induct)
  case less
  have step_to: "\<exists>h''. wand_loop score tb db (at_doc u cs) h' = Some h'' \<and> heap_sound score k (candidates cs) h''"
    if "t < u" "heap_sound score k (below cs u) h'" for u h'
    using less.hyps [OF _ that(2)] that(1) unat_less(3) [of u] by (simp add: word_less_nat_alt)
  have grow: "heap_sound score k (below cs u) h" if "t \<le> u" for u
    using that less.prems by (auto intro: heap_sound_mono simp: below_def)
  have fin: "heap_sound score k (candidates cs) h"
    using less.prems by (auto intro: heap_sound_mono simp: below_def)
  show ?case
  proof (rule wand_step_cases [OF ok ne, of score tb db t h], goal_cases)
    case 1
    with fin show ?case by (subst wand_loop.simps) simp
  next
    case (2 p)
    with step_to [OF 2(2)] grow [of p] show ?case by (subst wand_loop.simps) simp
  next
    case (3 p u)
    with step_to [of u h] grow [of u] show ?case by (subst wand_loop.simps) simp
  next
    case (4 p)
    with fin show ?case by (subst wand_loop.simps) simp
  next
    case (5 p)
    have "p \<noteq> - 1"
      using 5(3) ok ne by (cases cs) (auto simp: candidates_def cursor_ok_def)
    then have p1: "unat (p + 1) = Suc (unat p)" by (rule unat_inc)
    have b: "below cs (p + 1) = insert p (below cs p)"
      using 5(3) by (auto simp: below_def word_less_nat_alt p1 less_Suc_eq word_unat_eq_iff)
    have "p \<notin> below cs p" by (simp add: below_def)
    then have "heap_sound score k (below cs (p + 1)) (case score p of None \<Rightarrow> h | Some s \<Rightarrow>
        if f32_lt (heap_threshold h) s \<or> f32_eq (heap_threshold h) (f32_of_nat 0) then heap_push p s h else h)"
      using grow [OF 5(2)] heap_sound_push [of score k "below cs p" h p] heap_sound_mono [of score k "below cs p" h]
      by (auto simp: b subset_insertI split: option.splits)
    moreover have "t < p + 1" using 5(2) by (simp add: word_less_nat_alt word_le_nat_alt p1)
    ultimately show ?case using step_to [of "p + 1"] 5(1) by (subst wand_loop.simps) simp
  qed
qed

section \<open>The result\<close>

definition heap_order_ok :: "(entry list \<Rightarrow> entry list) \<Rightarrow> bool" where
  "heap_order_ok horder \<longleftrightarrow> (\<forall>es. mset (horder es) = mset es)"

lemma into_vec_mset:
  assumes "heap_order_ok horder"
  shows "mset (heap_into_vec horder h) = mset (map (\<lambda>(bits, d). (d, F32 bits)) (hp_entries h))"
  using assms by (simp add: heap_into_vec_def heap_order_ok_def)

lemma into_vec_docs:
  assumes "heap_order_ok horder"
  shows "distinct (map fst (heap_into_vec horder h)) \<longleftrightarrow> distinct (map snd (hp_entries h))"
proof -
  have "mset (map fst (heap_into_vec horder h)) =
      mset (map fst (map (\<lambda>(bits, d). (d, F32 bits)) (hp_entries h)))"
    using arg_cong [OF into_vec_mset [OF assms, of h], of "image_mset fst"] by (simp only: mset_map)
  also have "map fst (map (\<lambda>(bits, d). (d, F32 bits)) (hp_entries h)) = map snd (hp_entries h)"
    by (simp add: case_prod_beta)
  finally show ?thesis by (rule mset_eq_imp_distinct_iff)
qed

lemma into_vec_sorted:
  assumes "heap_order_ok horder" "\<forall>(bits, d) \<in> set (hp_entries h). \<not> f32_is_nan (F32 bits)"
  shows "sorted_wrt (\<lambda>a c. f32_le (snd c) (snd a)) (heap_into_vec horder h)"
proof -
  let ?xs = "map (\<lambda>(bits, d). (d, F32 bits)) (horder (hp_entries h)) :: (u32 \<times> f32) list"
  let ?cmp = "\<lambda>a c. f32_cmp_or_equal (snd c) (snd a)"
  have nn: "\<not> f32_is_nan (snd a)" if "a \<in> set ?xs" for a
    using that assms mset_eq_setD [of "horder (hp_entries h)" "hp_entries h"]
    by (auto simp: heap_order_ok_def)
  have key: "not_after ?cmp a c \<longleftrightarrow> - f32_key (snd a) \<le> - f32_key (snd c)"
    if "a \<in> set ?xs" "c \<in> set ?xs" for a c :: "u32 \<times> f32"
    using f32_cmp_or_equal_not_after [OF nn [OF that(2)] nn [OF that(1)]] by (simp add: not_after_def)
  then have "total_preorder_on (set ?xs) ?cmp" by (rule total_preorder_key_on)
  then have "sorted_by ?cmp (sort_by ?cmp ?xs)" by (rule sorted_sort_by)
  then show ?thesis
    unfolding heap_into_vec_def sorted_by_def
    by (rule sorted_wrt_mono_rel [rotated]) (use nn key in \<open>simp add: f32_le_key\<close>)
qed

lemma at_doc_0: "at_doc 0 cs = cs"
  by (induction cs) simp_all

lemma wand_top_k_loop:
  assumes "cs \<noteq> []" "0 < k" "wand_loop score tb db cs (heap_new k) = Some h"
  shows "wand_top_k horder cs k tb db score = Some (heap_into_vec horder h)"
  using assms by (simp add: wand_top_k_def)

lemma wand_top_k_sound:
  assumes "heap_order_ok horder" "\<forall>c \<in> set cs. cursor_ok c"
  shows "\<exists>res. wand_top_k horder cs k tb db score = Some res \<and> length res \<le> k \<and> distinct (map fst res) \<and>
    (\<forall>(d, s) \<in> set res. d \<in> candidates cs \<and> score d = Some s)"
proof (cases "cs = [] \<or> k = 0")
  case True
  then show ?thesis by (auto simp: wand_top_k_def)
next
  case False
  have "heap_sound score k (below cs 0) (heap_new k)"
    by (simp add: heap_sound_def heap_new_def)
  then obtain h where h: "wand_loop score tb db (at_doc 0 cs) (heap_new k) = Some h" "heap_sound score k (candidates cs) h"
    using wand_loop_sound [OF assms(2)] False by blast
  note h = h [unfolded at_doc_0]
  note m = into_vec_mset [OF assms(1), of h]
  have "length (heap_into_vec horder h) = length (hp_entries h)"
    using arg_cong [OF m, of size] by simp
  moreover note into_vec_docs [OF assms(1), of h]
  moreover have "set (heap_into_vec horder h) = (\<lambda>(bits, d). (d, F32 bits)) ` set (hp_entries h)"
    using mset_eq_setD [OF m] by simp
  ultimately show ?thesis
    using h False wand_top_k_loop [of cs k score tb db h horder] by (auto simp: heap_sound_def)
qed

section \<open>Properties\<close>

text \<open>
  C34: WAND retrieval terminates for any score function and any bounds, provided no list holds
  document \<open>u32::MAX\<close>; it returns at most \<open>k\<close> documents, none twice, each of them in every list
  (the AND semantics) and with the score the score function gives it.
\<close>
theorem wand_terminates_sound:
  assumes "heap_order_ok horder" "\<forall>c \<in> set cs. cursor_ok c"
  shows "\<exists>res. wand_top_k horder cs k tb db score = Some res \<and> length res \<le> k \<and> distinct (map fst res) \<and>
    (\<forall>(d, s) \<in> set res. d \<in> candidates cs \<and> score d = Some s)"
  using assms by (rule wand_top_k_sound)

text \<open>What a heap that keeps the best of the documents \<open>D\<close> answers.\<close>

lemma heap_count:
  assumes inv: "heap_inv score k D h" and fin: "finite D"
  shows "length (hp_entries h) = min k (card {d \<in> D. score d \<noteq> None})"
proof -
  let ?es = "hp_entries h" and ?S = "{d \<in> D. score d \<noteq> None}"
  have cov: "\<forall>d \<in> D. \<forall>s. score d = Some s \<longrightarrow> (to_bits s, d) \<in> set ?es \<or> beaten h s"
    and le: "length ?es \<le> k" and k: "hp_k h = k" and dd: "distinct (map snd ?es)"
    using inv by (auto simp: heap_inv_def)
  have sub: "snd ` set ?es \<subseteq> ?S" using inv by (auto simp: heap_inv_def)
  have card: "card (snd ` set ?es) = length ?es" using distinct_card [OF dd] by simp
  show ?thesis
  proof (cases "length ?es = k")
    case True
    have "finite ?S" using fin by simp
    then show ?thesis using True card card_mono [OF _ sub] by simp
  next
    case False
    then have "?S \<subseteq> snd ` set ?es" using cov k by (force simp: beaten_def)
    then have "?S = snd ` set ?es" using sub by simp
    then show ?thesis using card le by simp
  qed
qed

lemma heap_least:
  assumes inv: "heap_inv score k D h" and pos: "scores_positive score"
    and b: "beaten h s" "positive s" and e: "(bits, d) \<in> set (hp_entries h)"
  shows "f32_le s (F32 bits)"
proof -
  have srt: "sorted (hp_entries h)" and "score d = Some (F32 bits)" using inv e by (auto simp: heap_inv_def)
  then have "positive (F32 bits)" using pos by (auto simp: scores_positive_def)
  moreover have "hd (hp_entries h) \<le> (bits, d)" using srt e by (cases "hp_entries h") auto
  then have "fst (hd (hp_entries h)) \<le> bits" by (auto simp: less_eq_prod_def)
  then have "to_bits s \<le> bits" using b by (auto simp: beaten_def)
  ultimately show ?thesis using b(2) f32_le_bits [of s "F32 bits"] by (simp add: positive_def)
qed

lemma heap_answer:
  assumes order: "heap_order_ok horder" and inv: "heap_inv score k D h" and pos: "scores_positive score"
    and fin: "finite D"
  defines "res \<equiv> heap_into_vec horder h"
  shows "length res = min k (card {d \<in> D. score d \<noteq> None})"
    "\<forall>(d, s) \<in> set res. d \<in> D \<and> score d = Some s" "distinct (map fst res)"
    "sorted_wrt (\<lambda>a c. f32_le (snd c) (snd a)) res"
    "\<forall>d \<in> D. \<forall>s. score d = Some s \<longrightarrow> (d, s) \<in> set res \<or> (\<forall>(d', s') \<in> set res. f32_le s s')"
proof -
  let ?es = "hp_entries h"
  note m = into_vec_mset [OF order, of h, folded res_def]
  have set: "set res = (\<lambda>(bits, d). (d, F32 bits)) ` set ?es" using mset_eq_setD [OF m] by simp
  have mem: "\<forall>(bits, d) \<in> set ?es. d \<in> D \<and> score d = Some (F32 bits)" using inv by (simp add: heap_inv_def)
  show "length res = min k (card {d \<in> D. score d \<noteq> None})"
    using arg_cong [OF m, of size] heap_count [OF inv fin] by simp
  show "\<forall>(d, s) \<in> set res. d \<in> D \<and> score d = Some s" unfolding set using mem by auto
  show "distinct (map fst res)" using inv by (simp add: res_def into_vec_docs [OF order] heap_inv_def)
  show "sorted_wrt (\<lambda>a c. f32_le (snd c) (snd a)) res"
    unfolding res_def by (rule into_vec_sorted [OF order]) (use mem pos in \<open>auto simp: scores_positive_def positive_def\<close>)
  show "\<forall>d \<in> D. \<forall>s. score d = Some s \<longrightarrow> (d, s) \<in> set res \<or> (\<forall>(d', s') \<in> set res. f32_le s s')"
  proof (intro ballI allI impI)
    fix d s assume d: "d \<in> D" "score d = Some s"
    have "positive s" using d pos by (simp add: scores_positive_def)
    consider "(to_bits s, d) \<in> set ?es" | "beaten h s" using inv d by (auto simp: heap_inv_def)
    then show "(d, s) \<in> set res \<or> (\<forall>(d', s') \<in> set res. f32_le s s')"
    proof cases
      case 1
      then show ?thesis unfolding set by (intro disjI1 image_eqI [of _ _ "(to_bits s, d)"]) simp_all
    next
      case 2
      then show ?thesis using heap_least [OF inv pos 2 \<open>positive s\<close>] unfolding set by fastforce
    qed
  qed
qed

text \<open>
  C6: when scores are positive and the block bounds really bound the scores of the documents in the
  blocks, WAND is exact: it returns as many documents as there are, up to \<open>k\<close>, sorted by
  descending score, and every document in all lists that it leaves out scores no more than any
  document it returns; the skipped blocks lose nothing.
\<close>
theorem wand_exact:
  assumes order: "heap_order_ok horder" and ok: "\<forall>c \<in> set cs. cursor_ok c" and "cs \<noteq> []" "0 < k"
    and pos: "scores_positive score" and bounds: "bounds_hold score tb db cs"
  shows "\<exists>res. wand_top_k horder cs k tb db score = Some res \<and>
    length res = min k (card {d \<in> candidates cs. score d \<noteq> None}) \<and>
    (\<forall>(d, s) \<in> set res. d \<in> candidates cs \<and> score d = Some s) \<and> distinct (map fst res) \<and>
    sorted_wrt (\<lambda>a c. f32_le (snd c) (snd a)) res \<and>
    (\<forall>d \<in> candidates cs. \<forall>s. score d = Some s \<longrightarrow>
       (d, s) \<in> set res \<or> (\<forall>(d', s') \<in> set res. f32_le s s'))"
proof -
  have "wand_ready score tb db k cs" using assms by (simp add: wand_ready_def)
  moreover have "heap_inv score k (below cs 0) (heap_new k)"
    using heap_inv_new [OF \<open>0 < k\<close>] by (simp add: below_def)
  ultimately obtain h where h: "wand_loop score tb db (at_doc 0 cs) (heap_new k) = Some h"
    and inv: "heap_inv score k (candidates cs) h"
    using wand_loop_correct by blast
  have "finite (candidates cs)" by (rule finite)
  note res = heap_answer [OF order inv pos this]
  show ?thesis
    using wand_top_k_loop [OF assms(3,4) h [unfolded at_doc_0], of horder] res
    by (intro exI [of _ "heap_into_vec horder h"] conjI) simp_all
qed

text \<open>Two lists that share the documents 3 and 5, and their scores.\<close>

definition example_cursors :: "term_cursor list" where
  "example_cursors =
     [\<lparr>tc_postings = map (\<lambda>d. \<lparr>p_doc_id = d, p_term_freq = 1, p_doc_len = 4\<rparr>) [1, 3, 5],
       tc_blocks = [\<lparr>max_impact = f32_of_nat 1\<rparr>], tc_position = 0, tc_idf = f32_of_nat 1,
       tc_avgdl = f32_of_nat 4, tc_scorer = default_scorer\<rparr>,
      \<lparr>tc_postings = map (\<lambda>d. \<lparr>p_doc_id = d, p_term_freq = 2, p_doc_len = 4\<rparr>) [3, 5, 9],
       tc_blocks = [\<lparr>max_impact = f32_of_nat 1\<rparr>], tc_position = 0, tc_idf = f32_of_nat 1,
       tc_avgdl = f32_of_nat 4, tc_scorer = default_scorer\<rparr>]"

definition example_score :: "u32 \<Rightarrow> f32 option" where
  "example_score d = (if d = 3 then Some (f32_of_nat 2) else if d = 5 then Some (f32_of_nat 3) else None)"

lemma example_cursor_facts:
  "\<forall>c \<in> set example_cursors. cursor_ok c" "example_cursors \<noteq> []" "candidates example_cursors = {3, 5}"
  by (auto simp: example_cursors_def cursor_ok_def ids_ascending_def rest_ids_def candidates_def)

lemma example_scores_positive: "scores_positive example_score"
  by (auto simp: scores_positive_def example_score_def positive_def f32_nonneg_def f32_eval
      cong: let_weak_cong if_weak_cong split: if_splits)

definition example_bound :: f32 where
  "example_bound = f32_mul (f32_mul (f32_of_frac 3 2) (f32_of_nat 1))
     (f32_add (f32_mul (f32_of_nat 1) (f32_of_nat 1))
        (f32_mul (f32_of_nat 1) (f32_add SCORER_K1 (f32_of_nat 1))))"

lemma example_bound_value: "example_bound = F32 0x4099999a"
  unfolding example_bound_def SCORER_K1_def by (simp add: f32_eval cong: let_weak_cong if_weak_cong)

lemma example_bound_sums:
  "f32_le (f32_of_nat 2) (f32_add (f32_add (f32_of_nat 0) example_bound) example_bound)"
  "f32_le (f32_of_nat 3) (f32_add (f32_add (f32_of_nat 0) example_bound) example_bound)"
proof -
  have sums: "f32_add (F32 0) (F32 0x4099999a) = F32 0x4099999a"
      "f32_add (F32 0x4099999a) (F32 0x4099999a) = F32 0x4119999a"
      "f32_of_nat 2 = F32 0x40000000" "f32_of_nat 3 = F32 0x40400000"
    by (simp_all add: f32_eval floorlog_def [of 2 0] cong: let_weak_cong if_weak_cong)
  show "f32_le (f32_of_nat 2) (f32_add (f32_add (f32_of_nat 0) example_bound) example_bound)"
    "f32_le (f32_of_nat 3) (f32_add (f32_add (f32_of_nat 0) example_bound) example_bound)"
    unfolding example_bound_value f32_consts sums
    by (simp_all add: f32_le_def f32_is_nan_def raw_nan_def raw_cmp_def raw_key_def cmp_of_def raw32_def
        f32_partial_cmp_def Let_def)
qed

lemma example_bounds_hold: "bounds_hold example_score (f32_of_nat 1) (f32_of_nat 1) example_cursors"
proof -
  have "block_upper_bound (f32_of_nat 1) (f32_of_nat 1) (advance_to d c) = example_bound"
    if "c \<in> set example_cursors" "d = 3 \<or> d = 5" for c d
    using that
    by (auto simp: example_cursors_def block_upper_bound_def advance_to_def partition_point_def
        BLOCK_SIZE_def example_bound_def)
  then have "total_bound (f32_of_nat 1) (f32_of_nat 1) (at_doc d example_cursors) =
      f32_add (f32_add (f32_of_nat 0) example_bound) example_bound" if "d = 3 \<or> d = 5" for d
    using that by (simp add: total_bound_def example_cursors_def)
  then show ?thesis
    by (auto simp: bounds_hold_def example_cursor_facts example_score_def intro: example_bound_sums)
qed

lemma wand_terminates_sound_witness:
  "\<exists>res. wand_top_k rev example_cursors 1 (f32_of_nat 1) (f32_of_nat 1) example_score = Some res \<and>
     length res \<le> 1 \<and> distinct (map fst res) \<and>
     (\<forall>(d, s) \<in> set res. d \<in> candidates example_cursors \<and> example_score d = Some s)"
  by (rule wand_terminates_sound) (use example_cursor_facts in \<open>simp_all add: heap_order_ok_def\<close>)

lemma wand_exact_witness:
  "\<exists>res. wand_top_k rev example_cursors 1 (f32_of_nat 1) (f32_of_nat 1) example_score = Some res \<and>
     length res = min 1 (card {d \<in> candidates example_cursors. example_score d \<noteq> None}) \<and>
     (\<forall>(d, s) \<in> set res. d \<in> candidates example_cursors \<and> example_score d = Some s) \<and>
     distinct (map fst res) \<and> sorted_wrt (\<lambda>a c. f32_le (snd c) (snd a)) res \<and>
     (\<forall>d \<in> candidates example_cursors. \<forall>s. example_score d = Some s \<longrightarrow>
        (d, s) \<in> set res \<or> (\<forall>(d', s') \<in> set res. f32_le s s'))"
  by (rule wand_exact)
    (use example_cursor_facts example_scores_positive example_bounds_hold in \<open>simp_all add: heap_order_ok_def\<close>)

end
