(* ===== verification/Executor.thy ===== *)
theory Executor
  imports Understanding Collector Wand "HOL-Library.AList"
begin

text \<open>
  \<open>crates/query/src/executor.rs\<close>: executing a search request on one segment.  A query is
  analyzed, its tokens are expanded to posting lists, WAND retrieves the best documents of the
  conjunction with the exact score of \<open>exact_score\<close>, and a query of several tokens without a
  match falls back to the disjunction.

  The record \<open>query_env\<close> collects what the crate takes from elsewhere: the libraries of the index,
  \<open>f32::ln\<close>, and the orders the standard library leaves open (the unstable sort, and the iteration
  order of a \<open>BinaryHeap\<close> and of the \<open>HashMap\<close>s of scores, of buckets and of aggregated fields).
  The code returns a \<open>Result\<close> but every return is \<open>Ok\<close>; \<open>None\<close> is a retrieval that does not end.
\<close>

section \<open>Edit distance\<close>

text \<open>The rows of the table \<open>dp\<close>: row 0, and row \<open>i\<close> from the previous row.\<close>

fun dp_cells :: "'a \<Rightarrow> 'a list \<Rightarrow> nat list \<Rightarrow> nat \<Rightarrow> nat list" where
  "dp_cells x (y # b) (diag # up # prev) left =
     (let cell = (if x = y then diag else 1 + min (min up left) diag)
      in cell # dp_cells x b (up # prev) cell)"
| "dp_cells x b prev left = []"

definition dp_row :: "nat \<Rightarrow> 'a \<Rightarrow> 'a list \<Rightarrow> nat list \<Rightarrow> nat list" where
  "dp_row i x b prev = i # dp_cells x b prev i"

definition dp_table :: "'a list \<Rightarrow> 'a list \<Rightarrow> nat list" where
  "dp_table a b = foldl (\<lambda>prev (i, x). dp_row i x b prev) [0..<Suc (length b)] (List.enumerate 1 a)"

definition edit_distance :: "string \<Rightarrow> string \<Rightarrow> nat" where
  "edit_distance a b = (let a = chars a; b = chars b in dp_table a b ! length b)"

section \<open>The environment\<close>

record query_env =
  qe_index :: index_env
  qe_ln :: "f32 \<Rightarrow> f32"
  qe_usort :: "scored_doc comparator \<Rightarrow> scored_doc list \<Rightarrow> scored_doc list"
  qe_psort :: "posting comparator \<Rightarrow> posting list \<Rightarrow> posting list"
  qe_heap_order :: "entry list \<Rightarrow> entry list"
  qe_score_order :: "(u32 \<times> f32) list \<Rightarrow> (u32 \<times> f32) list"
  qe_bucket_order :: "(string \<times> u64) list \<Rightarrow> (string \<times> u64) list"
  qe_field_order :: "(string \<times> (string \<times> u64) list) list \<Rightarrow> (string \<times> (string \<times> u64) list) list"

definition query_env_ok :: "query_env \<Rightarrow> bool" where
  "query_env_ok q \<longleftrightarrow>
     sort_contract (qe_usort q) \<and> sort_contract (qe_psort q) \<and> heap_order_ok (qe_heap_order q) \<and>
     (\<forall>xs. mset (qe_score_order q xs) = mset xs) \<and> (\<forall>xs. mset (qe_bucket_order q xs) = mset xs) \<and>
     (\<forall>xs. mset (qe_field_order q xs) = mset xs)"

abbreviation qe_text :: "query_env \<Rightarrow> text_env" where
  "qe_text q \<equiv> ie_text (qe_index q)"

section \<open>Expanding the query\<close>

record segment_search_result =
  ss_scored_docs :: "scored_doc list"
  ss_total_hits :: u64
  ss_aggregations :: "(string \<times> (string \<times> u64) list) list"
  ss_retrieval_mode :: retrieval_mode

definition build_filter_bitmap :: "segment_reader \<Rightarrow> search_request \<Rightarrow> bitmap option" where
  "build_filter_bitmap reader request =
     (if q_filters request = [] then None
      else Some (foldl (\<lambda>combined (field, flt).
          combined \<inter> (case flt of
             Equality eq \<Rightarrow> filter_eq reader field eq
           | Range gte lte \<Rightarrow> filter_range reader field gte lte
           | MultiValue vals \<Rightarrow> filter_in reader field vals))
        (all_live_docs reader) (q_filters request)))"

definition sort_value ::
  "index_env \<Rightarrow> segment_reader \<Rightarrow> u32 \<Rightarrow> sort_spec option \<Rightarrow> f64 option" where
  "sort_value env reader local_doc_id srt =
     (case srt of None \<Rightarrow> None | Some spec \<Rightarrow>
      (case doc_at env reader local_doc_id of None \<Rightarrow> None | Some doc \<Rightarrow>
         if sort_field spec = ''price'' then Some (d_price doc)
         else (case d_attributes doc (sort_field spec) of Some (VNumber v) \<Rightarrow> Some v | _ \<Rightarrow> None)))"

text \<open>The posting lists of a token: those of the terms it is a prefix of, or else the terms within
  a few edits, or else its own.\<close>

definition raw_lists ::
  "index_env \<Rightarrow> segment_reader \<Rightarrow> search_request \<Rightarrow> string \<Rightarrow> posting_list list" where
  "raw_lists env reader request t =
     (let pre = prefix_at reader t
      in if pre \<noteq> [] then map snd pre
         else if q_typo_tolerance request \<and> length t > 4 then
           let max_dist = (if length t \<le> 6 then 1 else 2)
           in map snd (fuzzy_at env reader t max_dist)
         else (case term_at reader t of None \<Rightarrow> [] | Some pl \<Rightarrow> [pl]))"

definition token_cursor :: "query_env \<Rightarrow> segment_statistics \<Rightarrow> posting_list list \<Rightarrow> term_cursor" where
  "token_cursor q stats pls =
     (let total_df = sum_list (map (\<lambda>pl. word_of_nat (pl_len pl)) pls);
          avgdl = avg_length_or stats ''title'' (f32_of_nat 8);
          merged = rebuild_blocks avgdl (pl_merge (qe_psort q) pls);
          weight = idf (qe_ln q) (st_total_docs stats) total_df
      in cursor_new merged weight avgdl default_scorer)"

text \<open>One cursor per query token; a token without a list ends the search.\<close>

fun token_cursors ::
  "query_env \<Rightarrow> segment_reader \<Rightarrow> segment_statistics \<Rightarrow> search_request \<Rightarrow> token list \<Rightarrow>
   term_cursor list option" where
  "token_cursors q reader stats request [] = Some []"
| "token_cursors q reader stats request (tok # toks) =
     (let pls = raw_lists (qe_index q) reader request (t_text tok)
      in if pls = [] then None
         else map_option ((#) (token_cursor q stats pls)) (token_cursors q reader stats request toks))"

definition field_boost_or :: "index_schema \<Rightarrow> string \<Rightarrow> f32 \<Rightarrow> f32" where
  "field_boost_or schema name dflt =
     (case List.find (\<lambda>f. f_name f = name) schema of None \<Rightarrow> dflt | Some f \<Rightarrow> f_boost f)"

definition candidate_limit :: "search_request \<Rightarrow> nat" where
  "candidate_limit request =
     max (max (q_offset request + q_limit request) (q_limit request * 10)) 200"

section \<open>Scoring a candidate\<close>

definition matches_prefix :: "token \<Rightarrow> token \<Rightarrow> bool" where
  "matches_prefix tok t \<longleftrightarrow> t_text t = t_text tok \<or> prefix (t_text tok) (t_text t)"

definition tokens_where :: "(token \<Rightarrow> bool) \<Rightarrow> token list \<Rightarrow> u32" where
  "tokens_where P toks = word_of_nat (length (filter P toks))"

definition exact_idf :: "query_env \<Rightarrow> segment_reader \<Rightarrow> segment_statistics \<Rightarrow> string \<Rightarrow> f32" where
  "exact_idf q reader stats t =
     (let df = (case term_at reader t of None \<Rightarrow> 1 | Some pl \<Rightarrow> word_of_nat (pl_len pl))
      in idf (qe_ln q) (st_total_docs stats) df)"

text \<open>What one query token adds to the score of a field: its matches by prefix, or, where typos are
  tolerated (\<open>fuzzy\<close>), its matches within a few edits.\<close>

definition add_token_score ::
  "query_env \<Rightarrow> segment_reader \<Rightarrow> segment_statistics \<Rightarrow> bool \<Rightarrow> field_config \<Rightarrow> token list \<Rightarrow> f32 \<Rightarrow>
   token \<Rightarrow> f32" where
  "add_token_score q reader stats fuzzy field doc_tokens total_score tok =
     (let dl = word_of_nat (length doc_tokens);
          avgdl = avg_length_or stats (f_name field) (f32_of_nat 1);
          contribution = (\<lambda>tf. f32_mul (f_boost field)
            (term_score default_scorer tf dl avgdl (exact_idf q reader stats (t_text tok))));
          tf = tokens_where (matches_prefix tok) doc_tokens
      in if tf = 0 then
           if fuzzy \<and> length (t_text tok) \<ge> 3 then
             let max_dist = (if length (t_text tok) \<le> 4 then 1 else 2);
                 fuzzy_tf = tokens_where (\<lambda>t. edit_distance (t_text t) (t_text tok) \<le> max_dist) doc_tokens
             in if fuzzy_tf > 0 then f32_add total_score (contribution fuzzy_tf) else total_score
           else total_score
         else f32_add total_score (contribution tf))"

definition add_field_score ::
  "query_env \<Rightarrow> segment_reader \<Rightarrow> segment_statistics \<Rightarrow> bool \<Rightarrow> token list \<Rightarrow> document \<Rightarrow> f32 \<Rightarrow>
   field_config \<Rightarrow> f32" where
  "add_field_score q reader stats fuzzy query_tokens doc total_score field =
     (if \<not> f_indexed field \<or> f_type field \<noteq> Text then total_score
      else if f_name field = ''title'' then
        foldl (add_token_score q reader stats fuzzy field
            (analyze (qe_text q) (analyzer_build (f_analyzer field)) (d_title doc))) total_score query_tokens
      else if f_name field = ''description'' then
        foldl (add_token_score q reader stats fuzzy field
            (analyze (qe_text q) (analyzer_build (f_analyzer field)) (d_description doc))) total_score query_tokens
      else total_score)"

definition bm25_total ::
  "query_env \<Rightarrow> index_schema \<Rightarrow> segment_reader \<Rightarrow> segment_statistics \<Rightarrow> bool \<Rightarrow> token list \<Rightarrow>
   document \<Rightarrow> f32" where
  "bm25_total q schema reader stats fuzzy query_tokens doc =
     foldl (add_field_score q reader stats fuzzy query_tokens doc) (f32_of_nat 0) schema"

text \<open>The first three tokens of the title cover the query.\<close>

definition title_starts_with_query ::
  "query_env \<Rightarrow> index_schema \<Rightarrow> token list \<Rightarrow> document \<Rightarrow> bool" where
  "title_starts_with_query q schema query_tokens doc \<longleftrightarrow>
     (let ty = (case List.find (\<lambda>f. f_name f = ''title'') schema of
            None \<Rightarrow> KeywordAnalyzer | Some f \<Rightarrow> f_analyzer f);
          first = take 3 (analyze (qe_text q) (analyzer_build ty) (d_title doc))
      in query_tokens \<noteq> [] \<and> (\<forall>qt \<in> set query_tokens. \<exists>tt \<in> set first. matches_prefix qt tt))"

definition exact_score ::
  "query_env \<Rightarrow> index_schema \<Rightarrow> segment_reader \<Rightarrow> segment_statistics \<Rightarrow> search_request \<Rightarrow>
   bitmap option \<Rightarrow> token list \<Rightarrow> u32 \<Rightarrow> f32 option" where
  "exact_score q schema reader stats request flt query_tokens local_doc_id =
     (if (case flt of None \<Rightarrow> False | Some f \<Rightarrow> local_doc_id \<notin> f) then None
      else case doc_at (qe_index q) reader local_doc_id of None \<Rightarrow> None
      | Some doc \<Rightarrow>
          let total_score = bm25_total q schema reader stats (q_typo_tolerance request) query_tokens doc
          in if f32_le total_score (f32_of_nat 0) then None
             else if title_starts_with_query q schema query_tokens doc
             then Some (f32_mul total_score (f32_of_frac 3 2))
             else Some total_score)"

definition or_score ::
  "query_env \<Rightarrow> index_schema \<Rightarrow> segment_reader \<Rightarrow> segment_statistics \<Rightarrow> bitmap option \<Rightarrow> token list \<Rightarrow>
   u32 \<Rightarrow> f32 option" where
  "or_score q schema reader stats flt query_tokens local_doc_id =
     (if (case flt of None \<Rightarrow> False | Some f \<Rightarrow> local_doc_id \<notin> f) then None
      else case doc_at (qe_index q) reader local_doc_id of None \<Rightarrow> None
      | Some doc \<Rightarrow>
          let total_score = bm25_total q schema reader stats False query_tokens doc
          in if f32_lt (f32_of_nat 0) total_score then Some total_score else None)"

section \<open>Executing a request\<close>

definition to_scored_docs ::
  "query_env \<Rightarrow> segment_reader \<Rightarrow> nat \<Rightarrow> search_request \<Rightarrow> (u32 \<times> f32) list \<Rightarrow> scored_doc list" where
  "to_scored_docs q reader segment_ord request results =
     List.map_filter (\<lambda>(local_doc_id, score).
       case doc_at (qe_index q) reader local_doc_id of None \<Rightarrow> None
       | Some doc \<Rightarrow> Some \<lparr>sd_segment_ord = segment_ord, sd_local_doc_id = local_doc_id,
           sd_global_doc_id = d_id doc, sd_score = score,
           sd_sort_value = sort_value (qe_index q) reader local_doc_id (q_sort request)\<rparr>) results"

definition query_analyzer_of :: "index_schema \<Rightarrow> analyzer" where
  "query_analyzer_of schema =
     (case List.find (\<lambda>f. f_indexed f \<and> f_type f = Text) schema of
        None \<Rightarrow> analyzer_build KeywordAnalyzer | Some f \<Rightarrow> analyzer_build (f_analyzer f))"

definition score_query_wand ::
  "query_env \<Rightarrow> index_schema \<Rightarrow> segment_reader \<Rightarrow> segment_statistics \<Rightarrow> nat \<Rightarrow> search_request \<Rightarrow>
   bitmap option \<Rightarrow> string list \<Rightarrow> scored_doc list option" where
  "score_query_wand q schema reader stats segment_ord request flt token_texts =
     (if token_texts = [] then Some []
      else let query_tokens = analyze (qe_text q) (query_analyzer_of schema) (q_query request)
      in if query_tokens = [] then Some []
      else case token_cursors q reader stats request query_tokens of None \<Rightarrow> Some []
      | Some cursors \<Rightarrow>
          map_option (to_scored_docs q reader segment_ord request)
            (wand_top_k (qe_heap_order q) cursors (candidate_limit request)
               (field_boost_or schema ''title'' (f32_of_nat 2))
               (field_boost_or schema ''description'' (f32_of_nat 1))
               (exact_score q schema reader stats request flt query_tokens)))"

text \<open>\<open>score_map.entry(id).or_default() += score\<close>, on the entries of the \<open>HashMap\<close>.\<close>

definition add_score :: "(u32 \<times> f32) list \<Rightarrow> u32 \<times> f32 \<Rightarrow> (u32 \<times> f32) list" where
  "add_score m e = (let (d, s) = e in hm_entry d (\<lambda>x. f32_add (or_default (f32_of_nat 0) x) s) m)"

fun or_scores ::
  "query_env \<Rightarrow> index_schema \<Rightarrow> segment_reader \<Rightarrow> segment_statistics \<Rightarrow> search_request \<Rightarrow>
   bitmap option \<Rightarrow> token list \<Rightarrow> (u32 \<times> f32) list \<Rightarrow> string list \<Rightarrow> (u32 \<times> f32) list option" where
  "or_scores q schema reader stats request flt query_tokens score_map [] = Some score_map"
| "or_scores q schema reader stats request flt query_tokens score_map (t # ts) =
     (let pls = raw_lists (qe_index q) reader request t
      in if pls = [] then or_scores q schema reader stats request flt query_tokens score_map ts
         else case wand_top_k (qe_heap_order q) [token_cursor q stats pls] (candidate_limit request)
                (field_boost_or schema ''title'' (f32_of_nat 2))
                (field_boost_or schema ''description'' (f32_of_nat 1))
                (or_score q schema reader stats flt query_tokens) of
           None \<Rightarrow> None
         | Some token_results \<Rightarrow>
             or_scores q schema reader stats request flt query_tokens
               (foldl add_score score_map token_results) ts)"

definition score_query_or_fallback ::
  "query_env \<Rightarrow> index_schema \<Rightarrow> segment_reader \<Rightarrow> segment_statistics \<Rightarrow> nat \<Rightarrow> search_request \<Rightarrow>
   bitmap option \<Rightarrow> string list \<Rightarrow> scored_doc list option" where
  "score_query_or_fallback q schema reader stats segment_ord request flt token_texts =
     (let query_tokens = analyze (qe_text q) (query_analyzer_of schema) (q_query request)
      in map_option (\<lambda>score_map.
             to_scored_docs q reader segment_ord request (qe_score_order q score_map))
           (or_scores q schema reader stats request flt query_tokens [] token_texts))"

definition all_scored ::
  "query_env \<Rightarrow> segment_reader \<Rightarrow> nat \<Rightarrow> search_request \<Rightarrow> bitmap option \<Rightarrow> scored_doc list" where
  "all_scored q reader segment_ord request flt =
     (let live = all_live_docs reader;
          matching = (case flt of Some f \<Rightarrow> live \<inter> f | None \<Rightarrow> live)
      in map (\<lambda>i. \<lparr>sd_segment_ord = segment_ord, sd_local_doc_id = i,
             sd_global_doc_id = (case doc_at (qe_index q) reader i of None \<Rightarrow> ucast i | Some d \<Rightarrow> d_id d),
             sd_score = f32_of_nat 1,
             sd_sort_value = sort_value (qe_index q) reader i (q_sort request)\<rparr>)
           (sorted_list_of_set matching))"

text \<open>\<open>collect\<close> into a \<open>HashMap\<close>: a repeated key is overwritten.\<close>

definition aggregate_fields ::
  "segment_reader \<Rightarrow> string list \<Rightarrow> bitmap \<Rightarrow> (string \<times> (string \<times> u64) list) list" where
  "aggregate_fields reader names matching =
     foldl (\<lambda>m f. AList.update f (aggregate_counts reader f matching) m) [] names"

definition execute ::
  "query_env \<Rightarrow> index_schema \<Rightarrow> segment_reader \<Rightarrow> segment_statistics \<Rightarrow> nat \<Rightarrow> search_request \<Rightarrow>
   segment_search_result option" where
  "execute q schema reader stats segment_ord request =
     (let filter_bitmap = build_filter_bitmap reader request;
          scored_mode =
            (if q_query request = [] then
               Some (all_scored q reader segment_ord request filter_bitmap, AndMode)
             else
               let parsed = qu_run (qe_text q) (default_for_schema schema) (q_query request)
               in case score_query_wand q schema reader stats segment_ord request filter_bitmap
                         (pq_tokens parsed) of None \<Rightarrow> None
                  | Some and_results \<Rightarrow>
                      if and_results = [] \<and> length (pq_tokens parsed) > 1 then
                        map_option (\<lambda>or_results. (or_results, OrFallback))
                          (score_query_or_fallback q schema reader stats segment_ord request
                             filter_bitmap (pq_tokens parsed))
                      else Some (and_results, AndMode))
      in map_option (\<lambda>(scored, mode).
           \<lparr>ss_scored_docs = scored, ss_total_hits = word_of_nat (length scored),
            ss_aggregations = aggregate_fields reader (q_aggregations request)
              (set (map sd_local_doc_id scored)),
            ss_retrieval_mode = mode\<rparr>) scored_mode)"

section \<open>The table computes the edit distance\<close>

text \<open>An alignment of two texts with its cost: characters are kept, deleted, inserted or replaced.\<close>

inductive edits :: "nat \<Rightarrow> 'a list \<Rightarrow> 'a list \<Rightarrow> bool" where
  empty: "edits 0 [] []"
| keep: "edits n a b \<Longrightarrow> edits n (a @ [x]) (b @ [x])"
| delete: "edits n a b \<Longrightarrow> edits (Suc n) (a @ [x]) b"
| insert: "edits n a b \<Longrightarrow> edits (Suc n) a (b @ [y])"
| replace: "edits n a b \<Longrightarrow> edits (Suc n) (a @ [x]) (b @ [y])"

text \<open>The recurrence of the table, on reversed prefixes.\<close>

fun lev :: "'a list \<Rightarrow> 'a list \<Rightarrow> nat" where
  "lev [] ys = length ys"
| "lev (x # xs) [] = Suc (length xs)"
| "lev (x # xs) (y # ys) =
     (if x = y then lev xs ys else 1 + min (min (lev xs (y # ys)) (lev (x # xs) ys)) (lev xs ys))"

lemma lev_Nil [simp]: "lev xs [] = length xs"
  by (cases xs) simp_all

lemma lev_step:
  "lev (x # xs) ys \<le> Suc (lev xs ys) \<and> lev xs ys \<le> Suc (lev (x # xs) ys) \<and>
   lev xs (y # ys) \<le> Suc (lev xs ys) \<and> lev xs ys \<le> Suc (lev xs (y # ys))"
proof (induction "length xs + length ys" arbitrary: x xs y ys rule: less_induct)
  case less
  have "lev (x # xs) ys \<le> Suc (lev xs ys) \<and> lev xs ys \<le> Suc (lev (x # xs) ys)"
  proof (cases ys)
    case (Cons z zs)
    show ?thesis using less [of xs zs x z] by (auto simp: Cons min_def)
  qed simp
  moreover have "lev xs (y # ys) \<le> Suc (lev xs ys) \<and> lev xs ys \<le> Suc (lev xs (y # ys))"
  proof (cases xs)
    case (Cons z zs)
    show ?thesis using less [of zs ys z y] by (auto simp: Cons min_def)
  qed simp
  ultimately show ?case by simp
qed

lemma edits_ge_lev: "edits n a b \<Longrightarrow> lev (rev a) (rev b) \<le> n"
proof (induction rule: edits.induct)
  case (delete n a b x)
  then show ?case using lev_step [of x "rev a" "rev b" x] by simp
next
  case (insert n a b y)
  then show ?case using lev_step [of y "rev a" "rev b" y] by simp
next
  case (replace n a b x y)
  then show ?case by (auto simp: min_def)
qed simp_all

lemma edits_deletes: "edits (length a) a []"
  by (induction a rule: rev_induct) (auto intro: edits.intros)

lemma edits_inserts: "edits (length b) [] b"
  by (induction b rule: rev_induct) (auto intro: edits.intros)

lemma edits_lev: "edits (lev xs ys) (rev xs) (rev ys)"
proof (induction xs ys rule: lev.induct)
  case (1 ys)
  then show ?case using edits_inserts [of "rev ys"] by simp
next
  case (2 x xs)
  then show ?case using edits_deletes [of "rev (x # xs)"] by simp
next
  case (3 x xs y ys)
  then show ?case
    using edits.delete [of _ "rev xs" "rev (y # ys)" x] edits.insert [of _ "rev (x # xs)" "rev ys" y]
      edits.replace [of _ "rev xs" "rev ys" x y] edits.keep [of _ "rev xs" "rev ys" x]
    by (auto simp: min_def)
qed

lemma dp_cells_lev:
  "dp_cells x b (map (\<lambda>k. lev xs (rev (take k b) @ ys)) [0..<Suc (length b)]) (lev (x # xs) ys) =
     map (\<lambda>k. lev (x # xs) (rev (take k b) @ ys)) [1..<Suc (length b)]"
proof (induction b arbitrary: ys)
  case (Cons y b)
  have up: "map f [0..<Suc (Suc n)] = f 0 # map (\<lambda>k. f (Suc k)) [0..<Suc n]"
    "map f [1..<Suc (Suc n)] = f 1 # map (\<lambda>k. f (Suc k)) [1..<Suc n]" for f :: "nat \<Rightarrow> nat" and n
    by (simp_all add: upt_conv_Cons map_Suc_upt [symmetric] comp_def del: upt_Suc)
  note * = up [of _ "length b"]
  show ?case
    using Cons [of "y # ys"] by (simp add: * Let_def del: upt_Suc lev.simps(3) One_nat_def) (simp add: upt_conv_Cons Let_def del: upt_Suc)
qed simp

lemma dp_table_lev:
  "dp_table a b = map (\<lambda>k. lev (rev a) (rev (take k b))) [0..<Suc (length b)]"
proof (induction a rule: rev_induct)
  case Nil
  show ?case by (rule nth_equalityI) (simp_all add: dp_table_def del: upt_Suc)
next
  case (snoc x a)
  show ?case
    using snoc dp_cells_lev [of x b "rev a" "[]"]
    by (simp add: dp_table_def enumerate_append_eq dp_row_def upt_conv_Cons del: upt_Suc)
qed

lemma edit_distance_lev: "edit_distance a b = lev (rev (chars a)) (rev (chars b))"
  by (simp add: edit_distance_def Let_def dp_table_lev del: upt_Suc)

section \<open>Cursors of a reader\<close>

text \<open>No list of the reader names document \<open>u32::MAX\<close>.\<close>

definition reader_in_range :: "index_env \<Rightarrow> segment_reader \<Rightarrow> bool" where
  "reader_in_range env r \<longleftrightarrow>
     (\<forall>request t. \<forall>pl \<in> set (raw_lists env r request t). - 1 \<notin> p_doc_id ` set (postings pl))"

definition list_docs :: "posting_list list \<Rightarrow> u32 set" where
  "list_docs pls = (\<Union>pl \<in> set pls. p_doc_id ` set (postings pl))"

lemma token_cursor_props:
  assumes "query_env_ok q" "- 1 \<notin> list_docs pls"
  shows "cursor_ok (token_cursor q stats pls)" "rest_ids (token_cursor q stats pls) = list_docs pls"
proof -
  have inv: "merge_inv (concat (map postings pls)) (postings (pl_merge (qe_psort q) pls))"
    using assms(1) by (intro pl_merge_inv) (simp add: query_env_ok_def)
  have ps: "tc_postings (token_cursor q stats pls) = postings (pl_merge (qe_psort q) pls)"
    "tc_position (token_cursor q stats pls) = 0"
    by (simp_all add: token_cursor_def cursor_new_def rebuild_blocks_def Let_def)
  show r: "rest_ids (token_cursor q stats pls) = list_docs pls"
    using inv by (simp add: rest_ids_def ps merge_inv_def list_docs_def image_UN)
  then show "cursor_ok (token_cursor q stats pls)"
    using inv assms(2) by (simp add: cursor_ok_def ps merge_inv_def)
qed

lemma in_range_list_docs: "reader_in_range env r \<Longrightarrow> - 1 \<notin> list_docs (raw_lists env r request t)"
  by (auto simp: reader_in_range_def list_docs_def)

lemma token_cursors_props:
  assumes "query_env_ok q" "reader_in_range (qe_index q) r"
    and "token_cursors q r stats request toks = Some cs"
  shows "\<forall>c \<in> set cs. cursor_ok c"
    and "candidates cs = {d. \<forall>tok \<in> set toks. d \<in> list_docs (raw_lists (qe_index q) r request (t_text tok))}"
proof -
  have "(\<forall>c \<in> set cs. cursor_ok c) \<and>
    candidates cs = {d. \<forall>tok \<in> set toks. d \<in> list_docs (raw_lists (qe_index q) r request (t_text tok))}"
    using assms(3)
  proof (induction toks arbitrary: cs)
    case (Cons tok toks)
    then obtain cs' where cs: "token_cursors q r stats request toks = Some cs'"
      "cs = token_cursor q stats (raw_lists (qe_index q) r request (t_text tok)) # cs'"
      by (auto simp: Let_def split: if_splits)
    show ?case
      using Cons.IH [OF cs(1)] token_cursor_props [OF assms(1) in_range_list_docs [OF assms(2)]]
      by (auto simp: cs(2) candidates_def)
  qed (simp add: candidates_def)
  then show "\<forall>c \<in> set cs. cursor_ok c"
    "candidates cs = {d. \<forall>tok \<in> set toks. d \<in> list_docs (raw_lists (qe_index q) r request (t_text tok))}"
    by blast+
qed

section \<open>Scored documents\<close>

text \<open>The document is live and passes every filter of the request.\<close>

definition filter_hits :: "segment_reader \<Rightarrow> string \<Rightarrow> filter_value \<Rightarrow> bitmap" where
  "filter_hits r field flt =
     (case flt of Equality eq \<Rightarrow> filter_eq r field eq
      | Range gte lte \<Rightarrow> filter_range r field gte lte
      | MultiValue vals \<Rightarrow> filter_in r field vals)"

definition passes_filters :: "segment_reader \<Rightarrow> search_request \<Rightarrow> u32 \<Rightarrow> bool" where
  "passes_filters r request i \<longleftrightarrow>
     (\<forall>(field, flt) \<in> set (q_filters request). i \<in> filter_hits r field flt)"

lemma build_filter_bitmap_mem:
  "build_filter_bitmap r request = Some f \<Longrightarrow> i \<in> f \<longleftrightarrow> i \<in> all_live_docs r \<and> passes_filters r request i"
proof -
  have "i \<in> foldl (\<lambda>combined (field, flt). combined \<inter> filter_hits r field flt) s fs \<longleftrightarrow>
      i \<in> s \<and> (\<forall>(field, flt) \<in> set fs. i \<in> filter_hits r field flt)" for s fs
    by (induction fs arbitrary: s) auto
  then show "build_filter_bitmap r request = Some f \<Longrightarrow> ?thesis"
    by (auto simp: build_filter_bitmap_def passes_filters_def filter_hits_def split: if_splits)
qed

lemma build_filter_bitmap_None:
  "build_filter_bitmap r request = None \<Longrightarrow> passes_filters r request i"
  by (simp add: build_filter_bitmap_def passes_filters_def split: if_splits)

lemma doc_at_live: "doc_at env r i = Some doc \<Longrightarrow> i \<notin> sr_deletions r"
  by (auto simp: doc_at_def get_doc_def dr_get_def sr_deletions_def split: option.splits if_splits)

definition scored_ok ::
  "query_env \<Rightarrow> segment_reader \<Rightarrow> nat \<Rightarrow> search_request \<Rightarrow> scored_doc \<Rightarrow> bool" where
  "scored_ok q r ord request h \<longleftrightarrow>
     sd_segment_ord h = ord \<and> passes_filters r request (sd_local_doc_id h) \<and>
     sd_local_doc_id h \<notin> sr_deletions r \<and>
     (case doc_at (qe_index q) r (sd_local_doc_id h) of
        None \<Rightarrow> q_query request = [] | Some doc \<Rightarrow> sd_global_doc_id h = d_id doc)"

text \<open>Results of a scoring function that looks at the filter.\<close>

definition results_ok :: "query_env \<Rightarrow> segment_reader \<Rightarrow> search_request \<Rightarrow> (u32 \<times> f32) list \<Rightarrow> bool" where
  "results_ok q r request res \<longleftrightarrow>
     distinct (map fst res) \<and>
     (\<forall>(i, s) \<in> set res. passes_filters r request i \<and> doc_at (qe_index q) r i \<noteq> None)"

lemma exact_score_Some:
  assumes "exact_score q schema r stats request (build_filter_bitmap r request) toks i = Some s"
  shows "passes_filters r request i \<and> doc_at (qe_index q) r i \<noteq> None"
  using assms build_filter_bitmap_mem [of r request _ i] build_filter_bitmap_None [of r request i]
  by (auto simp: exact_score_def split: if_splits option.splits)

lemma or_score_Some:
  assumes "or_score q schema r stats (build_filter_bitmap r request) toks i = Some s"
  shows "passes_filters r request i \<and> doc_at (qe_index q) r i \<noteq> None"
  using assms build_filter_bitmap_mem [of r request _ i] build_filter_bitmap_None [of r request i]
  by (auto simp: or_score_def split: if_splits option.splits)

lemma set_to_scored_docs:
  "h \<in> set (to_scored_docs q r ord request res) \<longleftrightarrow>
     (\<exists>i s doc. (i, s) \<in> set res \<and> doc_at (qe_index q) r i = Some doc \<and>
        h = \<lparr>sd_segment_ord = ord, sd_local_doc_id = i, sd_global_doc_id = d_id doc, sd_score = s,
             sd_sort_value = sort_value (qe_index q) r i (q_sort request)\<rparr>)"
  by (force simp: to_scored_docs_def in_map_filter split: option.splits)

lemma to_scored_docs_ids:
  assumes "results_ok q r request res"
  shows "map sd_local_doc_id (to_scored_docs q r ord request res) = map fst res"
  using assms
  by (induction res) (auto simp: results_ok_def to_scored_docs_def map_filter_simps split: option.splits)

lemma to_scored_docs_ok:
  assumes "results_ok q r request res" "h \<in> set (to_scored_docs q r ord request res)"
  shows "scored_ok q r ord request h"
  using assms doc_at_live
  by (fastforce simp: set_to_scored_docs results_ok_def scored_ok_def)

section \<open>Retrieval\<close>

lemma env_heap_order: "query_env_ok q \<Longrightarrow> heap_order_ok (qe_heap_order q)"
  by (simp add: query_env_ok_def)

lemma score_query_wand_ok:
  assumes env: "query_env_ok q" "reader_in_range (qe_index q) r"
  shows "\<exists>docs. score_query_wand q schema r stats ord request (build_filter_bitmap r request) texts = Some docs \<and>
    distinct (map sd_local_doc_id docs) \<and>
    (\<forall>h \<in> set docs. scored_ok q r ord request h \<and>
       (\<forall>tok \<in> set (analyze (qe_text q) (query_analyzer_of schema) (q_query request)).
          sd_local_doc_id h \<in> list_docs (raw_lists (qe_index q) r request (t_text tok))))"
proof -
  let ?toks = "analyze (qe_text q) (query_analyzer_of schema) (q_query request)"
  let ?score = "exact_score q schema r stats request (build_filter_bitmap r request) ?toks"
  show ?thesis
  proof (cases "texts = [] \<or> ?toks = [] \<or> token_cursors q r stats request ?toks = None")
    case True
    then show ?thesis by (auto simp: score_query_wand_def Let_def)
  next
    case False
    then obtain cs where cs: "token_cursors q r stats request ?toks = Some cs" by auto
    note props = token_cursors_props [OF env cs]
    let ?top = "wand_top_k (qe_heap_order q) cs (candidate_limit request)
      (field_boost_or schema ''title'' (f32_of_nat 2)) (field_boost_or schema ''description'' (f32_of_nat 1)) ?score"
    obtain res where res: "?top = Some res" "distinct (map fst res)"
      "\<forall>(d, s) \<in> set res. d \<in> candidates cs \<and> ?score d = Some s"
      using wand_top_k_sound [OF env_heap_order [OF env(1)] props(1)] by blast
    have ok: "results_ok q r request res"
      using res(2,3) exact_score_Some by (fastforce simp: results_ok_def)
    have "sd_local_doc_id h \<in> candidates cs" if "h \<in> set (to_scored_docs q r ord request res)" for h
      using that res(3) by (auto simp: set_to_scored_docs)
    then show ?thesis
      using False cs res(1,2) to_scored_docs_ok [OF ok] to_scored_docs_ids [OF ok] props(2)
      by (auto simp: score_query_wand_def Let_def)
  qed
qed

lemma add_score_keys: "fst ` set (add_score m e) = insert (fst e) (fst ` set m)"
  by (cases e) (simp add: add_score_def hm_entry_keys)

lemma add_score_distinct: "distinct (map fst m) \<Longrightarrow> distinct (map fst (add_score m e))"
  by (cases e) (simp add: add_score_def hm_entry_distinct)

lemma foldl_add_score:
  "distinct (map fst m) \<Longrightarrow>
     distinct (map fst (foldl add_score m res)) \<and>
     fst ` set (foldl add_score m res) = fst ` set m \<union> fst ` set res"
  by (induction res arbitrary: m) (simp_all add: add_score_distinct add_score_keys Un_assoc)

definition or_ok ::
  "query_env \<Rightarrow> segment_reader \<Rightarrow> search_request \<Rightarrow> string list \<Rightarrow> (u32 \<times> f32) list \<Rightarrow> bool" where
  "or_ok q r request texts m \<longleftrightarrow>
     distinct (map fst m) \<and>
     (\<forall>i \<in> fst ` set m. passes_filters r request i \<and> doc_at (qe_index q) r i \<noteq> None \<and>
        (\<exists>t \<in> set texts. i \<in> list_docs (raw_lists (qe_index q) r request t)))"

lemma or_scores_ok:
  assumes env: "query_env_ok q" "reader_in_range (qe_index q) r"
    and "or_ok q r request texts m" "set ts \<subseteq> set texts"
  shows "\<exists>m'. or_scores q schema r stats request (build_filter_bitmap r request) toks m ts = Some m' \<and>
    or_ok q r request texts m'"
  using assms(3,4)
proof (induction ts arbitrary: m)
  case (Cons t ts)
  let ?ls = "raw_lists (qe_index q) r request t"
  let ?score = "or_score q schema r stats (build_filter_bitmap r request) toks"
  let ?top = "wand_top_k (qe_heap_order q) [token_cursor q stats ?ls] (candidate_limit request)
      (field_boost_or schema ''title'' (f32_of_nat 2)) (field_boost_or schema ''description'' (f32_of_nat 1)) ?score"
  note cur = token_cursor_props [OF env(1) in_range_list_docs [OF env(2)], of stats request t]
  have one: "\<forall>c \<in> set [token_cursor q stats ?ls]. cursor_ok c" using cur(1) by simp
  obtain res where res: "?top = Some res" "distinct (map fst res)"
    "\<forall>(d, s) \<in> set res. d \<in> candidates [token_cursor q stats ?ls] \<and> ?score d = Some s"
    using wand_top_k_sound [OF env_heap_order [OF env(1)] one] by blast
  then have "passes_filters r request i \<and> doc_at (qe_index q) r i \<noteq> None \<and> i \<in> list_docs ?ls"
    if "i \<in> fst ` set res" for i
    using that or_score_Some cur(2) by (fastforce simp: candidates_def)
  then have "or_ok q r request texts (foldl add_score m res)"
    using Cons.prems foldl_add_score [of m res] by (auto simp: or_ok_def)
  then show ?case
    using Cons.IH Cons.prems res(1) by (simp add: Let_def)
qed simp

lemma score_query_or_fallback_ok:
  assumes env: "query_env_ok q" "reader_in_range (qe_index q) r"
  shows "\<exists>docs. score_query_or_fallback q schema r stats ord request (build_filter_bitmap r request) texts = Some docs \<and>
    distinct (map sd_local_doc_id docs) \<and>
    (\<forall>h \<in> set docs. scored_ok q r ord request h \<and>
       (\<exists>t \<in> set texts. sd_local_doc_id h \<in> list_docs (raw_lists (qe_index q) r request t)))"
proof -
  let ?toks = "analyze (qe_text q) (query_analyzer_of schema) (q_query request)"
  have "or_ok q r request texts []" by (simp add: or_ok_def)
  then obtain m where m: "or_scores q schema r stats request (build_filter_bitmap r request) ?toks [] texts = Some m"
    "or_ok q r request texts m"
    using or_scores_ok [OF env] by blast
  let ?res = "qe_score_order q m"
  have "mset ?res = mset m" using env(1) by (simp add: query_env_ok_def)
  then have set: "set ?res = set m" and dist: "distinct (map fst ?res) = distinct (map fst m)"
    using mset_eq_setD mset_eq_imp_distinct_iff [of "map fst ?res" "map fst m"] by auto
  have ok: "results_ok q r request ?res"
    using m(2) by (auto simp: results_ok_def or_ok_def set dist)
  have "\<exists>t \<in> set texts. sd_local_doc_id h \<in> list_docs (raw_lists (qe_index q) r request t)"
    if "h \<in> set (to_scored_docs q r ord request ?res)" for h
    using that m(2) by (force simp: set_to_scored_docs set or_ok_def)
  then show ?thesis
    using m to_scored_docs_ok [OF ok] to_scored_docs_ids [OF ok] ok
    by (simp add: score_query_or_fallback_def Let_def results_ok_def)
qed

lemma all_scored_ok:
  assumes "h \<in> set (all_scored q r ord request (build_filter_bitmap r request))" "q_query request = []"
  shows "scored_ok q r ord request h"
proof -
  have fin: "finite A" for A :: "u32 set" by simp
  show ?thesis
    using assms build_filter_bitmap_mem [of r request] build_filter_bitmap_None [of r request]
    by (auto simp: all_scored_def Let_def scored_ok_def all_live_docs_def fin split: option.splits)
qed

lemma all_scored_ids:
  "map sd_local_doc_id (all_scored q r ord request flt) =
     sorted_list_of_set (case flt of Some f \<Rightarrow> all_live_docs r \<inter> f | None \<Rightarrow> all_live_docs r)"
  by (simp add: all_scored_def Let_def comp_def)

text \<open>The outcome of executing a request, by its query and the mode reported.\<close>

lemma query_analyzer_primary: "query_analyzer_of schema = analyzer_build (primary_analyzer schema)"
  by (simp add: query_analyzer_of_def primary_analyzer_def split: option.splits)

lemma execute_outcome:
  assumes env: "query_env_ok q" "reader_in_range (qe_index q) r"
  shows "\<exists>res. execute q schema r stats ord request = Some res \<and>
    distinct (map sd_local_doc_id (ss_scored_docs res)) \<and>
    ss_total_hits res = word_of_nat (length (ss_scored_docs res)) \<and>
    ss_aggregations res = aggregate_fields r (q_aggregations request)
      (sd_local_doc_id ` set (ss_scored_docs res)) \<and>
    (\<forall>h \<in> set (ss_scored_docs res). scored_ok q r ord request h) \<and>
    (q_query request = [] \<longrightarrow> sd_local_doc_id ` set (ss_scored_docs res) =
       {i \<in> all_live_docs r. passes_filters r request i}) \<and>
    (q_query request \<noteq> [] \<longrightarrow> (\<forall>h \<in> set (ss_scored_docs res).
       let hit = (\<lambda>t. sd_local_doc_id h \<in> list_docs (raw_lists (qe_index q) r request t));
           texts = analyze_to_terms (qe_text q) (query_analyzer_of schema) (q_query request)
       in case ss_retrieval_mode res of AndMode \<Rightarrow> list_all hit texts | OrFallback \<Rightarrow> list_ex hit texts))"
proof -
  let ?f = "build_filter_bitmap r request"
  let ?texts = "analyze_to_terms (qe_text q) (query_analyzer_of schema) (q_query request)"
  have texts: "pq_tokens (qu_run (qe_text q) (default_for_schema schema) (q_query request)) = ?texts"
    by (simp add: qu_run_default_tokens query_analyzer_primary)
  show ?thesis
  proof (cases "q_query request = []")
    case True
    have "sd_local_doc_id ` set (all_scored q r ord request ?f) = {i \<in> all_live_docs r. passes_filters r request i}"
      using arg_cong [OF all_scored_ids [of q r ord request ?f], of set]
        build_filter_bitmap_mem [of r request] build_filter_bitmap_None [of r request]
      by (auto split: option.splits)
    moreover have "distinct (map sd_local_doc_id (all_scored q r ord request ?f))"
      by (simp add: all_scored_ids)
    ultimately show ?thesis
      using True all_scored_ok by (simp add: execute_def Let_def)
  next
    case False
    obtain docs where docs: "score_query_wand q schema r stats ord request ?f ?texts = Some docs"
      "distinct (map sd_local_doc_id docs)"
      "\<forall>h \<in> set docs. scored_ok q r ord request h \<and>
        (\<forall>tok \<in> set (analyze (qe_text q) (query_analyzer_of schema) (q_query request)).
          sd_local_doc_id h \<in> list_docs (raw_lists (qe_index q) r request (t_text tok)))"
      using score_query_wand_ok [OF env] by blast
    obtain docs' where docs': "score_query_or_fallback q schema r stats ord request ?f ?texts = Some docs'"
      "distinct (map sd_local_doc_id docs')"
      "\<forall>h \<in> set docs'. scored_ok q r ord request h \<and>
        (\<exists>t \<in> set ?texts. sd_local_doc_id h \<in> list_docs (raw_lists (qe_index q) r request t))"
      using score_query_or_fallback_ok [OF env] by blast
    show ?thesis
      using False docs docs'
      by (auto simp: execute_def Let_def texts list_all_iff list_ex_iff analyze_to_terms_def
          simp del: length_greater_0_conv)
  qed
qed

lemma execute_Some:
  assumes "query_env_ok q" "reader_in_range (qe_index q) r"
  shows "\<exists>res. execute q schema r stats ord request = Some res"
  using execute_outcome [OF assms, of schema stats ord request] by blast

lemma execute_scored_ok:
  assumes "query_env_ok q" "reader_in_range (qe_index q) r"
    and "execute q schema r stats ord request = Some res" "h \<in> set (ss_scored_docs res)"
  shows "scored_ok q r ord request h"
  using execute_outcome [OF assms(1,2), of schema stats ord request] assms(3,4) by auto

section \<open>Executing on a written segment\<close>

lemma segment_lists:
  assumes fit: "segment_fits env schema sid docs"
    and pl: "pl \<in> set (raw_lists env (segment_of env schema sid docs path deleted) request t)"
  shows "\<exists>t'. p_doc_id ` set (postings pl) \<subseteq> {i. unat i < length docs \<and>
      t' \<in> set (doc_terms (ie_text env) schema (docs ! unat i))} \<and>
    (q_typo_tolerance request \<or> prefix t t')"
proof -
  let ?te = "ie_text env" and ?r = "segment_of env schema sid docs path deleted"
  let ?os = "segment_occurrences ?te schema docs" and ?av = "segment_avgdl ?te schema docs"
  have n: "length docs < 2 ^ 32 - 1" and tf: "terms_fit ?av (term_postings (feed ?os))"
    using fit by (simp_all add: segment_fits_def Let_def)
  have wf: "om_wf (term_postings (feed ?os))" using feed_lookup by blast
  have mem: "(t', pl') \<in> set (term_postings (feed ?os)) \<Longrightarrow> pl' = term_list ?os t'" for t' pl'
    using feed_lookup [of ?os t'] by (auto simp: om_lookup_mem [OF wf, symmetric] split: if_splits)
  have ids: "p_doc_id ` set (postings (retain_live ?r (rebuild_blocks ?av (term_list ?os t')))) \<subseteq>
      {i. unat i < length docs \<and> t' \<in> set (doc_terms ?te schema (docs ! unat i))}" for t'
    using term_list_docs(2) [OF n, of ?te schema t'] by (auto simp: retain_live_postings rebuild_blocks_def)
  have stream: "stream_search (sr_inverted ?r) acc =
      Some (map (\<lambda>(t, pl). (t, rebuild_blocks ?av pl)) (filter (\<lambda>(t, pl). acc t) (term_postings (feed ?os))))" for acc
    using stream_search_written [OF tf] by (simp add: segment_of_def)
  have by_prefix: "prefix_at ?r t = map (\<lambda>(t, pl). (t, retain_live ?r (rebuild_blocks ?av pl)))
      (filter (\<lambda>(t', pl). prefix t t') (term_postings (feed ?os)))"
    by (simp add: prefix_at_def prefix_search_term_def ir_prefix_search_def stream comp_def case_prod_beta)
  consider (pre) t' pl' where "(t', pl') \<in> set (term_postings (feed ?os))" "prefix t t'"
      "pl = retain_live ?r (rebuild_blocks ?av pl')"
    | (fuzzy) t' pl' where "(t', pl') \<in> set (term_postings (feed ?os))" "q_typo_tolerance request"
      "pl = retain_live ?r (rebuild_blocks ?av pl')"
    | (own) "pl = retain_live ?r (rebuild_blocks ?av (term_list ?os t))"
    using pl
    by (auto simp: raw_lists_def Let_def by_prefix fuzzy_at_def fuzzy_search_term_def ir_fuzzy_search_def stream
        term_at_def search_term_segment [OF fit] split: if_splits option.splits)
  then show ?thesis
  proof cases
    case pre
    then show ?thesis using ids [of t'] mem [OF pre(1)] by auto
  next
    case fuzzy
    then show ?thesis using ids [of t'] mem [OF fuzzy(1)] by auto
  next
    case own
    then show ?thesis using ids [of t] by auto
  qed
qed

lemma segment_in_range:
  assumes "segment_fits env schema sid docs"
  shows "reader_in_range env (segment_of env schema sid docs path deleted)"
  unfolding reader_in_range_def
proof (intro allI ballI)
  fix request t pl
  assume "pl \<in> set (raw_lists env (segment_of env schema sid docs path deleted) request t)"
  from segment_lists [OF assms this] have "i \<in> p_doc_id ` set (postings pl) \<Longrightarrow> unat i < length docs" for i by auto
  moreover have "\<not> unat (- 1 :: u32) < length docs"
    using assms by (simp add: segment_fits_def Let_def unat_minus_one_max)
  ultimately show "- 1 \<notin> p_doc_id ` set (postings pl)" by blast
qed

lemma segment_list_docs:
  assumes "segment_fits env schema sid docs" "\<not> q_typo_tolerance request"
    and "i \<in> list_docs (raw_lists env (segment_of env schema sid docs path deleted) request t)"
  shows "unat i < length docs \<and> (\<exists>t' \<in> set (doc_terms (ie_text env) schema (docs ! unat i)). prefix t t')"
  using segment_lists [OF assms(1), of _ path deleted request t] assms(2,3)
  by (fastforce simp: list_docs_def)

section \<open>Properties\<close>

text \<open>
  C25: the table computes the edit distance: the least cost of an alignment of the two texts,
  character by character, in which keeping a character is free and deleting, inserting or replacing
  one costs one.
\<close>
theorem edit_distance_least:
  "edits (edit_distance a b) (chars a) (chars b) \<and>
   edit_distance a b = (LEAST n. edits n (chars a) (chars b))"
proof -
  have e: "edits (edit_distance a b) (chars a) (chars b)"
    using edits_lev [of "rev (chars a)" "rev (chars b)"] by (simp add: edit_distance_lev)
  moreover have "edit_distance a b \<le> n" if "edits n (chars a) (chars b)" for n
    using edits_ge_lev [OF that] by (simp add: edit_distance_lev)
  ultimately show ?thesis using Least_equality [of "\<lambda>n. edits n (chars a) (chars b)"] by simp
qed

text \<open>
  C8: executing a request on a segment without a document \<open>u32::MAX\<close> ends with a result, and every
  hit is one live document that passes every filter of the request, with its own global id, at most
  one hit per document; the total and the aggregations are those of the hits; and an empty query
  returns exactly the live documents that pass the filters.
\<close>
theorem execute_sound:
  assumes "query_env_ok q" "reader_in_range (qe_index q) r"
  shows "\<exists>res. execute q schema r stats ord request = Some res \<and>
    distinct (map sd_local_doc_id (ss_scored_docs res)) \<and>
    ss_total_hits res = word_of_nat (length (ss_scored_docs res)) \<and>
    ss_aggregations res = aggregate_fields r (q_aggregations request)
      (sd_local_doc_id ` set (ss_scored_docs res)) \<and>
    (\<forall>h \<in> set (ss_scored_docs res). sd_segment_ord h = ord \<and>
       sd_local_doc_id h \<notin> sr_deletions r \<and> passes_filters r request (sd_local_doc_id h) \<and>
       (case doc_at (qe_index q) r (sd_local_doc_id h) of
          None \<Rightarrow> q_query request = [] | Some doc \<Rightarrow> sd_global_doc_id h = d_id doc)) \<and>
    (q_query request = [] \<longrightarrow> sd_local_doc_id ` set (ss_scored_docs res) =
       {i \<in> all_live_docs r. passes_filters r request i})"
  using execute_outcome [OF assms, of schema stats ord request] unfolding scored_ok_def by blast

text \<open>
  On a segment written from a batch of documents, a query without typo tolerance returns only
  documents of the batch that match it: every token of the query is a prefix of a term of the
  document, or, when the response reports the fallback to the disjunction, at least one token is.
\<close>
theorem execute_matches_query:
  assumes "query_env_ok q" "segment_fits (qe_index q) schema sid docs"
    and "q_query request \<noteq> []" "\<not> q_typo_tolerance request"
  shows "\<exists>res. execute q schema (segment_of (qe_index q) schema sid docs path deleted) stats ord request = Some res \<and>
    (\<forall>h \<in> set (ss_scored_docs res).
       let i = unat (sd_local_doc_id h);
           matches = (\<lambda>t. \<exists>t' \<in> set (doc_terms (qe_text q) schema (docs ! i)). prefix t t');
           tokens = analyze_to_terms (qe_text q) (query_analyzer_of schema) (q_query request)
       in i < length docs \<and> sd_global_doc_id h = d_id (docs ! i) \<and> sd_local_doc_id h \<notin> deleted \<and>
          (case ss_retrieval_mode res of AndMode \<Rightarrow> list_all matches tokens
           | OrFallback \<Rightarrow> list_ex matches tokens))"
proof -
  let ?r = "segment_of (qe_index q) schema sid docs path deleted"
  let ?texts = "analyze_to_terms (qe_text q) (query_analyzer_of schema) (q_query request)"
  obtain res where res: "execute q schema ?r stats ord request = Some res"
    "\<forall>h \<in> set (ss_scored_docs res). scored_ok q ?r ord request h"
    "\<forall>h \<in> set (ss_scored_docs res).
       let hit = (\<lambda>t. sd_local_doc_id h \<in> list_docs (raw_lists (qe_index q) ?r request t))
       in case ss_retrieval_mode res of AndMode \<Rightarrow> list_all hit ?texts | OrFallback \<Rightarrow> list_ex hit ?texts"
    using execute_outcome [OF assms(1) segment_in_range [OF assms(2), of path deleted], of schema stats ord request]
      assms(3) by (auto simp: Let_def)
  have fit: "docs_fit (ie_doc (qe_index q)) docs" using assms(2) by (simp add: segment_fits_def Let_def)
  have doc: "doc_at (qe_index q) ?r i = (if unat i < length docs \<and> i \<notin> deleted then Some (docs ! unat i) else None)" for i
    using dr_get_any [OF fit, of deleted i] by (simp add: doc_at_def get_doc_def segment_of_def)
  note hit = segment_list_docs [OF assms(2,4), of _ path deleted]
  have "unat (sd_local_doc_id h) < length docs \<and> sd_local_doc_id h \<notin> deleted \<and>
      sd_global_doc_id h = d_id (docs ! unat (sd_local_doc_id h))" if "h \<in> set (ss_scored_docs res)" for h
    using that res(2) assms(3) by (auto simp: scored_ok_def doc split: if_splits)
  then show ?thesis
    using res(1,3) hit
    by (intro exI [of _ res]) (fastforce simp: Let_def list_all_iff list_ex_iff split: retrieval_mode.splits)
qed

definition example_query_env :: query_env where
  "example_query_env =
     \<lparr>qe_index = example_env, qe_ln = (\<lambda>x. x), qe_usort = sort_by, qe_psort = sort_by,
      qe_heap_order = rev, qe_score_order = rev, qe_bucket_order = rev, qe_field_order = rev\<rparr>"

definition example_query :: search_request where
  "example_query = default_request\<lparr>q_query := ''ti'', q_typo_tolerance := False\<rparr>"

definition example_reader :: segment_reader where
  "example_reader = segment_of example_env default_product_schema ''s'' [example_doc 7] ''seg'' {}"

lemma example_query_env_ok: "query_env_ok example_query_env"
  by (simp add: query_env_ok_def example_query_env_def heap_order_ok_def)

lemma example_query_env_index [simp]: "qe_index example_query_env = example_env"
  by (simp add: example_query_env_def)

lemma example_reader_in_range: "reader_in_range example_env example_reader"
  unfolding example_reader_def by (rule segment_in_range [OF example_segment_fits])

theorem execute_sound_witness:
  "\<exists>res. execute example_query_env default_product_schema example_reader
       \<lparr>st_total_docs = 1, st_field_avg_lengths = Map.empty\<rparr> 0 default_request = Some res \<and>
     ss_total_hits res = word_of_nat (length (ss_scored_docs res)) \<and>
     sd_local_doc_id ` set (ss_scored_docs res) =
       {i \<in> all_live_docs example_reader. passes_filters example_reader default_request i}"
  using execute_sound [OF example_query_env_ok, of example_reader default_product_schema
      "\<lparr>st_total_docs = 1, st_field_avg_lengths = Map.empty\<rparr>" 0 default_request]
    example_reader_in_range
  by (auto simp: default_request_def)

theorem execute_matches_query_witness:
  "\<exists>res. execute example_query_env default_product_schema example_reader
       \<lparr>st_total_docs = 1, st_field_avg_lengths = Map.empty\<rparr> 0 example_query = Some res \<and>
     (\<forall>h \<in> set (ss_scored_docs res). sd_global_doc_id h = d_id (example_doc 7))"
  unfolding example_reader_def
  using execute_matches_query [OF example_query_env_ok, of default_product_schema "''s''"
      "[example_doc 7]" example_query "''seg''" "{}" "\<lparr>st_total_docs = 1, st_field_avg_lengths = Map.empty\<rparr>" 0]
    example_segment_fits [of "''s''"]
  by (fastforce simp: example_query_def Let_def)

end
