(* ===== verification/Multi.thy ===== *)
theory Multi
  imports Executor
begin

text \<open>
  \<open>crates/query/src/multi.rs\<close>: a search over several segments.  Each segment is searched on its own
  (theory \<open>Executor\<close>); the hits are merged into one ranking of which a page is returned, the totals
  and the aggregation counts are added up.  The nested \<open>HashMap\<close> of counts is a nested list of
  entries; the orders in which its entries are taken out are arguments in \<open>query_env\<close>.
\<close>

section \<open>Merging the results of the segments\<close>

type_synonym counts = "(string \<times> u64) list"

definition merge_counts :: "counts \<Rightarrow> counts \<Rightarrow> counts" where
  "merge_counts bucket new =
     foldl (\<lambda>b (value, n). hm_entry value (\<lambda>x. or_default 0 x + n) b) bucket new"

definition merge_aggregations ::
  "(string \<times> counts) list \<Rightarrow> (string \<times> counts) list \<Rightarrow> (string \<times> counts) list" where
  "merge_aggregations merged new =
     foldl (\<lambda>m (field, cs). hm_entry field (\<lambda>b. merge_counts (or_default [] b) cs) m) merged new"

record search_accumulator =
  ac_scored :: "scored_doc list"
  ac_total_hits :: u64
  ac_aggregations :: "(string \<times> counts) list"
  ac_or_fallback :: bool

definition add_segment_result :: "search_accumulator \<Rightarrow> segment_search_result \<Rightarrow> search_accumulator" where
  "add_segment_result acc res =
     \<lparr>ac_scored = ac_scored acc @ ss_scored_docs res,
      ac_total_hits = ac_total_hits acc + ss_total_hits res,
      ac_aggregations = merge_aggregations (ac_aggregations acc) (ss_aggregations res),
      ac_or_fallback = (ac_or_fallback acc \<or> ss_retrieval_mode res = OrFallback)\<rparr>"

fun search_segments ::
  "query_env \<Rightarrow> index_schema \<Rightarrow> search_request \<Rightarrow> search_accumulator \<Rightarrow>
   (nat \<times> segment_reader \<times> segment_statistics) list \<Rightarrow> search_accumulator option" where
  "search_segments q schema request acc [] = Some acc"
| "search_segments q schema request acc ((ord, reader, stats) # segs) =
     (case execute q schema reader stats ord request of None \<Rightarrow> None
      | Some res \<Rightarrow> search_segments q schema request (add_segment_result acc res) segs)"

text \<open>The documents of a page are fetched from their segments.\<close>

definition fetch_hit ::
  "query_env \<Rightarrow> (segment_reader \<times> segment_statistics) list \<Rightarrow> scored_doc \<Rightarrow> search_hit option" where
  "fetch_hit q segs scored =
     (if sd_segment_ord scored < length segs then
        (case doc_at (qe_index q) (fst (segs ! sd_segment_ord scored)) (sd_local_doc_id scored) of
           None \<Rightarrow> None
         | Some doc \<Rightarrow> Some \<lparr>hit_id = d_id doc, hit_score = sd_score scored, hit_document = Some doc\<rparr>)
      else None)"

definition to_buckets :: "query_env \<Rightarrow> counts \<Rightarrow> aggregation_bucket list" where
  "to_buckets q cs =
     sort_by (\<lambda>a b. cmp_of (bucket_count b) (bucket_count a))
       (map (\<lambda>(value, n). \<lparr>bucket_value = value, bucket_count = n\<rparr>) (qe_bucket_order q cs))"

definition multi_search ::
  "query_env \<Rightarrow> index_schema \<Rightarrow> (segment_reader \<times> segment_statistics) list \<Rightarrow> search_request \<Rightarrow>
   search_response option" where
  "multi_search q schema segs request =
     (case search_segments q schema request
             \<lparr>ac_scored = [], ac_total_hits = 0, ac_aggregations = [], ac_or_fallback = False\<rparr>
             (List.enumerate 0 segs) of
        None \<Rightarrow> None
      | Some acc \<Rightarrow>
          let page = fst (collect (qe_usort q) (ac_scored acc) (q_sort request) (q_offset request)
                (q_limit request))
          in Some \<lparr>r_hits = List.map_filter (fetch_hit q segs) page,
               r_total_hits = ac_total_hits acc,
               r_aggregations = map (\<lambda>(field, cs). (field, to_buckets q cs))
                 (qe_field_order q (ac_aggregations acc)),
               r_reranked = False,
               r_retrieval_mode = (if ac_or_fallback acc then OrFallback else AndMode),
               r_cache_hit = False\<rparr>)"

section \<open>Counting\<close>

definition count_total :: "counts \<Rightarrow> string \<Rightarrow> u64" where
  "count_total cs v = sum_list (map (\<lambda>(v', n). if v' = v then n else 0) cs)"

definition field_total :: "(string \<times> counts) list \<Rightarrow> string \<Rightarrow> string \<Rightarrow> u64" where
  "field_total aggs f v = sum_list (map (\<lambda>(f', cs). if f' = f then count_total cs v else 0) aggs)"

lemma count_total_entry:
  "count_total (hm_entry k (\<lambda>x. or_default 0 x + n) cs) v = count_total cs v + (if k = v then n else 0)"
  by (induction cs) (auto simp: count_total_def)

lemma merge_counts_total: "count_total (merge_counts b cs) v = count_total b v + count_total cs v"
  by (induction cs arbitrary: b)
    (auto simp: merge_counts_def count_total_entry, auto simp: count_total_def)

lemma merge_aggregations_Cons [simp]:
  "merge_aggregations m ((f, cs) # new) =
     merge_aggregations (hm_entry f (\<lambda>b. merge_counts (or_default [] b) cs) m) new"
  by (simp add: merge_aggregations_def)

lemma field_total_entry:
  "field_total (hm_entry f' (\<lambda>b. merge_counts (or_default [] b) cs) m) f v =
     field_total m f v + (if f' = f then count_total cs v else 0)"
proof (induction m)
  case Nil
  have "count_total [] v = 0" by (simp add: count_total_def)
  then show ?case by (simp add: field_total_def merge_counts_total)
next
  case (Cons e m)
  then show ?case by (cases e) (auto simp: field_total_def merge_counts_total)
qed

lemma merge_aggregations_total:
  "field_total (merge_aggregations m new) f v = field_total m f v + field_total new f v"
proof (induction new arbitrary: m)
  case Nil
  then show ?case by (simp add: merge_aggregations_def field_total_def)
next
  case (Cons e new)
  then show ?case by (cases e) (simp add: field_total_entry, simp add: field_total_def)
qed

text \<open>The merged map has one entry per field, each with one entry per value.\<close>

definition counts_wf :: "(string \<times> counts) list \<Rightarrow> bool" where
  "counts_wf m \<longleftrightarrow> distinct (map fst m) \<and> (\<forall>(f, cs) \<in> set m. distinct (map fst cs))"

lemma merge_counts_distinct: "distinct (map fst b) \<Longrightarrow> distinct (map fst (merge_counts b cs))"
  by (induction cs arbitrary: b) (auto simp: merge_counts_def hm_entry_distinct)

lemma hm_entry_all:
  "(\<forall>(k, v) \<in> set m. P v) \<Longrightarrow> P (f None) \<Longrightarrow> (\<And>v. P v \<Longrightarrow> P (f (Some v))) \<Longrightarrow>
     \<forall>(k, v) \<in> set (hm_entry k' f m). P v"
  by (induction k' f m rule: hm_entry.induct) auto

lemma merge_aggregations_wf: "counts_wf m \<Longrightarrow> counts_wf (merge_aggregations m new)"
proof (induction new arbitrary: m)
  case (Cons e new)
  obtain f cs where e: "e = (f, cs)" by (cases e)
  have "\<forall>(k, v) \<in> set (hm_entry f (\<lambda>b. merge_counts (or_default [] b) cs) m). distinct (map fst v)"
    using Cons.prems
    by (intro hm_entry_all) (auto simp: counts_wf_def merge_counts_distinct)
  then have "counts_wf (hm_entry f (\<lambda>b. merge_counts (or_default [] b) cs) m)"
    using Cons.prems by (simp add: counts_wf_def hm_entry_distinct)
  then show ?case using Cons.IH by (simp add: e)
qed (simp add: merge_aggregations_def)

lemma merge_aggregations_fields:
  "fst ` set (merge_aggregations m new) = fst ` set m \<union> fst ` set new"
proof (induction new arbitrary: m)
  case (Cons e new)
  then show ?case by (cases e) (auto simp: hm_entry_keys)
qed (simp add: merge_aggregations_def)

lemma count_total_mem: "distinct (map fst cs) \<Longrightarrow> (v, n) \<in> set cs \<Longrightarrow> count_total cs v = n"
proof (induction cs)
  case (Cons e cs)
  have "count_total cs v = 0" if "v \<notin> fst ` set cs" for cs
    using that by (induction cs) (auto simp: count_total_def)
  then show ?case using Cons by (cases e) (force simp: count_total_def)
qed simp

lemma field_total_mem: "distinct (map fst m) \<Longrightarrow> (f, cs) \<in> set m \<Longrightarrow> field_total m f v = count_total cs v"
proof (induction m)
  case (Cons e m)
  have "field_total m f v = 0" if "f \<notin> fst ` set m" for m
    using that by (induction m) (auto simp: field_total_def)
  then show ?case using Cons by (cases e) (force simp: field_total_def)
qed simp

section \<open>The accumulator\<close>

definition acc_of :: "segment_search_result list \<Rightarrow> search_accumulator" where
  "acc_of results = foldl add_segment_result
     \<lparr>ac_scored = [], ac_total_hits = 0, ac_aggregations = [], ac_or_fallback = False\<rparr> results"

lemma acc_of_snoc: "acc_of (results @ [res]) = add_segment_result (acc_of results) res"
  by (simp add: acc_of_def)

lemma acc_of_props:
  "ac_scored (acc_of results) = concat (map ss_scored_docs results)"
  "ac_total_hits (acc_of results) = sum_list (map ss_total_hits results)"
  "ac_or_fallback (acc_of results) \<longleftrightarrow> (\<exists>res \<in> set results. ss_retrieval_mode res = OrFallback)"
  by (induction results rule: rev_induct) (auto simp: acc_of_snoc add_segment_result_def, auto simp: acc_of_def)

lemma acc_of_aggregations:
  "field_total (ac_aggregations (acc_of results)) f v =
     sum_list (map (\<lambda>res. field_total (ss_aggregations res) f v) results)"
  "fst ` set (ac_aggregations (acc_of results)) = (\<Union>res \<in> set results. fst ` set (ss_aggregations res))"
  "counts_wf (ac_aggregations (acc_of results))"
proof (induction results rule: rev_induct)
  case (snoc res results)
  {
    case 1
    then show ?case using snoc by (simp add: acc_of_snoc add_segment_result_def merge_aggregations_total)
  next
    case 2
    then show ?case using snoc by (auto simp: acc_of_snoc add_segment_result_def merge_aggregations_fields)
  next
    case 3
    then show ?case using snoc by (simp add: acc_of_snoc add_segment_result_def merge_aggregations_wf)
  }
qed (simp_all add: acc_of_def field_total_def counts_wf_def)

definition executed ::
  "query_env \<Rightarrow> index_schema \<Rightarrow> search_request \<Rightarrow> (nat \<times> segment_reader \<times> segment_statistics) list \<Rightarrow>
   segment_search_result list \<Rightarrow> bool" where
  "executed q schema request segs results \<longleftrightarrow>
     list_all2 (\<lambda>(ord, r, stats) res. execute q schema r stats ord request = Some res) segs results"

lemma search_segments_executed:
  "executed q schema request segs results \<Longrightarrow>
     search_segments q schema request acc segs = Some (foldl add_segment_result acc results)"
proof (induction segs arbitrary: acc results)
  case (Cons seg segs)
  then show ?case by (cases seg) (auto simp: executed_def list_all2_Cons1)
qed (simp add: executed_def)

lemma executed_exists:
  assumes "query_env_ok q" "\<forall>(ord, r, stats) \<in> set segs. reader_in_range (qe_index q) r"
  shows "\<exists>results. executed q schema request segs results"
  using assms(2)
proof (induction segs)
  case Nil
  then show ?case by (simp add: executed_def)
next
  case (Cons seg segs)
  obtain ord r stats where seg: "seg = (ord, r, stats)" by (cases seg)
  obtain res where "execute q schema r stats ord request = Some res"
    using execute_Some [OF assms(1)] Cons.prems seg by auto blast
  then show ?case using Cons by (auto simp: executed_def seg list_all2_Cons1)
qed

lemma executed_scored:
  assumes "query_env_ok q" "\<forall>(r, stats) \<in> set segs. reader_in_range (qe_index q) r"
    and "executed q schema request (List.enumerate 0 segs) results"
    and "res \<in> set results" "h \<in> set (ss_scored_docs res)"
  shows "sd_segment_ord h < length segs \<and> scored_ok q (fst (segs ! sd_segment_ord h)) (sd_segment_ord h) request h"
proof -
  obtain i where i: "i < length results" "res = results ! i" using assms(4) by (metis in_set_conv_nth)
  have n: "length results = length segs" using assms(3) by (auto simp: executed_def dest: list_all2_lengthD)
  let ?r = "fst (segs ! i)" and ?st = "snd (segs ! i)"
  have ex: "execute q schema ?r ?st i request = Some res"
    using list_all2_nthD2 [OF assms(3) [unfolded executed_def] i(1)] i n
    by (simp add: nth_enumerate_eq case_prod_beta)
  have "reader_in_range (qe_index q) ?r"
    using assms(2) i n by (metis case_prod_beta nth_mem)
  then have "scored_ok q ?r i request h"
    using execute_scored_ok [OF assms(1) _ ex assms(5)] by simp
  then show ?thesis using i n by (auto simp: scored_ok_def)
qed

section \<open>Properties\<close>

text \<open>
  A search over several segments ends with a response that is put together from the results of
  executing the request on every segment: at most \<open>limit\<close> hits, each of them a live document of a
  segment that passes the filters; the total is the sum of the totals; the fallback is reported
  when some segment fell back.
\<close>
theorem multi_search_correct:
  assumes "query_env_ok q" "\<forall>(r, stats) \<in> set segs. reader_in_range (qe_index q) r"
  shows "\<exists>results resp. executed q schema request (List.enumerate 0 segs) results \<and>
    multi_search q schema segs request = Some resp \<and>
    length (r_hits resp) \<le> q_limit request \<and>
    (\<forall>h \<in> set (r_hits resp). \<exists>(r, stats) \<in> set segs. \<exists>i doc.
       doc_at (qe_index q) r i = Some doc \<and> hit_document h = Some doc \<and> hit_id h = d_id doc \<and>
       i \<notin> sr_deletions r \<and> passes_filters r request i) \<and>
    r_total_hits resp = sum_list (map ss_total_hits results) \<and>
    (r_retrieval_mode resp = OrFallback \<longleftrightarrow> (\<exists>res \<in> set results. ss_retrieval_mode res = OrFallback))"
proof -
  let ?segs = "List.enumerate 0 segs"
  obtain results where ex: "executed q schema request ?segs results"
    using executed_exists [OF assms(1), of ?segs] assms(2)
    by (force simp: in_set_enumerate_eq dest: nth_mem)
  have acc: "search_segments q schema request
      \<lparr>ac_scored = [], ac_total_hits = 0, ac_aggregations = [], ac_or_fallback = False\<rparr> ?segs = Some (acc_of results)"
    using search_segments_executed [OF ex] by (simp add: acc_of_def)
  let ?docs = "concat (map ss_scored_docs results)"
  let ?page = "fst (collect (qe_usort q) ?docs (q_sort request) (q_offset request) (q_limit request))"
  have page: "?page = take (q_limit request) (drop (q_offset request) (qe_usort q (doc_cmp (q_sort request)) ?docs))"
    by (simp add: collect_def Let_def)
  have srt: "set (qe_usort q cmp ds) = set ds" for cmp ds
    using assms(1) sort_contract_set by (auto simp: query_env_ok_def)
  have len: "length (List.map_filter f xs) \<le> length xs" for f :: "scored_doc \<Rightarrow> search_hit option" and xs
    by (simp add: List.map_filter_def)
  have mem: "set ?page \<subseteq> set ?docs"
    unfolding page using srt by (metis order_trans set_drop_subset set_take_subset)
  have hit: "\<exists>(r, stats) \<in> set segs. \<exists>i doc.
       doc_at (qe_index q) r i = Some doc \<and> hit_document h = Some doc \<and> hit_id h = d_id doc \<and>
       i \<notin> sr_deletions r \<and> passes_filters r request i"
    if h: "h \<in> set (List.map_filter (fetch_hit q segs) ?page)" for h
  proof -
    obtain d where d: "d \<in> set ?docs" "fetch_hit q segs d = Some h"
      using h subsetD [OF mem] unfolding in_map_filter by blast
    then obtain res where "res \<in> set results" "d \<in> set (ss_scored_docs res)" by auto
    note ok = executed_scored [OF assms ex this]
    show ?thesis
      using ok d(2) nth_mem [of "sd_segment_ord d" segs]
      by (intro bexI [of _ "segs ! sd_segment_ord d"])
        (auto simp: fetch_hit_def scored_ok_def case_prod_beta split: if_splits option.splits)
  qed
  show ?thesis
    using ex acc hit len [of "fetch_hit q segs" ?page]
    by (intro exI [of _ results])
      (auto simp: multi_search_def acc_of_props page Let_def intro: order_trans)
qed

text \<open>
  The aggregations of a response are exact: there is one entry per aggregated field, with one
  bucket per value, in descending order of the counts, and the count of a value is the sum of its
  counts in all segments.
\<close>
theorem multi_search_aggregations:
  assumes "query_env_ok q" "executed q schema request (List.enumerate 0 segs) results"
    and "multi_search q schema segs request = Some resp"
  shows "distinct (map fst (r_aggregations resp)) \<and>
    fst ` set (r_aggregations resp) = (\<Union>res \<in> set results. fst ` set (ss_aggregations res)) \<and>
    (\<forall>(f, buckets) \<in> set (r_aggregations resp).
       distinct (map bucket_value buckets) \<and>
       sorted_wrt (\<lambda>a b. bucket_count b \<le> bucket_count a) buckets \<and>
       (\<forall>b \<in> set buckets. bucket_count b =
          sum_list (map (\<lambda>res. field_total (ss_aggregations res) f (bucket_value b)) results)))"
proof -
  let ?m = "ac_aggregations (acc_of results)"
  have aggs: "r_aggregations resp = map (\<lambda>(field, cs). (field, to_buckets q cs)) (qe_field_order q ?m)"
    using assms(3) search_segments_executed [OF assms(2)] by (auto simp: multi_search_def acc_of_def Let_def)
  have mf: "mset (qe_field_order q xs) = mset xs" and mb: "mset (qe_bucket_order q ys) = mset ys" for xs ys
    using assms(1) by (simp_all add: query_env_ok_def)
  note sf = mset_eq_setD [OF mf] and sb = mset_eq_setD [OF mb]
  have df: "distinct (map fst (qe_field_order q ?m))" and dc: "\<forall>(f, cs) \<in> set ?m. distinct (map fst cs)"
    using acc_of_aggregations(3) [of results] mset_eq_imp_distinct_iff [of "map fst (qe_field_order q ?m)" "map fst ?m"] mf
    by (auto simp: counts_wf_def)
  have bucket: "distinct (map bucket_value (to_buckets q cs)) \<and>
      sorted_wrt (\<lambda>a b. bucket_count b \<le> bucket_count a) (to_buckets q cs) \<and>
      (\<forall>b \<in> set (to_buckets q cs). bucket_count b = sum_list (map (\<lambda>res. field_total (ss_aggregations res) f (bucket_value b)) results))"
    if m: "(f, cs) \<in> set ?m" for f cs
  proof -
    have d: "distinct (map fst cs)" using dc m by auto
    let ?bs = "map (\<lambda>(value, n). \<lparr>bucket_value = value, bucket_count = n\<rparr>) (qe_bucket_order q cs)"
    have "mset (map bucket_value (to_buckets q cs)) = mset (map bucket_value ?bs)"
      unfolding to_buckets_def by (simp only: mset_map mset_sort_by)
    also have "map bucket_value ?bs = map fst (qe_bucket_order q cs)"
      by (simp add: case_prod_beta)
    also have "mset \<dots> = mset (map fst cs)" by (simp add: mb)
    finally have "distinct (map bucket_value (to_buckets q cs))"
      using d mset_eq_imp_distinct_iff by blast
    moreover have "sorted_wrt (\<lambda>a b. bucket_count b \<le> bucket_count a) (to_buckets q cs)"
      unfolding to_buckets_def by (rule sort_by_descending)
    moreover have "bucket_count b = sum_list (map (\<lambda>res. field_total (ss_aggregations res) f (bucket_value b)) results)"
      if "b \<in> set (to_buckets q cs)" for b
    proof -
      have "(bucket_value b, bucket_count b) \<in> set cs"
        using that unfolding to_buckets_def set_sort_by set_map sb by auto
      then have "field_total ?m f (bucket_value b) = bucket_count b"
        using field_total_mem [OF _ m] count_total_mem [OF d] acc_of_aggregations(3) [of results]
        by (simp add: counts_wf_def)
      then show ?thesis by (simp add: acc_of_aggregations(1))
    qed
    ultimately show ?thesis by blast
  qed
  have "map fst (r_aggregations resp) = map fst (qe_field_order q ?m)"
    unfolding aggs by (simp add: case_prod_beta)
  then have "distinct (map fst (r_aggregations resp))"
    and "fst ` set (r_aggregations resp) = (\<Union>res \<in> set results. fst ` set (ss_aggregations res))"
    using df arg_cong [of _ _ set] by (metis, metis acc_of_aggregations(2) list.set_map sf)
  moreover have "cs \<in> to_buckets q ` {cs. (f, cs) \<in> set ?m}" if "(f, cs) \<in> set (r_aggregations resp)" for f cs
    using that unfolding aggs set_map sf by auto
  ultimately show ?thesis using bucket by fast
qed

definition example_segments :: "(segment_reader \<times> segment_statistics) list" where
  "example_segments = replicate 2 (example_reader, \<lparr>st_total_docs = 1, st_field_avg_lengths = Map.empty\<rparr>)"

definition example_facets :: search_request where
  "example_facets = default_request\<lparr>q_aggregations := [''category'']\<rparr>"

theorem multi_search_correct_witness:
  "\<exists>results resp. executed example_query_env default_product_schema default_request
      (List.enumerate 0 example_segments) results \<and>
    multi_search example_query_env default_product_schema example_segments default_request = Some resp \<and>
    r_total_hits resp = sum_list (map ss_total_hits results)"
  using multi_search_correct [OF example_query_env_ok, of example_segments default_product_schema default_request]
    example_reader_in_range
  by (auto simp: example_segments_def)

theorem multi_search_aggregations_witness:
  "\<exists>results resp. executed example_query_env default_product_schema example_facets
      (List.enumerate 0 example_segments) results \<and>
    multi_search example_query_env default_product_schema example_segments example_facets = Some resp \<and>
    distinct (map fst (r_aggregations resp))"
proof -
  obtain results where ex: "executed example_query_env default_product_schema example_facets
      (List.enumerate 0 example_segments) results"
    using executed_exists [OF example_query_env_ok, of "List.enumerate 0 example_segments"]
      example_reader_in_range by (force simp: example_segments_def in_set_enumerate_eq)
  moreover obtain resp where
    "multi_search example_query_env default_product_schema example_segments example_facets = Some resp"
    using search_segments_executed [OF ex] by (auto simp: multi_search_def Let_def)
  ultimately show ?thesis
    using multi_search_aggregations [OF example_query_env_ok] by blast
qed

end
