(* ===== verification/Effects.thy ===== *)
theory Effects
  imports CoreTypes
begin

text \<open>
  Methods that change state and may fail.  A method is a function from the state to \<open>None\<close> (a panic
  or a call that does not return) or to a \<open>Result\<close> together with the state it leaves: what has been
  done before an error stays done.  \<open>op_bind\<close> is the \<open>?\<close> operator.
\<close>

type_synonym ('s, 'a) op = "'s \<Rightarrow> ((error + 'a) \<times> 's) option"

definition op_return :: "'a \<Rightarrow> ('s, 'a) op" where
  "op_return x s = Some (Inr x, s)"

definition op_bind :: "('s, 'a) op \<Rightarrow> ('a \<Rightarrow> ('s, 'b) op) \<Rightarrow> ('s, 'b) op" where
  "op_bind m f s =
     (case m s of None \<Rightarrow> None | Some (Inl e, s') \<Rightarrow> Some (Inl e, s') | Some (Inr x, s') \<Rightarrow> f x s')"

definition op_get :: "('s \<Rightarrow> 'a) \<Rightarrow> ('s, 'a) op" where
  "op_get g s = Some (Inr (g s), s)"

definition op_modify :: "('s \<Rightarrow> 's) \<Rightarrow> ('s, unit) op" where
  "op_modify f s = Some (Inr (), f s)"

definition op_result :: "error + 'a \<Rightarrow> ('s, 'a) op" where
  "op_result r s = Some (r, s)"

text \<open>A call that may panic, on values.\<close>

definition op_option :: "'a option \<Rightarrow> ('s, 'a) op" where
  "op_option x s = map_option (\<lambda>v. (Inr v, s)) x"

text \<open>A method of a part of the state.\<close>

definition op_zoom :: "('s \<Rightarrow> 't) \<Rightarrow> (('t \<Rightarrow> 't) \<Rightarrow> 's \<Rightarrow> 's) \<Rightarrow> ('t, 'a) op \<Rightarrow> ('s, 'a) op" where
  "op_zoom get upd m s =
     (case m (get s) of None \<Rightarrow> None | Some (r, t) \<Rightarrow> Some (r, upd (\<lambda>_. t) s))"

fun op_each :: "('a \<Rightarrow> ('s, unit) op) \<Rightarrow> 'a list \<Rightarrow> ('s, unit) op" where
  "op_each f [] = op_return ()"
| "op_each f (x # xs) = op_bind (f x) (\<lambda>_. op_each f xs)"

lemma op_simps [simp]: "op_return x s = Some (Inr x, s)" "op_result r s = Some (r, s)"
  by (simp_all add: op_return_def op_result_def)

lemma op_get_run [simp]: "op_get g s = Some (Inr (g s), s)"
  by (simp add: op_get_def)

lemma op_modify_run [simp]: "op_modify h s = Some (Inr (), h s)"
  by (simp add: op_modify_def)

lemma op_option_run [simp]: "op_option (Some x) s = Some (Inr x, s)" "op_option None s = None"
  by (simp_all add: op_option_def)

lemma op_bind_simps:
  "m s = Some (Inr x, s') \<Longrightarrow> op_bind m f s = f x s'"
  "m s = Some (Inl e, s') \<Longrightarrow> op_bind m f s = Some (Inl e, s')"
  "m s = None \<Longrightarrow> op_bind m f s = None"
  by (simp_all add: op_bind_def)

lemma op_bind_return [simp]: "op_bind (op_return x) f s = f x s"
  by (simp add: op_bind_def)

lemma op_bind_get [simp]: "op_bind (op_get g) f s = f (g s) s"
  by (simp add: op_bind_def)

lemma op_bind_modify [simp]: "op_bind (op_modify h) f s = f () (h s)"
  by (simp add: op_bind_def)

lemma op_bind_result [simp]:
  "op_bind (op_result (Inr x)) f s = f x s"
  "op_bind (op_result (Inl e)) f s = Some (Inl e, s)"
  by (simp_all add: op_bind_def)

lemma op_bind_option [simp]:
  "op_bind (op_option (Some x)) f s = f x s"
  "op_bind (op_option None) f s = None"
  by (simp_all add: op_bind_def)

lemma op_bind_assoc: "op_bind (op_bind m f) g = op_bind m (\<lambda>x. op_bind (f x) g)"
  by (rule ext) (auto simp: op_bind_def split: option.splits sum.splits)

lemma op_bind_Inr:
  "op_bind m f s = Some (Inr y, s'') \<longleftrightarrow> (\<exists>x s'. m s = Some (Inr x, s') \<and> f x s' = Some (Inr y, s''))"
  by (auto simp: op_bind_def split: option.splits sum.splits)

lemma op_zoom_Some:
  "m (get s) = Some (r, t) \<Longrightarrow> op_zoom get upd m s = Some (r, upd (\<lambda>_. t) s)"
  by (simp add: op_zoom_def)

text \<open>Partial correctness of methods: what holds of every outcome that is not a panic.\<close>

definition op_keeps :: "('s \<Rightarrow> bool) \<Rightarrow> ('s, 'a) op \<Rightarrow> bool" where
  "op_keeps P m \<longleftrightarrow> (\<forall>s r s'. P s \<longrightarrow> m s = Some (r, s') \<longrightarrow> P s')"

lemma op_keepsD: "op_keeps P m \<Longrightarrow> P s \<Longrightarrow> m s = Some (r, s') \<Longrightarrow> P s'"
  unfolding op_keeps_def by blast

lemma op_keeps_basic [wf_intros]:
  "op_keeps P (op_return x)" "op_keeps P (op_get g)" "op_keeps P (op_result r)" "op_keeps P (op_option v)"
  by (auto simp: op_keeps_def op_option_def)

lemma op_keeps_bind [wf_intros]:
  assumes "op_keeps P m" "\<And>x. op_keeps P (f x)"
  shows "op_keeps P (op_bind m f)"
  unfolding op_keeps_def
proof (intro allI impI)
  fix s r s'
  assume P: "P s" and run: "op_bind m f s = Some (r, s')"
  show "P s'"
  proof (cases "m s")
    case None
    then show ?thesis using run by (simp add: op_bind_def)
  next
    case (Some out)
    obtain r1 s1 where out: "out = (r1, s1)" by (cases out)
    have "P s1" using op_keepsD [OF assms(1) P] Some out by simp
    then show ?thesis
      using run Some out op_keepsD [OF assms(2)] by (cases r1) (auto simp: op_bind_def)
  qed
qed

lemma op_keeps_modify: "(\<And>s. P s \<Longrightarrow> P (h s)) \<Longrightarrow> op_keeps P (op_modify h)"
  by (simp add: op_keeps_def)

lemma op_keeps_each [wf_intros]: "(\<And>x. op_keeps P (f x)) \<Longrightarrow> op_keeps P (op_each f xs)"
  by (induction xs) (auto intro: wf_intros)

end
