(* ===== verification/WriteBuffer.thy ===== *)
theory WriteBuffer
  imports Multi Effects
begin

text \<open>
  \<open>crates/shard/src/write_buffer.rs\<close>: the documents of a shard that are not in a segment yet, with a
  temporary segment for searching them that is rebuilt when it is out of date.  The temporary
  directory is always fresh and its removal is not modelled.
\<close>

section \<open>State and operations\<close>

record write_buffer =
  wb_docs :: "document list"
  wb_deleted :: "u64 set"
  wb_capacity :: nat
  wb_size :: nat
  wb_reader :: "segment_reader option"
  wb_stats :: "segment_statistics option"
  wb_dirty :: bool

definition wb_new :: "nat \<Rightarrow> write_buffer" where
  "wb_new capacity_bytes =
     \<lparr>wb_docs = [], wb_deleted = {}, wb_capacity = capacity_bytes, wb_size = 0, wb_reader = None,
      wb_stats = None, wb_dirty = False\<rparr>"

definition wb_is_full :: "write_buffer \<Rightarrow> bool" where
  "wb_is_full b \<longleftrightarrow> wb_capacity b \<le> wb_size b"

definition wb_add :: "document \<Rightarrow> write_buffer \<Rightarrow> bool \<times> write_buffer" where
  "wb_add doc b =
     (let b = b\<lparr>wb_size := wb_size b +
             (length (d_title doc) + length (d_description doc) + length (d_category doc) + 64),
           wb_docs := wb_docs b @ [doc], wb_dirty := True\<rparr>
      in (wb_is_full b, b))"

definition wb_mark_deleted :: "u64 \<Rightarrow> write_buffer \<Rightarrow> write_buffer" where
  "wb_mark_deleted doc_id b = b\<lparr>wb_deleted := insert doc_id (wb_deleted b), wb_dirty := True\<rparr>"

definition wb_doc_count :: "write_buffer \<Rightarrow> nat" where
  "wb_doc_count b = length (wb_docs b)"

definition wb_size_bytes :: "write_buffer \<Rightarrow> nat" where
  "wb_size_bytes b = wb_size b"

definition wb_is_empty :: "write_buffer \<Rightarrow> bool" where
  "wb_is_empty b \<longleftrightarrow> wb_docs b = []"

definition wb_all_docs :: "write_buffer \<Rightarrow> document list" where
  "wb_all_docs b = filter (\<lambda>d. d_id d \<notin> wb_deleted b) (wb_docs b)"

text \<open>Writing and opening a segment in one go, as the buffer, the flush and the merge do.\<close>

definition io_error :: "'a io_result \<Rightarrow> 'a result" where
  "io_error r = (case r of Inl e \<Rightarrow> Inl (Io e) | Inr x \<Rightarrow> Inr x)"

definition rebuild_segment :: "index_env \<Rightarrow> index_schema \<Rightarrow> (write_buffer, unit) op" where
  "rebuild_segment env schema =
     op_bind (op_modify (\<lambda>b. b\<lparr>wb_reader := None, wb_stats := None\<rparr>)) (\<lambda>_.
     op_bind (op_get wb_all_docs) (\<lambda>live_docs.
     if live_docs = [] then op_return ()
     else
       op_bind (op_result (io_error (segment_write env schema ''buffer'' live_docs Map.empty))) (\<lambda>d.
       op_bind (op_option (segment_open env ''buf'' d)) (\<lambda>opened.
       op_bind (op_result (io_error opened)) (\<lambda>reader.
       op_modify (\<lambda>b. b\<lparr>wb_reader := Some reader,
         wb_stats := Some (stats_compute env reader schema)\<rparr>))))))"

definition reader_and_stats ::
  "index_env \<Rightarrow> index_schema \<Rightarrow> (write_buffer, (segment_reader \<times> segment_statistics) option) op" where
  "reader_and_stats env schema =
     op_bind (op_get (\<lambda>b. b)) (\<lambda>b.
     if wb_docs b = [] then op_return None
     else
       op_bind (if wb_dirty b
           then op_bind (rebuild_segment env schema) (\<lambda>_. op_modify (\<lambda>b. b\<lparr>wb_dirty := False\<rparr>))
           else op_return ()) (\<lambda>_.
       op_get (\<lambda>b. case (wb_reader b, wb_stats b) of (Some r, Some s) \<Rightarrow> Some (r, s) | _ \<Rightarrow> None)))"

definition wb_drain :: "write_buffer \<Rightarrow> (document list \<times> u64 set) \<times> write_buffer" where
  "wb_drain b =
     ((wb_docs b, wb_deleted b),
      b\<lparr>wb_reader := None, wb_stats := None, wb_dirty := False, wb_size := 0, wb_docs := [],
        wb_deleted := {}\<rparr>)"

section \<open>What the temporary segment holds\<close>

definition buffer_fits :: "index_env \<Rightarrow> index_schema \<Rightarrow> write_buffer \<Rightarrow> bool" where
  "buffer_fits env schema b \<longleftrightarrow> wb_all_docs b = [] \<or> segment_fits env schema ''buffer'' (wb_all_docs b)"

definition buffer_segment :: "index_env \<Rightarrow> index_schema \<Rightarrow> write_buffer \<Rightarrow> segment_reader option" where
  "buffer_segment env schema b =
     (if wb_all_docs b = [] then None
      else Some (segment_of env schema ''buffer'' (wb_all_docs b) ''buf'' {}))"

text \<open>A segment that is not out of date is the one of the live documents.\<close>

definition wb_ok :: "index_env \<Rightarrow> index_schema \<Rightarrow> write_buffer \<Rightarrow> bool" where
  "wb_ok env schema b \<longleftrightarrow>
     (\<not> wb_dirty b \<and> wb_docs b \<noteq> [] \<longrightarrow>
        wb_reader b = buffer_segment env schema b \<and>
        wb_stats b = map_option (\<lambda>r. stats_compute env r schema) (wb_reader b))"

lemma wb_ok_new [wf_intros]: "wb_ok env schema (wb_new n)"
  by (simp add: wb_ok_def wb_new_def)

lemma wb_ok_add [wf_intros]: "wb_ok env schema (snd (wb_add doc b))"
  by (simp add: wb_ok_def wb_add_def Let_def)

lemma wb_ok_mark_deleted [wf_intros]: "wb_ok env schema (wb_mark_deleted i b)"
  by (simp add: wb_ok_def wb_mark_deleted_def)

lemma wb_ok_drain [wf_intros]: "wb_ok env schema (snd (wb_drain b))"
  by (simp add: wb_ok_def wb_drain_def)

lemma no_deletions [simp]: "load_deletion_bitmap bc Map.empty = Inr {}"
  by (simp add: load_deletion_bitmap_def fs_exists_def)

lemma wb_all_docs_update [simp]:
  "wb_all_docs (b\<lparr>wb_reader := r\<rparr>) = wb_all_docs b"
  "wb_all_docs (b\<lparr>wb_stats := s\<rparr>) = wb_all_docs b"
  "wb_all_docs (b\<lparr>wb_dirty := x\<rparr>) = wb_all_docs b"
  by (simp_all add: wb_all_docs_def)

lemma rebuild_segment_run:
  assumes "buffer_fits env schema b"
  shows "rebuild_segment env schema b = Some (Inr (),
    b\<lparr>wb_reader := buffer_segment env schema b,
      wb_stats := map_option (\<lambda>r. stats_compute env r schema) (buffer_segment env schema b)\<rparr>)"
proof (cases "wb_all_docs b = []")
  case True
  then show ?thesis by (simp add: rebuild_segment_def buffer_segment_def)
next
  case False
  then have "segment_fits env schema ''buffer'' (wb_all_docs b)"
    using assms by (simp add: buffer_fits_def)
  from segment_write_open [OF this no_deletions, of "''buf''"] obtain d where
    "segment_write env schema ''buffer'' (wb_all_docs b) Map.empty = Inr d"
    "segment_open env ''buf'' d = Some (Inr (segment_of env schema ''buffer'' (wb_all_docs b) ''buf'' {}))"
    by blast
  then show ?thesis using False by (simp add: rebuild_segment_def buffer_segment_def io_error_def)
qed

lemma reader_and_stats_run:
  assumes "buffer_fits env schema b" "wb_ok env schema b"
  shows "\<exists>b'. reader_and_stats env schema b =
      Some (Inr (map_option (\<lambda>r. (r, stats_compute env r schema)) (buffer_segment env schema b)), b') \<and>
    wb_ok env schema b' \<and> wb_docs b' = wb_docs b \<and> wb_deleted b' = wb_deleted b \<and>
    wb_size b' = wb_size b \<and> wb_capacity b' = wb_capacity b"
proof (cases "wb_docs b = []")
  case True
  then have "buffer_segment env schema b = None" by (simp add: buffer_segment_def wb_all_docs_def)
  then show ?thesis using True assms(2) by (simp add: reader_and_stats_def)
next
  case False
  have seg: "buffer_segment env schema (b\<lparr>wb_reader := r, wb_stats := s, wb_dirty := x\<rparr>) = buffer_segment env schema b" for r s x
    by (simp add: buffer_segment_def)
  show ?thesis
  proof (cases "wb_dirty b")
    case True
    have "op_bind (rebuild_segment env schema) (\<lambda>_. op_modify (\<lambda>b. b\<lparr>wb_dirty := False\<rparr>)) b =
        Some (Inr (), b\<lparr>wb_reader := buffer_segment env schema b,
          wb_stats := map_option (\<lambda>r. stats_compute env r schema) (buffer_segment env schema b), wb_dirty := False\<rparr>)"
      using rebuild_segment_run [OF assms(1)] by (simp add: op_bind_def)
    then show ?thesis
      using True False seg
      by (auto simp: reader_and_stats_def op_bind_def wb_ok_def split: option.split)
  next
    case clean: False
    then show ?thesis
      using False assms(2)
      by (auto simp: reader_and_stats_def wb_ok_def op_bind_def split: option.split)
  qed
qed

section \<open>Properties\<close>

text \<open>
  C24: the reader of the write buffer is never out of date: after any sequence of additions,
  deletions, drains and searches it is a segment of exactly the buffered documents that are not
  marked as deleted, with the statistics of that segment, and none when there are no such documents.
\<close>
theorem buffer_reader_current:
  assumes "buffer_fits env schema b" "wb_ok env schema b"
  shows "\<exists>b'. reader_and_stats env schema b =
      Some (Inr (if wb_all_docs b = [] then None
        else let r = segment_of env schema ''buffer'' (wb_all_docs b) ''buf'' {}
             in Some (r, stats_compute env r schema)), b') \<and>
    wb_ok env schema b' \<and> wb_all_docs b' = wb_all_docs b \<and>
    wb_ok env schema (snd (wb_add doc b')) \<and>
    wb_all_docs (snd (wb_add doc b')) =
      wb_all_docs b @ (if d_id doc \<in> wb_deleted b then [] else [doc]) \<and>
    wb_ok env schema (wb_mark_deleted i b') \<and>
    wb_all_docs (wb_mark_deleted i b') = filter (\<lambda>d. d_id d \<noteq> i) (wb_all_docs b) \<and>
    wb_ok env schema (snd (wb_drain b')) \<and> wb_all_docs (snd (wb_drain b')) = []"
proof -
  obtain b' where b': "reader_and_stats env schema b =
      Some (Inr (map_option (\<lambda>r. (r, stats_compute env r schema)) (buffer_segment env schema b)), b')"
    "wb_ok env schema b'" "wb_docs b' = wb_docs b" "wb_deleted b' = wb_deleted b"
    using reader_and_stats_run [OF assms] by blast
  then have "wb_all_docs (wb_mark_deleted i b') = filter (\<lambda>d. d_id d \<noteq> i) (wb_all_docs b)"
    by (auto simp: wb_all_docs_def wb_mark_deleted_def intro: filter_cong)
  then show ?thesis
    using b' wf_intros
    by (auto simp: buffer_segment_def Let_def wb_all_docs_def wb_add_def wb_drain_def intro: wf_intros)
qed

definition example_buffer :: write_buffer where
  "example_buffer = wb_mark_deleted 3 (snd (wb_add (example_doc 3) (snd (wb_add (example_doc 7) (wb_new 1000)))))"

lemma example_buffer_docs: "wb_all_docs example_buffer = [example_doc 7]"
  by (simp add: example_buffer_def wb_all_docs_def wb_add_def wb_mark_deleted_def wb_new_def example_doc_def Let_def)

theorem buffer_reader_current_witness:
  "\<exists>b' r. reader_and_stats example_env default_product_schema example_buffer =
      Some (Inr (Some (r, stats_compute example_env r default_product_schema)), b') \<and>
    r = segment_of example_env default_product_schema ''buffer'' [example_doc 7] ''buf'' {}"
proof -
  have "buffer_fits example_env default_product_schema example_buffer"
    using example_segment_fits [of "''buffer''"] by (simp add: buffer_fits_def example_buffer_docs)
  moreover have "wb_ok example_env default_product_schema example_buffer"
    by (simp add: example_buffer_def wb_ok_mark_deleted)
  ultimately show ?thesis
    using buffer_reader_current [of example_env default_product_schema example_buffer]
    by (auto simp: example_buffer_docs Let_def)
qed

end
