(* ===== verification/SegmentList.thy ===== *)
theory SegmentList
  imports Multi Effects
begin

text \<open>
  \<open>crates/shard/src/segment_list.rs\<close> and \<open>crates/shard/src/merge.rs\<close>: the segments of a shard, the
  map from global document ids to their place, and merging.

  \<open>sl_disk\<close> is the content of the directory of segments: what survives a restart.  Segments are
  read as in theory \<open>Scorer\<close>, a panicking read counting as absent.
\<close>

section \<open>State\<close>

record segment_entry =
  se_id :: string
  se_dir :: string
  se_reader :: segment_reader
  se_stats :: segment_statistics

record doc_location =
  loc_segment :: string
  loc_local :: u32

record segment_list =
  sl_segments :: "segment_entry list"
  sl_doc_map :: "u64 \<rightharpoonup> doc_location"
  sl_next_seq :: u64
  sl_disk :: "string \<rightharpoonup> dir"

text \<open>The documents of a segment, in order, with their local numbers.\<close>

definition local_docs :: "index_env \<Rightarrow> segment_reader \<Rightarrow> (u32 \<times> document) list" where
  "local_docs env r =
     List.map_filter (\<lambda>i. map_option (Pair (word_of_nat i)) (doc_at env r (word_of_nat i)))
       [0..<unat (m_doc_count (sr_meta r))]"

definition map_docs ::
  "index_env \<Rightarrow> string \<Rightarrow> segment_reader \<Rightarrow> (u64 \<rightharpoonup> doc_location) \<Rightarrow> (u64 \<rightharpoonup> doc_location)" where
  "map_docs env segment_id r m =
     foldl (\<lambda>m (i, doc). m(d_id doc \<mapsto> \<lparr>loc_segment = segment_id, loc_local = i\<rparr>)) m (local_docs env r)"

section \<open>Opening\<close>

definition segment_seq :: "string \<Rightarrow> u64 option" where
  "segment_seq name =
     (if prefix ''seg-'' name then map_option word_of_nat (parse_uint (2 ^ 64) (drop 4 name)) else None)"

text \<open>A directory that does not open is skipped, after its number has been taken into account.\<close>

fun open_segments ::
  "index_env \<Rightarrow> index_schema \<Rightarrow> (string \<rightharpoonup> dir) \<Rightarrow> string list \<Rightarrow>
   segment_entry list \<times> (u64 \<rightharpoonup> doc_location) \<times> u64 \<Rightarrow>
   (segment_entry list \<times> (u64 \<rightharpoonup> doc_location) \<times> u64) option" where
  "open_segments env schema disk [] acc = Some acc"
| "open_segments env schema disk (name # names) (segments, m, max_seq) =
     (let max_seq = (case segment_seq name of None \<Rightarrow> max_seq | Some s \<Rightarrow> max max_seq s)
      in case segment_open env name (case disk name of None \<Rightarrow> Map.empty | Some d \<Rightarrow> d) of
           None \<Rightarrow> None
         | Some (Inl e) \<Rightarrow> open_segments env schema disk names (segments, m, max_seq)
         | Some (Inr r) \<Rightarrow>
             open_segments env schema disk names
               (segments @ [\<lparr>se_id = name, se_dir = name, se_reader = r,
                  se_stats = stats_compute env r schema\<rparr>],
                map_docs env name r m, max_seq))"

definition sl_open ::
  "index_env \<Rightarrow> index_schema \<Rightarrow> (string \<rightharpoonup> dir) \<Rightarrow> segment_list option" where
  "sl_open env schema disk =
     map_option (\<lambda>(segments, m, max_seq).
         \<lparr>sl_segments = segments, sl_doc_map = m, sl_next_seq = max_seq + 1, sl_disk = disk\<rparr>)
       (open_segments env schema disk (filter (prefix ''seg-'') (sorted_list_of_set (dom disk)))
         ([], Map.empty, 0))"

section \<open>Operations\<close>

definition next_segment_id :: "segment_list \<Rightarrow> string \<times> segment_list" where
  "next_segment_id sl =
     (''seg-'' @ show_padded 6 (unat (sl_next_seq sl)), sl\<lparr>sl_next_seq := sl_next_seq sl + 1\<rparr>)"

definition add_segment :: "index_env \<Rightarrow> segment_entry \<Rightarrow> segment_list \<Rightarrow> segment_list" where
  "add_segment env entry sl =
     sl\<lparr>sl_doc_map := map_docs env (se_id entry) (se_reader entry) (sl_doc_map sl),
        sl_segments := sl_segments sl @ [entry]\<rparr>"

definition replace_segments ::
  "index_env \<Rightarrow> string list \<Rightarrow> segment_entry \<Rightarrow> segment_list \<Rightarrow> segment_list" where
  "replace_segments env old_ids new_entry sl =
     (let kept = (\<lambda>i. case sl_doc_map sl i of None \<Rightarrow> None
            | Some loc \<Rightarrow> if loc_segment loc \<in> set old_ids then None else Some loc)
      in sl\<lparr>sl_doc_map := map_docs env (se_id new_entry) (se_reader new_entry) kept,
            sl_segments := filter (\<lambda>s. se_id s \<notin> set old_ids) (sl_segments sl) @ [new_entry]\<rparr>)"

definition readers :: "segment_list \<Rightarrow> (segment_reader \<times> segment_statistics) list" where
  "readers sl = map (\<lambda>e. (se_reader e, se_stats e)) (sl_segments sl)"

definition find_segment :: "string \<Rightarrow> segment_list \<Rightarrow> segment_entry option" where
  "find_segment name sl = List.find (\<lambda>s. se_id s = name) (sl_segments sl)"

text \<open>The bitmap on disk is updated, and the map; the bitmap of the open reader is not.\<close>

definition sl_mark_deleted :: "index_env \<Rightarrow> u64 \<Rightarrow> (segment_list, bool) op" where
  "sl_mark_deleted env doc_id =
     op_bind (op_get (\<lambda>sl. sl)) (\<lambda>sl.
     case sl_doc_map sl doc_id of None \<Rightarrow> op_return False
     | Some loc \<Rightarrow>
         (case find_segment (loc_segment loc) sl of None \<Rightarrow> op_return False
          | Some entry \<Rightarrow>
              op_bind (op_result (case sl_disk sl (se_dir entry) of
                   None \<Rightarrow> Inl (Io (IoError FileNotFound (se_dir entry)))
                 | Some d \<Rightarrow> (case deletion_mark (ie_bitmap env) d (loc_local loc) of
                      Inl e \<Rightarrow> Inl (Io e) | Inr (bm, d') \<Rightarrow> Inr d'))) (\<lambda>d'.
              op_bind (op_modify (\<lambda>sl. sl\<lparr>sl_disk := (sl_disk sl)(se_dir entry \<mapsto> d')\<rparr>)) (\<lambda>_.
              op_bind (op_modify (\<lambda>sl. sl\<lparr>sl_doc_map := (sl_doc_map sl)(doc_id := None)\<rparr>)) (\<lambda>_.
              op_return True)))))"

definition sl_get_doc :: "index_env \<Rightarrow> segment_list \<Rightarrow> u64 \<Rightarrow> document option" where
  "sl_get_doc env sl doc_id =
     (case sl_doc_map sl doc_id of None \<Rightarrow> None
      | Some loc \<Rightarrow>
          (case find_segment (loc_segment loc) sl of None \<Rightarrow> None
           | Some entry \<Rightarrow> doc_at env (se_reader entry) (loc_local loc)))"

definition segment_count :: "segment_list \<Rightarrow> nat" where
  "segment_count sl = length (sl_segments sl)"

definition total_live_docs :: "segment_list \<Rightarrow> u64" where
  "total_live_docs sl =
     sum_list (map (\<lambda>e. word_of_nat (card (all_live_docs (se_reader e)))) (sl_segments sl))"

section \<open>Merging\<close>

record merge_policy =
  min_segments_to_merge :: nat
  max_merge_at_once :: nat

definition default_merge_policy :: merge_policy where
  "default_merge_policy = \<lparr>min_segments_to_merge = 3, max_merge_at_once = 10\<rparr>"

definition find_merges :: "merge_policy \<Rightarrow> segment_entry list \<Rightarrow> string list list" where
  "find_merges policy segments =
     (if length segments < min_segments_to_merge policy then []
      else
        let indexed = sort_by (\<lambda>a b. cmp_of (snd a) (snd b))
              (map (\<lambda>(i, e). (i, m_doc_count (sr_meta (se_reader e)))) (List.enumerate 0 segments));
            to_merge = map (\<lambda>(i, n). se_id (segments ! i)) (take (max_merge_at_once policy) indexed)
        in if min_segments_to_merge policy \<le> length to_merge then [to_merge] else [])"

text \<open>Reading the live documents of some segments into a new one; the disk gets its directory.\<close>

definition merged_docs :: "index_env \<Rightarrow> segment_entry list \<Rightarrow> document list" where
  "merged_docs env sources = concat (map (\<lambda>e. map snd (local_docs env (se_reader e))) sources)"

definition write_segment ::
  "index_env \<Rightarrow> index_schema \<Rightarrow> string \<Rightarrow> document list \<Rightarrow> (segment_list, segment_entry) op" where
  "write_segment env schema segment_id docs =
     op_bind (op_get (\<lambda>sl. case sl_disk sl segment_id of None \<Rightarrow> Map.empty | Some d \<Rightarrow> d)) (\<lambda>d0.
     op_bind (op_result (case segment_write env schema segment_id docs d0 of
         Inl e \<Rightarrow> Inl (Io e) | Inr d \<Rightarrow> Inr d)) (\<lambda>d.
     op_bind (op_modify (\<lambda>sl. sl\<lparr>sl_disk := (sl_disk sl)(segment_id \<mapsto> d)\<rparr>)) (\<lambda>_.
     op_bind (op_option (segment_open env segment_id d)) (\<lambda>opened.
     op_bind (op_result (case opened of Inl e \<Rightarrow> Inl (Io e) | Inr r \<Rightarrow> Inr r)) (\<lambda>reader.
     op_return \<lparr>se_id = segment_id, se_dir = segment_id, se_reader = reader,
       se_stats = stats_compute env reader schema\<rparr>)))))"

definition execute_merge ::
  "index_env \<Rightarrow> index_schema \<Rightarrow> segment_entry list \<Rightarrow> string \<Rightarrow> (segment_list, segment_entry) op" where
  "execute_merge env schema sources new_segment_id =
     write_segment env schema new_segment_id (merged_docs env sources)"

section \<open>The map of documents\<close>

definition segment_lookup :: "index_env \<Rightarrow> segment_reader \<Rightarrow> u64 \<Rightarrow> (u32 \<times> document) option" where
  "segment_lookup env r i = List.find (\<lambda>(l, d). d_id d = i) (rev (local_docs env r))"

definition segment_docs :: "index_env \<Rightarrow> segment_entry \<Rightarrow> u64 \<rightharpoonup> document" where
  "segment_docs env e i = map_option snd (segment_lookup env (se_reader e) i)"

lemma map_docs_lookup:
  "map_docs env sid r m i =
     (case segment_lookup env r i of None \<Rightarrow> m i | Some (l, d) \<Rightarrow> Some \<lparr>loc_segment = sid, loc_local = l\<rparr>)"
proof -
  have "foldl (\<lambda>m (l, doc). m(d_id doc \<mapsto> \<lparr>loc_segment = sid, loc_local = l\<rparr>)) m xs i =
      (case List.find (\<lambda>(l, d). d_id d = i) (rev xs) of None \<Rightarrow> m i
       | Some (l, d) \<Rightarrow> Some \<lparr>loc_segment = sid, loc_local = l\<rparr>)" for xs
    by (induction xs rule: rev_induct) auto
  then show ?thesis by (simp add: map_docs_def segment_lookup_def)
qed

lemma find_Some_mem: "List.find P xs = Some x \<Longrightarrow> x \<in> set xs \<and> P x"
  by (auto simp: find_Some_iff)

lemma local_docs_mem: "(l, d) \<in> set (local_docs env r) \<Longrightarrow> doc_at env r l = Some d"
  by (auto simp: local_docs_def in_map_filter)

lemma segment_lookup_doc:
  "segment_lookup env r i = Some (l, d) \<Longrightarrow> doc_at env r l = Some d \<and> d_id d = i"
  unfolding segment_lookup_def by (auto dest!: find_Some_mem dest: local_docs_mem)

text \<open>Segment names are distinct, and the map points to documents with the right id.\<close>

definition sl_wf :: "index_env \<Rightarrow> segment_list \<Rightarrow> bool" where
  "sl_wf env sl \<longleftrightarrow> distinct (map se_id (sl_segments sl)) \<and>
     (\<forall>i loc. sl_doc_map sl i = Some loc \<longrightarrow>
        (\<exists>e d. find_segment (loc_segment loc) sl = Some e \<and>
           doc_at env (se_reader e) (loc_local loc) = Some d \<and> d_id d = i))"

lemma find_append_old:
  "P x \<Longrightarrow> List.find P (xs @ [x]) = (case List.find P xs of None \<Rightarrow> Some x | Some y \<Rightarrow> Some y)"
  "\<not> P x \<Longrightarrow> List.find P (xs @ [x]) = List.find P xs"
  by (induction xs) auto

lemma find_fresh: "f a \<notin> f ` set xs \<Longrightarrow> List.find (\<lambda>s. f s = f a) xs = None"
  by (induction xs) auto

lemma find_filter_kept:
  "(\<And>x. P x \<Longrightarrow> Q x) \<Longrightarrow> List.find P (filter Q xs) = List.find P xs"
  by (induction xs) auto

text \<open>Putting a segment with a new name in place of none, or of some, of the others.\<close>

lemma replace_segments_wf:
  assumes wf: "sl_wf env sl" and new: "se_id e \<notin> se_id ` {s \<in> set (sl_segments sl). se_id s \<notin> set old}"
  shows "sl_wf env (replace_segments env old e sl)"
    and "sl_get_doc env (replace_segments env old e sl) =
      (\<lambda>i. case sl_doc_map sl i of None \<Rightarrow> None
         | Some loc \<Rightarrow> if loc_segment loc \<in> set old then None else sl_get_doc env sl i) ++ segment_docs env e"
proof -
  let ?sl = "replace_segments env old e sl"
  let ?segs = "filter (\<lambda>s. se_id s \<notin> set old) (sl_segments sl)"
  have d: "distinct (map se_id (sl_segments ?sl))"
    using wf new by (auto simp: replace_segments_def Let_def sl_wf_def distinct_map_filter)
  have e: "find_segment (se_id e) ?sl = Some e"
  proof -
    have "List.find (\<lambda>s. se_id s = se_id e) ?segs = None"
      using new by (intro find_fresh) simp
    then show ?thesis by (simp add: find_segment_def replace_segments_def Let_def find_append_old(1))
  qed
  have old: "find_segment (loc_segment loc) ?sl = find_segment (loc_segment loc) sl"
    if m: "sl_doc_map sl i = Some loc" and nin: "loc_segment loc \<notin> set old" for i loc
  proof -
    obtain e' where "find_segment (loc_segment loc) sl = Some e'"
      using wf m unfolding sl_wf_def by blast
    then have e': "e' \<in> set (sl_segments sl)" "se_id e' = loc_segment loc"
      by (auto simp: find_segment_def dest: find_Some_mem)
    then have "se_id e \<noteq> loc_segment loc" using new nin by force
    moreover have "List.find (\<lambda>s. se_id s = loc_segment loc) ?segs =
        List.find (\<lambda>s. se_id s = loc_segment loc) (sl_segments sl)"
      using nin by (intro find_filter_kept) simp
    ultimately show ?thesis
      by (simp add: find_segment_def replace_segments_def Let_def find_append_old)
  qed
  have lk: "sl_doc_map ?sl i = (case segment_lookup env (se_reader e) i of
      None \<Rightarrow> (case sl_doc_map sl i of None \<Rightarrow> None
        | Some loc \<Rightarrow> if loc_segment loc \<in> set old then None else Some loc)
      | Some (l, d) \<Rightarrow> Some \<lparr>loc_segment = se_id e, loc_local = l\<rparr>)" for i
    by (simp add: replace_segments_def Let_def map_docs_lookup)
  show "sl_wf env ?sl"
    unfolding sl_wf_def
  proof (intro conjI allI impI)
    fix i loc
    assume m: "sl_doc_map ?sl i = Some loc"
    show "\<exists>e' d. find_segment (loc_segment loc) ?sl = Some e' \<and>
        doc_at env (se_reader e') (loc_local loc) = Some d \<and> d_id d = i"
    proof (cases "segment_lookup env (se_reader e) i")
      case None
      then have "sl_doc_map sl i = Some loc" "loc_segment loc \<notin> set old"
        using m lk [of i] by (auto split: option.splits if_splits)
      then show ?thesis using old wf unfolding sl_wf_def by simp
    next
      case (Some ld)
      then show ?thesis
        using m lk [of i] e segment_lookup_doc [of env "se_reader e" i] by (cases ld) auto
    qed
  qed (rule d)
  show "sl_get_doc env ?sl = (\<lambda>i. case sl_doc_map sl i of None \<Rightarrow> None
         | Some loc \<Rightarrow> if loc_segment loc \<in> set old then None else sl_get_doc env sl i) ++ segment_docs env e"
  proof
    fix i
    show "sl_get_doc env ?sl i = ((\<lambda>i. case sl_doc_map sl i of None \<Rightarrow> None
         | Some loc \<Rightarrow> if loc_segment loc \<in> set old then None else sl_get_doc env sl i) ++ segment_docs env e) i"
    proof (cases "segment_lookup env (se_reader e) i")
      case None
      then show ?thesis
        using lk [of i] old [of i] by (auto simp: sl_get_doc_def map_add_def segment_docs_def split: option.splits)
    next
      case (Some ld)
      then show ?thesis
        using lk [of i] e segment_lookup_doc [of env "se_reader e" i]
        by (cases ld) (auto simp: sl_get_doc_def map_add_def segment_docs_def)
    qed
  qed
qed

lemma option_case_id: "(case x of None \<Rightarrow> None | Some y \<Rightarrow> Some y) = x"
  by (cases x) simp_all

lemma add_segment_replace: "add_segment env e sl = replace_segments env [] e sl"
  by (simp add: add_segment_def replace_segments_def option_case_id cong: option.case_cong)

lemma add_segment_wf:
  assumes "sl_wf env sl" "se_id e \<notin> se_id ` set (sl_segments sl)"
  shows "sl_wf env (add_segment env e sl) \<and>
    sl_get_doc env (add_segment env e sl) = sl_get_doc env sl ++ segment_docs env e"
proof -
  have new: "se_id e \<notin> se_id ` {s \<in> set (sl_segments sl). se_id s \<notin> set []}" using assms(2) by simp
  have "(\<lambda>i. case sl_doc_map sl i of None \<Rightarrow> None | Some loc \<Rightarrow> sl_get_doc env sl i) = sl_get_doc env sl"
    by (rule ext) (simp add: sl_get_doc_def split: option.split)
  then show ?thesis
    using replace_segments_wf [OF assms(1) new] by (simp add: add_segment_replace cong: option.case_cong)
qed

lemma find_segment_update [simp]:
  "find_segment name (sl\<lparr>sl_disk := d\<rparr>) = find_segment name sl"
  "find_segment name (sl\<lparr>sl_doc_map := m\<rparr>) = find_segment name sl"
  "find_segment name (sl\<lparr>sl_next_seq := n\<rparr>) = find_segment name sl"
  by (simp_all add: find_segment_def)

lemma sl_get_doc_update [simp]:
  "sl_get_doc env (sl\<lparr>sl_disk := d\<rparr>) = sl_get_doc env sl"
  "sl_get_doc env (sl\<lparr>sl_next_seq := n\<rparr>) = sl_get_doc env sl"
  by (simp_all add: sl_get_doc_def fun_eq_iff cong: option.case_cong)

lemma sl_wf_update [simp]:
  "sl_wf env (sl\<lparr>sl_disk := d\<rparr>) = sl_wf env sl"
  "sl_wf env (sl\<lparr>sl_next_seq := n\<rparr>) = sl_wf env sl"
  by (simp_all add: sl_wf_def)

lemma sl_mark_deleted_wf:
  assumes wf: "sl_wf env sl" and run: "sl_mark_deleted env i sl = Some (Inr b, sl')"
  shows "sl_wf env sl' \<and> sl_get_doc env sl' = (sl_get_doc env sl)(i := None) \<and>
    (b \<longleftrightarrow> sl_get_doc env sl i \<noteq> None) \<and> sl_segments sl' = sl_segments sl"
proof (cases "sl_doc_map sl i")
  case None
  then show ?thesis using wf run by (auto simp: sl_mark_deleted_def sl_get_doc_def fun_eq_iff)
next
  case (Some loc)
  obtain e d where e: "find_segment (loc_segment loc) sl = Some e" "doc_at env (se_reader e) (loc_local loc) = Some d"
    using wf Some unfolding sl_wf_def by blast
  obtain disk where sl': "b = True" "sl' = sl\<lparr>sl_disk := disk, sl_doc_map := (sl_doc_map sl)(i := None)\<rparr>"
    using run Some e(1) by (auto simp: sl_mark_deleted_def op_bind_def op_result_def split: option.splits sum.splits)
  have "sl_wf env (sl\<lparr>sl_doc_map := (sl_doc_map sl)(i := None)\<rparr>)"
    using wf by (auto simp: sl_wf_def)
  then have "sl_wf env sl'" unfolding sl'(2) by (simp add: sl_wf_def find_segment_def)
  then show ?thesis
    using Some e by (auto simp: sl' sl_get_doc_def fun_eq_iff find_segment_def split: option.split)
qed

section \<open>The latest documents\<close>

definition doc_lookup :: "document list \<Rightarrow> u64 \<rightharpoonup> document" where
  "doc_lookup ds i = List.find (\<lambda>d. d_id d = i) (rev ds)"

lemma find_append: "List.find P (xs @ ys) = (case List.find P xs of None \<Rightarrow> List.find P ys | Some x \<Rightarrow> Some x)"
  by (induction xs) auto

lemma doc_lookup_append: "doc_lookup (xs @ ys) = doc_lookup xs ++ doc_lookup ys"
  by (rule ext) (simp add: doc_lookup_def find_append map_add_def split: option.split)

lemma doc_lookup_Nil [simp]: "doc_lookup [] = Map.empty"
  by (rule ext) (simp add: doc_lookup_def)

lemma segment_docs_lookup: "segment_docs env e = doc_lookup (map snd (local_docs env (se_reader e)))"
proof
  fix i
  have "map_option snd (List.find (\<lambda>(l, d). d_id d = i) xs) = List.find (\<lambda>d. d_id d = i) (map snd xs)"
    for xs :: "(u32 \<times> document) list"
    by (induction xs) (auto simp: case_prod_beta)
  then show "segment_docs env e i = doc_lookup (map snd (local_docs env (se_reader e))) i"
    by (simp add: segment_docs_def segment_lookup_def doc_lookup_def rev_map)
qed

definition latest_docs :: "index_env \<Rightarrow> segment_entry list \<Rightarrow> u64 \<rightharpoonup> document" where
  "latest_docs env segs = doc_lookup (merged_docs env segs)"

lemma latest_docs_append: "latest_docs env (xs @ [e]) = latest_docs env xs ++ segment_docs env e"
  by (simp add: latest_docs_def merged_docs_def doc_lookup_append segment_docs_lookup)

text \<open>Every lookup finds the document of the last segment that holds the id; true until a document
  is deleted.\<close>

definition sl_latest :: "index_env \<Rightarrow> segment_list \<Rightarrow> bool" where
  "sl_latest env sl \<longleftrightarrow> sl_get_doc env sl = latest_docs env (sl_segments sl)"

text \<open>A freshly written segment.\<close>

definition entry_of :: "index_env \<Rightarrow> index_schema \<Rightarrow> string \<Rightarrow> document list \<Rightarrow> segment_entry" where
  "entry_of env schema sid docs =
     (let r = segment_of env schema sid docs sid {}
      in \<lparr>se_id = sid, se_dir = sid, se_reader = r, se_stats = stats_compute env r schema\<rparr>)"

lemma write_segment_run:
  assumes "segment_fits env schema sid docs" "sl_disk sl sid = None"
  shows "\<exists>d. write_segment env schema sid docs sl =
    Some (Inr (entry_of env schema sid docs), sl\<lparr>sl_disk := (sl_disk sl)(sid \<mapsto> d)\<rparr>) \<and>
    segment_files env schema sid docs d \<and> load_deletion_bitmap (ie_bitmap env) d = Inr {}"
proof -
  have e: "load_deletion_bitmap (ie_bitmap env) Map.empty = Inr {}"
    by (simp add: load_deletion_bitmap_def fs_exists_def)
  obtain d where d: "segment_write env schema sid docs Map.empty = Inr d"
    "segment_files env schema sid docs d" "d ''deletions.bin'' = None"
    using segment_write_files [OF assms(1), of Map.empty] by auto
  have l: "load_deletion_bitmap (ie_bitmap env) d = Inr {}"
    using d(3) by (simp add: load_deletion_bitmap_def fs_exists_def)
  from segment_files_open [OF assms(1) d(2) l, of sid]
  show ?thesis
    using d l assms(2) by (intro exI [of _ d]) (simp add: write_segment_def entry_of_def Let_def)
qed

lemma doc_at_segment_of:
  assumes "segment_fits env schema sid docs"
  shows "doc_at env (segment_of env schema sid docs path deleted) i =
    (if unat i < length docs \<and> i \<notin> deleted then Some (docs ! unat i) else None)"
proof -
  have "docs_fit (ie_doc env) docs" using assms by (simp add: segment_fits_def Let_def)
  then show ?thesis
    using dr_get_any [of "ie_doc env" docs deleted i] by (simp add: doc_at_def get_doc_def segment_of_def)
qed

text \<open>The documents of a segment that its bitmap leaves.\<close>

definition kept_docs :: "document list \<Rightarrow> bitmap \<Rightarrow> document list" where
  "kept_docs docs deleted = map ((!) docs) (filter (\<lambda>i. word_of_nat i \<notin> deleted) [0..<length docs])"

lemma kept_docs_empty [simp]: "kept_docs docs {} = docs"
  by (simp add: kept_docs_def map_nth)

lemma kept_docs_mono: "deleted \<subseteq> deleted' \<Longrightarrow> set (kept_docs docs deleted') \<subseteq> set (kept_docs docs deleted)"
  by (auto simp: kept_docs_def)

lemma local_docs_kept:
  assumes "segment_fits env schema sid docs"
  shows "map snd (local_docs env (segment_of env schema sid docs path deleted)) = kept_docs docs deleted"
proof -
  let ?r = "segment_of env schema sid docs path deleted"
  have n: "length docs < 2 ^ 32" using assms by (simp add: segment_fits_def Let_def)
  then have cnt: "unat (m_doc_count (sr_meta ?r)) = length docs"
    by (simp add: segment_of_def segment_meta_of_def unat_of_nat)
  have "map snd (List.map_filter f xs) = List.map_filter (map_option snd \<circ> f) xs" for f :: "nat \<Rightarrow> (u32 \<times> document) option" and xs
    by (induction xs) (simp_all add: List.map_filter_simps split: option.split)
  then have "map snd (local_docs env ?r) =
      List.map_filter (\<lambda>i. doc_at env ?r (word_of_nat i)) [0..<length docs]"
    by (simp add: local_docs_def cnt option.map_comp comp_def option.map_ident)
  also have "\<dots> = List.map_filter (\<lambda>i. if word_of_nat i \<notin> deleted then Some (docs ! i) else None) [0..<length docs]"
    unfolding List.map_filter_def
    using n by (intro arg_cong2 [where f = map] filter_cong map_cong refl)
      (auto simp: doc_at_segment_of [OF assms] unat_of_nat cong: filter_cong)
  finally show ?thesis by (simp add: List.map_filter_def kept_docs_def comp_def cong: filter_cong)
qed

lemma local_docs_segment_of:
  assumes "segment_fits env schema sid docs"
  shows "map snd (local_docs env (segment_of env schema sid docs path {})) = docs"
  by (simp add: local_docs_kept [OF assms])

section \<open>Opening a directory of segments\<close>

lemma open_segments_latest:
  assumes "open_segments env schema disk names (segs, m, n) = Some (segs', m', n')"
    and "distinct (map se_id segs @ names)"
    and "sl_wf env sl \<and> sl_latest env sl" "sl_segments sl = segs" "sl_doc_map sl = m"
  shows "\<exists>sl'. sl_segments sl' = segs' \<and> sl_doc_map sl' = m' \<and> sl_wf env sl' \<and> sl_latest env sl'"
  using assms
proof (induction names arbitrary: segs m n sl)
  case Nil
  then show ?case by auto
next
  case (Cons name names)
  let ?d = "case sl_disk sl name of None \<Rightarrow> Map.empty | Some d \<Rightarrow> d"
  show ?case
  proof (cases "segment_open env name (case disk name of None \<Rightarrow> Map.empty | Some d \<Rightarrow> d)")
    case None
    then show ?thesis using Cons.prems(1) by simp
  next
    case (Some res)
    show ?thesis
    proof (cases res)
      case (Inl e)
      show ?thesis
        by (rule Cons.IH [OF _ _ Cons.prems(3,4,5)]) (use Cons.prems(1,2) Some Inl in \<open>simp_all add: Let_def\<close>)
    next
      case (Inr r)
      let ?e = "\<lparr>se_id = name, se_dir = name, se_reader = r, se_stats = stats_compute env r schema\<rparr>"
      have fresh: "se_id ?e \<notin> se_id ` set (sl_segments sl)" using Cons.prems(2,4) by auto
      have sl': "sl_wf env (add_segment env ?e sl)" "sl_latest env (add_segment env ?e sl)"
        using add_segment_wf [OF _ fresh] Cons.prems(3)
        by (auto simp: sl_latest_def add_segment_def latest_docs_append)
      show ?thesis
        by (rule Cons.IH [where sl = "add_segment env ?e sl"])
          (use Cons.prems(1,2,4,5) Some Inr sl' in \<open>simp_all add: Let_def add_segment_def\<close>)
    qed
  qed
qed

lemma sl_open_latest:
  assumes "sl_open env schema disk = Some sl"
  shows "sl_wf env sl \<and> sl_latest env sl"
proof -
  let ?names = "filter (prefix ''seg-'') (sorted_list_of_set (dom disk))"
  let ?sl0 = "\<lparr>sl_segments = [], sl_doc_map = Map.empty, sl_next_seq = 0, sl_disk = disk\<rparr>"
  obtain n where o: "open_segments env schema disk ?names ([], Map.empty, 0) = Some (sl_segments sl, sl_doc_map sl, n)"
    using assms by (auto simp: sl_open_def)
  have "sl_wf env ?sl0 \<and> sl_latest env ?sl0"
    by (auto simp: sl_wf_def sl_latest_def sl_get_doc_def latest_docs_def merged_docs_def)
  from open_segments_latest [OF o _ this] obtain sl' where
    "sl_segments sl' = sl_segments sl" "sl_doc_map sl' = sl_doc_map sl" "sl_wf env sl'" "sl_latest env sl'"
    by auto
  then show ?thesis
    by (simp add: sl_wf_def sl_latest_def sl_get_doc_def find_segment_def fun_eq_iff cong: option.case_cong)
qed

section \<open>Properties\<close>

text \<open>
  C9: a segment list is a map from ids to documents: opening a directory gives, for every id, the
  document of the last segment that holds it; adding a segment under a new name puts its documents
  over the map, deleting an id takes it out and says whether it was there, and replacing segments
  takes out the documents located in them and puts those of the new segment over the rest.  The
  structure stays well formed throughout.
\<close>
theorem segment_list_is_map:
  assumes "sl_wf env sl" "se_id e \<notin> se_id ` set (sl_segments sl)"
  shows "sl_wf env (add_segment env e sl) \<and>
    sl_get_doc env (add_segment env e sl) = sl_get_doc env sl ++ segment_docs env e \<and>
    (\<forall>b sl'. sl_mark_deleted env i sl = Some (Inr b, sl') \<longrightarrow>
       sl_wf env sl' \<and> sl_get_doc env sl' = (sl_get_doc env sl)(i := None) \<and>
       (b \<longleftrightarrow> sl_get_doc env sl i \<noteq> None)) \<and>
    sl_wf env (replace_segments env old e sl) \<and>
    sl_get_doc env (replace_segments env old e sl) =
      (\<lambda>i. case sl_doc_map sl i of None \<Rightarrow> None
         | Some loc \<Rightarrow> if loc_segment loc \<in> set old then None else sl_get_doc env sl i) ++ segment_docs env e \<and>
    (\<forall>sl'. sl_open env schema disk = Some sl' \<longrightarrow>
       sl_wf env sl' \<and> sl_get_doc env sl' = latest_docs env (sl_segments sl'))"
proof -
  have new: "se_id e \<notin> se_id ` {s \<in> set (sl_segments sl). se_id s \<notin> set old}" using assms(2) by auto
  show ?thesis
    using add_segment_wf [OF assms] replace_segments_wf [OF assms(1) new] sl_mark_deleted_wf [OF assms(1)]
      sl_open_latest [of env schema disk] by (auto simp: sl_latest_def)
qed

definition example_sl :: segment_list where
  "example_sl = \<lparr>sl_segments = [], sl_doc_map = Map.empty, sl_next_seq = 1, sl_disk = Map.empty\<rparr>"

definition example_entry :: segment_entry where
  "example_entry = entry_of example_env default_product_schema ''seg-000001'' [example_doc 7]"

lemma example_entry_docs: "segment_docs example_env example_entry = [7 \<mapsto> example_doc 7]"
proof -
  have "map snd (local_docs example_env (se_reader example_entry)) = [example_doc 7]"
    using local_docs_segment_of [OF example_segment_fits [of "''seg-000001''"], of "''seg-000001''"]
    by (simp add: example_entry_def entry_of_def Let_def)
  then show ?thesis
    by (auto simp: segment_docs_lookup doc_lookup_def example_doc_def fun_eq_iff)
qed

theorem segment_list_is_map_witness:
  "sl_get_doc example_env (add_segment example_env example_entry example_sl) 7 = Some (example_doc 7) \<and>
   sl_get_doc example_env (add_segment example_env example_entry example_sl) 8 = None"
proof -
  have "sl_wf example_env example_sl" by (simp add: sl_wf_def example_sl_def)
  moreover have "se_id example_entry \<notin> se_id ` set (sl_segments example_sl)" by (simp add: example_sl_def)
  moreover have e: "sl_get_doc example_env example_sl = Map.empty"
    by (simp add: sl_get_doc_def example_sl_def fun_eq_iff)
  ultimately have "sl_get_doc example_env (add_segment example_env example_entry example_sl) =
      sl_get_doc example_env example_sl ++ segment_docs example_env example_entry"
    using segment_list_is_map [of example_env example_sl example_entry] by blast
  then show ?thesis by (simp only: e example_entry_docs) simp
qed

end
