(* ===== verification/Wal.thy ===== *)
theory Wal
  imports Effects Disk
begin

text \<open>
  \<open>crates/shard/src/wal.rs\<close>: the write-ahead log of a shard.  \<open>wl_file\<close> is the content of the file,
  which is what survives a crash, \<open>wl_next_seq\<close> the field of the same name.  \<open>bincode\<close> is the codec
  of the records.  Appending to the file and \<open>fsync\<close> succeed.
\<close>

section \<open>Records and the log\<close>

datatype wal_entry = Index document | Delete u64

record wal_record =
  wr_seq :: u64
  wr_entry :: wal_entry

record wal =
  wl_file :: bytes
  wl_next_seq :: u64

text \<open>Appending a batch; the numbers of entries written before a failure are used up.\<close>

fun append_entries :: "wal_record codec \<Rightarrow> wal_entry list \<Rightarrow> u64 list \<Rightarrow> (wal, u64 list) op" where
  "append_entries c [] seqs = op_return seqs"
| "append_entries c (entry # entries) seqs =
     op_bind (op_get wl_next_seq) (\<lambda>seq.
     op_bind (op_modify (\<lambda>w. w\<lparr>wl_next_seq := wl_next_seq w + 1\<rparr>)) (\<lambda>_.
     op_bind (op_result (case ser c \<lparr>wr_seq = seq, wr_entry = entry\<rparr> of
         Inl msg \<Rightarrow> Inl (Wal msg) | Inr encoded \<Rightarrow> Inr encoded)) (\<lambda>encoded.
     op_bind (op_modify (\<lambda>w. w\<lparr>wl_file := wl_file w @ u32_le (word_of_nat (length encoded)) @ encoded\<rparr>)) (\<lambda>_.
     append_entries c entries (seqs @ [seq])))))"

definition append_batch :: "wal_record codec \<Rightarrow> wal_entry list \<Rightarrow> (wal, u64 list) op" where
  "append_batch c entries = append_entries c entries []"

definition wal_append :: "wal_record codec \<Rightarrow> wal_entry \<Rightarrow> (wal, u64) op" where
  "wal_append c entry =
     op_bind (append_batch c [entry]) (\<lambda>seqs. op_option (case seqs of [] \<Rightarrow> None | s # ss \<Rightarrow> Some s))"

text \<open>Reading stops without an error at the end of the file, at a record that is cut off, and at
  one that does not decode.\<close>

function read_records :: "wal_record codec \<Rightarrow> bytes \<Rightarrow> wal_record list" where
  "read_records c data =
     (if length data < 4 then []
      else let len = unat (u32_from_le (take 4 data)); body = drop 4 data
      in if length body < len then []
         else (case de c (take len body) of Inl msg \<Rightarrow> []
               | Inr record \<Rightarrow> record # read_records c (drop len body)))"
  by pat_completeness auto

termination read_records
  by (relation "measure (\<lambda>(c, data). length data)") auto

declare read_records.simps [simp del]

definition wal_open :: "wal_record codec \<Rightarrow> bytes \<Rightarrow> wal" where
  "wal_open c data =
     \<lparr>wl_file = data,
      wl_next_seq = (case read_records c data of [] \<Rightarrow> 0
        | r # rs \<Rightarrow> wr_seq (last (r # rs)) + 1)\<rparr>"

definition read_all :: "wal_record codec \<Rightarrow> wal \<Rightarrow> wal_entry list" where
  "read_all c w = map wr_entry (read_records c (wl_file w))"

definition read_since :: "wal_record codec \<Rightarrow> u64 \<Rightarrow> wal \<Rightarrow> wal_record list" where
  "read_since c from_seq w = filter (\<lambda>r. from_seq \<le> wr_seq r) (read_records c (wl_file w))"

definition wal_truncate :: "wal \<Rightarrow> wal" where
  "wal_truncate w = w\<lparr>wl_file := []\<rparr>"

section \<open>The records of a file\<close>

definition wal_frame :: "wal_record codec \<Rightarrow> wal_record \<Rightarrow> bytes" where
  "wal_frame c r = u32_le (word_of_nat (length (encoding c r))) @ encoding c r"

definition record_fits :: "wal_record codec \<Rightarrow> wal_record \<Rightarrow> bool" where
  "record_fits c r \<longleftrightarrow> codec_ok c r \<and> length (encoding c r) < 2 ^ 32"

definition wal_bytes :: "wal_record codec \<Rightarrow> wal_record list \<Rightarrow> bytes" where
  "wal_bytes c rs = concat (map (wal_frame c) rs)"

lemma read_frame:
  assumes "record_fits c r"
  shows "read_records c (wal_frame c r @ rest) = r # read_records c rest"
  using assms codec_okD(2) [of c r]
  by (subst read_records.simps)
    (simp add: wal_frame_def record_fits_def Let_def unat_of_nat take_bit_eq_mod)

lemma read_short:
  assumes "length data < length (wal_frame c r)" "data = take (length data) (wal_frame c r)" "record_fits c r"
  shows "read_records c data = []"
proof (cases "length data < 4")
  case False
  have "take 4 data = u32_le (word_of_nat (length (encoding c r)))"
    using assms(2) False by (metis append_eq_conv_conj length_u32_le min.absorb1 not_less take_take wal_frame_def)
  moreover have "length (drop 4 data) < length (encoding c r)"
    using assms(1) False by (simp add: wal_frame_def)
  ultimately show ?thesis
    using assms(3) False by (subst read_records.simps) (simp add: record_fits_def Let_def unat_of_nat)
qed (subst read_records.simps, simp)

lemma read_wal_bytes:
  "\<forall>r \<in> set rs. record_fits c r \<Longrightarrow> read_records c (wal_bytes c rs @ rest) = rs @ read_records c rest"
  by (induction rs) (simp_all add: wal_bytes_def read_frame)

lemma read_records_Nil [simp]: "read_records c [] = []"
  by (subst read_records.simps) simp

text \<open>A file cut anywhere yields the records that are still whole.\<close>

lemma read_cut:
  assumes "\<forall>r \<in> set rs. record_fits c r"
  shows "\<exists>k \<le> length rs. read_records c (take n (wal_bytes c rs)) = take k rs \<and>
    length (wal_bytes c (take k rs)) \<le> n \<and> (k < length rs \<longrightarrow> n < length (wal_bytes c (take (Suc k) rs)))"
  using assms
proof (induction rs arbitrary: n)
  case Nil
  then show ?case by (simp add: wal_bytes_def)
next
  case (Cons r rs)
  let ?f = "wal_frame c r"
  show ?case
  proof (cases "n < length ?f")
    case True
    then have "read_records c (take n (wal_bytes c (r # rs))) = []"
      using Cons.prems read_short [of "take n ?f" c r] by (simp add: wal_bytes_def)
    then show ?thesis using True by (intro exI [of _ 0]) (simp add: wal_bytes_def)
  next
    case False
    then have "take n (wal_bytes c (r # rs)) = ?f @ take (n - length ?f) (wal_bytes c rs)"
      by (simp add: wal_bytes_def)
    moreover obtain k where "k \<le> length rs" "read_records c (take (n - length ?f) (wal_bytes c rs)) = take k rs"
      "length (wal_bytes c (take k rs)) \<le> n - length ?f"
      "k < length rs \<longrightarrow> n - length ?f < length (wal_bytes c (take (Suc k) rs))"
      using Cons by (metis list.set_intros(2))
    ultimately show ?thesis
      using False Cons.prems read_frame [of c r]
      by (intro exI [of _ "Suc k"]) (auto simp: wal_bytes_def)
  qed
qed

section \<open>Appending\<close>

definition numbered_records :: "u64 \<Rightarrow> wal_entry list \<Rightarrow> wal_record list" where
  "numbered_records seq entries =
     map (\<lambda>(i, e). \<lparr>wr_seq = seq + word_of_nat i, wr_entry = e\<rparr>) (List.enumerate 0 entries)"

lemma numbered_records_Cons [simp]:
  "numbered_records seq (e # es) = \<lparr>wr_seq = seq, wr_entry = e\<rparr> # numbered_records (seq + 1) es"
  by (simp add: numbered_records_def enumerate_Suc_eq [of 0] comp_def case_prod_beta algebra_simps)

lemma numbered_records_Nil [simp]: "numbered_records seq [] = []"
  by (simp add: numbered_records_def)

lemma append_entries_run:
  assumes "\<forall>r \<in> set (numbered_records (wl_next_seq w) entries). record_fits c r"
  shows "append_entries c entries seqs w =
    Some (Inr (seqs @ map wr_seq (numbered_records (wl_next_seq w) entries)),
      \<lparr>wl_file = wl_file w @ wal_bytes c (numbered_records (wl_next_seq w) entries),
       wl_next_seq = wl_next_seq w + word_of_nat (length entries)\<rparr>)"
  using assms
proof (induction entries arbitrary: w seqs)
  case Nil
  then show ?case by (simp add: wal_bytes_def)
next
  case (Cons e entries)
  have "ser c \<lparr>wr_seq = wl_next_seq w, wr_entry = e\<rparr> =
      Inr (encoding c \<lparr>wr_seq = wl_next_seq w, wr_entry = e\<rparr>)"
    using Cons.prems by (intro codec_okD) (simp add: record_fits_def)
  then show ?case
    using Cons by (simp add: wal_bytes_def wal_frame_def add.assoc)
qed

text \<open>The log holds whole records.\<close>

definition wal_ok :: "wal_record codec \<Rightarrow> wal \<Rightarrow> bool" where
  "wal_ok c w \<longleftrightarrow> (\<exists>rs. wl_file w = wal_bytes c rs \<and> (\<forall>r \<in> set rs. record_fits c r))"

lemma append_batch_run:
  assumes "wal_ok c w" "\<forall>r \<in> set (numbered_records (wl_next_seq w) entries). record_fits c r"
  shows "\<exists>w'. append_batch c entries w = Some (Inr (map wr_seq (numbered_records (wl_next_seq w) entries)), w') \<and>
    wal_ok c w' \<and> wl_next_seq w' = wl_next_seq w + word_of_nat (length entries) \<and>
    read_records c (wl_file w') = read_records c (wl_file w) @ numbered_records (wl_next_seq w) entries"
proof -
  obtain rs where rs: "wl_file w = wal_bytes c rs" "\<forall>r \<in> set rs. record_fits c r"
    using assms(1) by (auto simp: wal_ok_def)
  let ?new = "numbered_records (wl_next_seq w) entries"
  have bytes: "wl_file w @ wal_bytes c ?new = wal_bytes c (rs @ ?new)"
    by (simp add: rs(1) wal_bytes_def)
  have "read_records c (wal_bytes c qs) = qs" if "\<forall>r \<in> set qs. record_fits c r" for qs
    using read_wal_bytes [OF that, of "[]"] by simp
  then have "read_records c (wl_file w) = rs" "read_records c (wal_bytes c (rs @ ?new)) = rs @ ?new"
    using rs assms(2) unfolding rs(1) by (simp, metis Un_iff set_append)
  then show ?thesis
    using append_entries_run [OF assms(2), of "[]"] rs(2) assms(2)
    by (auto simp: append_batch_def bytes wal_ok_def intro!: exI [of _ "rs @ ?new"])
qed

lemma numbered_records_nth:
  "i < length es \<Longrightarrow> numbered_records s es ! i = \<lparr>wr_seq = s + word_of_nat i, wr_entry = es ! i\<rparr>"
  by (simp add: numbered_records_def nth_enumerate_eq)

lemma length_numbered_records [simp]: "length (numbered_records s es) = length es"
  by (simp add: numbered_records_def)

lemma numbered_records_seqs:
  "map wr_seq (numbered_records s es) = map (\<lambda>i. s + word_of_nat i) [0..<length es]"
  by (rule nth_equalityI) (simp_all add: numbered_records_nth)

lemma numbered_records_entries: "map wr_entry (numbered_records s es) = es"
  by (rule nth_equalityI) (simp_all add: numbered_records_nth)

section \<open>Properties\<close>

text \<open>
  A batch appended to the log is read back after everything that was in it, entry by entry, with
  consecutive sequence numbers, which are the ones returned; opening the file again, as a restart
  does, finds the same records and goes on after the last number.
\<close>
theorem wal_append_read:
  assumes "wal_ok c w" "\<forall>r \<in> set (numbered_records (wl_next_seq w) entries). record_fits c r"
  shows "\<exists>w'. append_batch c entries w =
      Some (Inr (map (\<lambda>i. wl_next_seq w + word_of_nat i) [0..<length entries]), w') \<and> wal_ok c w' \<and>
    read_all c w' = read_all c w @ entries \<and>
    read_records c (wl_file w') = read_records c (wl_file w) @ numbered_records (wl_next_seq w) entries \<and>
    (entries = [] \<or> wal_open c (wl_file w') = w')"
proof -
  obtain w' where w': "append_batch c entries w = Some (Inr (map wr_seq (numbered_records (wl_next_seq w) entries)), w')"
    "wal_ok c w'" "wl_next_seq w' = wl_next_seq w + word_of_nat (length entries)"
    "read_records c (wl_file w') = read_records c (wl_file w) @ numbered_records (wl_next_seq w) entries"
    using append_batch_run [OF assms] by blast
  have "wal_open c (wl_file w') = w'" if "entries \<noteq> []"
  proof -
    let ?n = "numbered_records (wl_next_seq w) entries"
    let ?rs = "read_records c (wl_file w')"
    have ne: "?n \<noteq> []" using that by (metis length_0_conv length_numbered_records)
    have "last ?n = ?n ! (length entries - 1)" using ne last_conv_nth by fastforce
    then have "wr_seq (last ?n) + 1 = wl_next_seq w'"
      using that w'(3) numbered_records_nth [of "length entries - 1" entries "wl_next_seq w"]
      by (cases entries) (simp_all add: algebra_simps)
    moreover have "?rs \<noteq> []" "last ?rs = last ?n" using ne w'(4) by simp_all
    ultimately show ?thesis by (cases ?rs) (simp_all add: wal_open_def)
  qed
  then show ?thesis
    using w' unfolding numbered_records_seqs
    by (intro exI [of _ w']) (auto simp: read_all_def numbered_records_entries)
qed

text \<open>
  C10: a log cut off at any byte, as a crash during an append leaves it, still yields a prefix of the
  records: every record that is wholly on disk and no part of the one that is cut.
\<close>
theorem wal_crash_prefix:
  assumes "\<forall>r \<in> set rs. record_fits c r"
  shows "\<exists>k \<le> length rs. read_records c (take n (wal_bytes c rs)) = take k rs \<and>
    length (wal_bytes c (take k rs)) \<le> n \<and> (k < length rs \<longrightarrow> n < length (wal_bytes c (take (Suc k) rs)))"
  using assms by (rule read_cut)

text \<open>
  The sequence numbers start again: after the log has been truncated, which every flush does,
  opening it at the next start assigns 0 to the first entry, whatever had been assigned before.
\<close>
theorem wal_numbers_restart:
  "wl_next_seq (wal_open c (wl_file (wal_truncate w))) = 0"
  by (simp add: wal_open_def wal_truncate_def)

text \<open>A codec for one record.\<close>

definition example_record :: wal_record where
  "example_record = \<lparr>wr_seq = 0, wr_entry = Delete 7\<rparr>"

definition example_record_codec :: "wal_record codec" where
  "example_record_codec = \<lparr>ser = (\<lambda>r. Inr [1, 2]), de = (\<lambda>data. Inr example_record)\<rparr>"

lemma example_record_fits: "record_fits example_record_codec example_record"
  by (simp add: record_fits_def codec_ok_def encoding_def example_record_codec_def)

theorem wal_append_read_witness:
  "\<exists>w'. append_batch example_record_codec [Delete 7] \<lparr>wl_file = [], wl_next_seq = 0\<rparr> = Some (Inr [0], w') \<and>
    read_all example_record_codec w' = [Delete 7]"
proof -
  have "wal_ok example_record_codec \<lparr>wl_file = [], wl_next_seq = 0\<rparr>"
    by (auto simp: wal_ok_def wal_bytes_def intro!: exI [of _ "[]"])
  moreover have "\<forall>r \<in> set (numbered_records (wl_next_seq \<lparr>wl_file = [], wl_next_seq = 0\<rparr>) [Delete 7]).
      record_fits example_record_codec r"
    using example_record_fits by (simp add: example_record_def)
  ultimately show ?thesis
    using wal_append_read [of example_record_codec "\<lparr>wl_file = [], wl_next_seq = 0\<rparr>" "[Delete 7]"]
    by (auto simp: read_all_def)
qed

theorem wal_crash_prefix_witness:
  "\<exists>k \<le> length [example_record, example_record]. read_records example_record_codec
      (take 9 (wal_bytes example_record_codec [example_record, example_record])) =
    take k [example_record, example_record]"
  using wal_crash_prefix [of "[example_record, example_record]" example_record_codec 9] example_record_fits
  by (simp del: length_Cons list.size) blast

end
