(* ===== verification/Proto.thy ===== *)
theory Proto
  imports CoreTypes
begin

text \<open>
  The messages of \<open>src/proto/shard.proto\<close> and the conversions between them and the types of
  \<open>search-core\<close> that the shard's gRPC server and its replication do
  (\<open>crates/shard/src/grpc_server.rs\<close>, \<open>replication.rs\<close>).
\<close>

section \<open>Messages\<close>

record document_proto =
  dp_id :: u64
  dp_title :: string
  dp_description :: string
  dp_price :: f64
  dp_category :: string
  dp_attributes :: "string \<rightharpoonup> string"

datatype replicate_operation = IndexDoc document_proto | DeleteDocId u64 | FlushOp bool

record replicate_request =
  rq_operation :: "replicate_operation option"
  rq_wal_seq :: u64

datatype filter_proto = EqFilter string | RangeFilter "f64 option" "f64 option" | MultiFilter "string list"

record sort_proto =
  sp_field :: string
  sp_order :: u32

definition PROTO_ASC :: u32 where
  "PROTO_ASC = 1"

record search_request_proto =
  qp_query :: string
  qp_filters :: "(string \<times> filter_proto option) list"
  qp_aggregations :: "string list"
  qp_sort :: "sort_proto option"
  qp_offset :: u64
  qp_limit :: u64
  qp_typo_tolerance :: bool
  qp_language :: "string option"

record scored_document =
  sdoc_id :: u64
  sdoc_score :: f32

record search_response_proto =
  rp_hits :: "scored_document list"
  rp_total_hits :: u64
  rp_aggregations :: "(string \<times> aggregation_bucket list) list"
  rp_retrieval_mode :: string

section \<open>Conversions\<close>

definition doc_to_proto :: "document \<Rightarrow> document_proto" where
  "doc_to_proto doc =
     \<lparr>dp_id = d_id doc, dp_title = d_title doc, dp_description = d_description doc,
      dp_price = d_price doc, dp_category = d_category doc,
      dp_attributes = (\<lambda>k. case d_attributes doc k of Some (VString s) \<Rightarrow> Some s | _ \<Rightarrow> None)\<rparr>"

definition proto_to_doc :: "document_proto \<Rightarrow> document" where
  "proto_to_doc p =
     \<lparr>d_id = dp_id p, d_title = dp_title p, d_description = dp_description p,
      d_price = dp_price p, d_category = dp_category p,
      d_attributes = map_option VString \<circ> dp_attributes p\<rparr>"

definition proto_to_search_request :: "search_request_proto \<Rightarrow> search_request" where
  "proto_to_search_request p =
     \<lparr>q_query = qp_query p,
      q_filters = List.map_filter (\<lambda>(field, fv). case fv of None \<Rightarrow> None
        | Some (EqFilter v) \<Rightarrow> Some (field, Equality v)
        | Some (RangeFilter gte lte) \<Rightarrow> Some (field, Range gte lte)
        | Some (MultiFilter vals) \<Rightarrow> Some (field, MultiValue vals)) (qp_filters p),
      q_aggregations = qp_aggregations p,
      q_sort = map_option (\<lambda>s. \<lparr>sort_field = sp_field s,
        sort_order = (if sp_order s = PROTO_ASC then Asc else Desc)\<rparr>) (qp_sort p),
      q_offset = unat (qp_offset p), q_limit = unat (qp_limit p),
      q_typo_tolerance = qp_typo_tolerance p, q_language = qp_language p,
      q_destination_zone = None, q_include_docs = True\<rparr>"

definition mode_name :: "retrieval_mode \<Rightarrow> string" where
  "mode_name m = (case m of AndMode \<Rightarrow> ''and'' | OrFallback \<Rightarrow> ''or_fallback'')"

definition response_to_proto :: "search_response \<Rightarrow> search_response_proto" where
  "response_to_proto resp =
     \<lparr>rp_hits = map (\<lambda>h. \<lparr>sdoc_id = hit_id h, sdoc_score = hit_score h\<rparr>) (r_hits resp),
      rp_total_hits = r_total_hits resp, rp_aggregations = r_aggregations resp,
      rp_retrieval_mode = mode_name (r_retrieval_mode resp)\<rparr>"

section \<open>Properties\<close>

definition string_attributes :: "document \<Rightarrow> bool" where
  "string_attributes doc \<longleftrightarrow> (\<forall>v \<in> ran (d_attributes doc). \<exists>s. v = VString s)"

text \<open>
  A document sent over the wire comes back with its id, texts, price and category and with its
  string attributes; attributes of other types are lost, so the document comes back unchanged exactly
  when all its attributes are strings.
\<close>
theorem document_proto_roundtrip:
  "proto_to_doc (doc_to_proto doc) =
     doc\<lparr>d_attributes := (\<lambda>k. case d_attributes doc k of Some (VString s) \<Rightarrow> Some (VString s) | _ \<Rightarrow> None)\<rparr> \<and>
   (proto_to_doc (doc_to_proto doc) = doc \<longleftrightarrow> string_attributes doc) \<and>
   doc_to_proto (proto_to_doc p) = p"
proof -
  have a: "(case x of Some (VString s) \<Rightarrow> Some (VString s) | _ \<Rightarrow> None) = x \<longleftrightarrow> (\<forall>v. x = Some v \<longrightarrow> (\<exists>s. v = VString s))" for x
    by (auto split: option.split attr_value.split)
  have "proto_to_doc (doc_to_proto doc) =
     doc\<lparr>d_attributes := (\<lambda>k. case d_attributes doc k of Some (VString s) \<Rightarrow> Some (VString s) | _ \<Rightarrow> None)\<rparr>"
    by (cases doc) (auto simp: proto_to_doc_def doc_to_proto_def fun_eq_iff split: option.split attr_value.split)
  moreover have "doc\<lparr>d_attributes := f\<rparr> = doc \<longleftrightarrow> f = d_attributes doc" for f
    by (cases doc) auto
  ultimately show ?thesis
    by (auto simp: fun_eq_iff a string_attributes_def ran_def)
      (cases p, simp add: proto_to_doc_def doc_to_proto_def fun_eq_iff split: option.split)
qed

end
