(* ===== verification/Replication.thy ===== *)
theory Replication
  imports Wal Proto "HOL-Library.Sublist"
begin

text \<open>
  \<open>crates/shard/src/replication.rs\<close>: forwarding write-ahead log entries to replicas.  Each replica has
  an unbounded channel and a background task that connects, retrying with a growing delay, and sends
  the entries one by one; the task is a step function over what the network answers.
\<close>

record replica_entry =
  re_seq :: u64
  re_entry :: wal_entry

definition entry_to_proto :: "replica_entry \<Rightarrow> replicate_request" where
  "entry_to_proto e =
     \<lparr>rq_operation = Some (case re_entry e of Index doc \<Rightarrow> IndexDoc (doc_to_proto doc)
        | Delete i \<Rightarrow> DeleteDocId i),
      rq_wal_seq = re_seq e\<rparr>"

section \<open>The manager\<close>

text \<open>One queue per replica: what has been enqueued and not yet taken out.\<close>

type_synonym senders = "replica_entry list list"

definition enqueue :: "u64 \<Rightarrow> wal_entry \<Rightarrow> senders \<Rightarrow> senders" where
  "enqueue seq entry senders =
     map (\<lambda>queue. queue @ [\<lparr>re_seq = seq, re_entry = entry\<rparr>]) senders"

definition replica_count :: "senders \<Rightarrow> nat" where
  "replica_count senders = length senders"

section \<open>The task of one replica\<close>

record replica_task =
  rt_backoff_ms :: u64
  rt_connected :: bool
  rt_queue :: "replica_entry list"
  rt_delivered :: "replicate_request list"

text \<open>What happens: a connection attempt succeeds or fails, a call succeeds or fails, the shard puts
  an entry into the channel.\<close>

datatype replica_event = ConnectOk | ConnectErr | ReplicateOk | ReplicateErr | Enqueued replica_entry

definition task_start :: replica_task where
  "task_start = \<lparr>rt_backoff_ms = 100, rt_connected = False, rt_queue = [], rt_delivered = []\<rparr>"

fun task_step :: "replica_event \<Rightarrow> replica_task \<Rightarrow> replica_task" where
  "task_step ConnectOk t =
     (if rt_connected t then t else t\<lparr>rt_backoff_ms := 100, rt_connected := True\<rparr>)"
| "task_step ConnectErr t =
     (if rt_connected t then t else t\<lparr>rt_backoff_ms := min (rt_backoff_ms t * 2) 10000\<rparr>)"
| "task_step ReplicateOk t =
     (if rt_connected t then
        (case rt_queue t of [] \<Rightarrow> t
         | e # q \<Rightarrow> t\<lparr>rt_queue := q, rt_delivered := rt_delivered t @ [entry_to_proto e]\<rparr>)
      else t)"
| "task_step ReplicateErr t =
     (if rt_connected t then
        (case rt_queue t of [] \<Rightarrow> t | e # q \<Rightarrow> t\<lparr>rt_queue := q, rt_connected := False\<rparr>)
      else t)"
| "task_step (Enqueued e) t = t\<lparr>rt_queue := rt_queue t @ [e]\<rparr>"

definition enqueued :: "replica_event list \<Rightarrow> replica_entry list" where
  "enqueued events = List.map_filter (\<lambda>ev. case ev of Enqueued e \<Rightarrow> Some e | _ \<Rightarrow> None) events"

definition failures :: "replica_event list \<Rightarrow> nat" where
  "failures events = length (filter (\<lambda>ev. ev = ReplicateErr) events)"

text \<open>The reachable states with their history.\<close>

inductive task_run :: "replica_event list \<Rightarrow> replica_task \<Rightarrow> bool" where
  start: "task_run [] task_start"
| step: "task_run events t \<Longrightarrow> task_run (events @ [ev]) (task_step ev t)"

lemma task_run_foldl: "task_run events (foldl (\<lambda>t ev. task_step ev t) task_start events)"
  by (induction events rule: rev_induct) (auto intro: task_run.intros)

lemma task_run_unique: "task_run events t \<Longrightarrow> t = foldl (\<lambda>t ev. task_step ev t) task_start events"
  by (induction rule: task_run.induct) simp_all

text \<open>Of the entries taken from the queue, those delivered are a subsequence; the rest were lost one
  by one.\<close>

definition task_inv :: "replica_event list \<Rightarrow> replica_task \<Rightarrow> bool" where
  "task_inv events t \<longleftrightarrow>
     100 \<le> rt_backoff_ms t \<and> rt_backoff_ms t \<le> 10000 \<and>
     (\<exists>taken sent. enqueued events = taken @ rt_queue t \<and> subseq sent taken \<and>
        rt_delivered t = map entry_to_proto sent \<and> length taken \<le> length sent + failures events)"

lemma enqueued_snoc [simp]:
  "enqueued (events @ [ev]) = enqueued events @ (case ev of Enqueued e \<Rightarrow> [e] | _ \<Rightarrow> [])"
  by (cases ev) (simp_all add: enqueued_def List.map_filter_def)

lemma failures_snoc [simp]: "failures (events @ [ev]) = failures events + (if ev = ReplicateErr then 1 else 0)"
  by (simp add: failures_def)

lemma backoff_step:
  "100 \<le> (b :: u64) \<Longrightarrow> b \<le> 10000 \<Longrightarrow> 100 \<le> min (b * 2) 10000 \<and> min (b * 2) 10000 \<le> 10000"
  by (simp add: word_le_nat_alt min_def unat_word_ariths)

lemma task_run_inv: "task_run events t \<Longrightarrow> task_inv events t"
proof (induction rule: task_run.induct)
  case start
  show ?case by (simp add: task_inv_def task_start_def enqueued_def List.map_filter_def)
next
  case (step events t ev)
  then obtain taken sent where inv: "100 \<le> rt_backoff_ms t" "rt_backoff_ms t \<le> 10000"
    "enqueued events = taken @ rt_queue t" "subseq sent taken"
    "rt_delivered t = map entry_to_proto sent" "length taken \<le> length sent + failures events"
    unfolding task_inv_def by blast
  consider (same) "enqueued (events @ [ev]) = taken @ rt_queue (task_step ev t)"
      "rt_delivered (task_step ev t) = rt_delivered t" "failures events \<le> failures (events @ [ev])"
    | (sent) e q where "rt_queue t = e # q" "ev = ReplicateOk" "rt_connected t"
    | (lost) e q where "rt_queue t = e # q" "ev = ReplicateErr" "rt_connected t"
    using inv(3) by (cases ev; cases "rt_connected t"; cases "rt_queue t") auto
  then show ?case
  proof cases
    case same
    have "100 \<le> rt_backoff_ms (task_step ev t) \<and> rt_backoff_ms (task_step ev t) \<le> 10000"
      using inv(1,2) backoff_step by (cases ev) (auto split: list.split)
    then show ?thesis
      using same inv unfolding task_inv_def by (intro conjI exI [of _ taken] exI [of _ sent]) auto
  next
    case (sent e q)
    then show ?thesis
      using inv unfolding task_inv_def
      by (intro conjI exI [of _ "taken @ [e]"] exI [of _ "sent @ [e]"]) (auto intro: list_emb_append_mono)
  next
    case (lost e q)
    then show ?thesis
      using inv unfolding task_inv_def
      by (intro conjI exI [of _ "taken @ [e]"] exI [of _ "sent"]) (auto intro: subseq_rev_drop_many)
  qed
qed

section \<open>Properties\<close>



end
