(* ===== verification/Shard.thy ===== *)
theory Shard
  imports Config WriteBuffer SegmentList Replication
begin

text \<open>
  \<open>crates/shard/src/shard.rs\<close>: a shard.  The state is the log, the write buffer, the segments and the
  channels to the replicas; \<open>wl_file\<close> of the log and \<open>sl_disk\<close> of the segments are what is on disk.
  A method is run without interruption by another one, except where a lemma takes it apart.

  The record \<open>shard_env\<close> holds what does not change: the libraries, the schema, the configuration.
\<close>

section \<open>State\<close>

record shard_env =
  sv_query :: query_env
  sv_wal :: "wal_record codec"
  sv_schema :: index_schema
  sv_config :: shard_config

record shard =
  sh_wal :: wal
  sh_buffer :: write_buffer
  sh_segments :: segment_list
  sh_replication :: "senders option"

abbreviation sv_index :: "shard_env \<Rightarrow> index_env" where
  "sv_index sv \<equiv> qe_index (sv_query sv)"

abbreviation on_wal :: "(wal, 'a) op \<Rightarrow> (shard, 'a) op" where
  "on_wal \<equiv> op_zoom sh_wal sh_wal_update"

abbreviation on_buffer :: "(write_buffer, 'a) op \<Rightarrow> (shard, 'a) op" where
  "on_buffer \<equiv> op_zoom sh_buffer sh_buffer_update"

abbreviation on_segments :: "(segment_list, 'a) op \<Rightarrow> (shard, 'a) op" where
  "on_segments \<equiv> op_zoom sh_segments sh_segments_update"

definition op_state :: "('s \<Rightarrow> 'a \<times> 's) \<Rightarrow> ('s, 'a) op" where
  "op_state f s = (case f s of (x, s') \<Rightarrow> Some (Inr x, s'))"

record shard_stats =
  ss_doc_count :: u64
  ss_segment_count :: u32
  ss_buffer_doc_count :: nat
  ss_buffer_size_bytes :: nat
  ss_stats_shard_id :: u32

section \<open>Merging\<close>

definition run_merge :: "index_env \<Rightarrow> index_schema \<Rightarrow> string list \<Rightarrow> (segment_list, unit) op" where
  "run_merge env schema segment_ids =
     op_bind (op_state next_segment_id) (\<lambda>new_seg_id.
     op_bind (op_get (\<lambda>sl. filter (\<lambda>e. se_id e \<in> set segment_ids) (sl_segments sl))) (\<lambda>sources.
     op_bind (execute_merge env schema sources new_seg_id) (\<lambda>new_entry.
     op_bind (op_modify (replace_segments env segment_ids new_entry)) (\<lambda>_.
     op_modify (\<lambda>sl. sl\<lparr>sl_disk := sl_disk sl |` (- set segment_ids)\<rparr>)))))"

definition maybe_merge :: "index_env \<Rightarrow> index_schema \<Rightarrow> (segment_list, unit) op" where
  "maybe_merge env schema =
     op_bind (op_get (\<lambda>sl. find_merges default_merge_policy (sl_segments sl))) (\<lambda>merge_groups.
     op_each (run_merge env schema) merge_groups)"

section \<open>Writing\<close>

definition flush :: "shard_env \<Rightarrow> (shard, unit) op" where
  "flush sv =
     op_bind (on_buffer (op_state wb_drain)) (\<lambda>(docs, deleted_ids).
     if docs = [] then op_return ()
     else
       op_bind (on_segments (op_state next_segment_id)) (\<lambda>seg_id.
       op_bind (on_segments (write_segment (sv_index sv) (sv_schema sv) seg_id docs)) (\<lambda>entry.
       op_bind (on_segments (op_modify (add_segment (sv_index sv) entry))) (\<lambda>_.
       op_bind (on_wal (op_modify wal_truncate)) (\<lambda>_.
       on_segments (maybe_merge (sv_index sv) (sv_schema sv)))))))"

definition replicate_entry :: "u64 \<Rightarrow> wal_entry \<Rightarrow> (shard, unit) op" where
  "replicate_entry seq entry =
     op_modify (\<lambda>sh. sh\<lparr>sh_replication := map_option (enqueue seq entry) (sh_replication sh)\<rparr>)"

definition flush_if :: "shard_env \<Rightarrow> bool \<Rightarrow> (shard, unit) op" where
  "flush_if sv full = (if full then flush sv else op_return ())"

definition shard_index :: "shard_env \<Rightarrow> document \<Rightarrow> (shard, unit) op" where
  "shard_index sv doc =
     op_bind (on_wal (wal_append (sv_wal sv) (Index doc))) (\<lambda>seq.
     op_bind (replicate_entry seq (Index doc)) (\<lambda>_.
     op_bind (on_buffer (op_state (wb_add doc))) (flush_if sv)))"

fun add_all :: "document list \<Rightarrow> bool \<Rightarrow> write_buffer \<Rightarrow> bool \<times> write_buffer" where
  "add_all [] needs_flush b = (needs_flush, b)"
| "add_all (doc # docs) needs_flush b =
     (let (full, b) = wb_add doc b in add_all docs (needs_flush \<or> full) b)"

definition shard_index_batch :: "shard_env \<Rightarrow> document list \<Rightarrow> (shard, unit) op" where
  "shard_index_batch sv docs =
     op_bind (on_wal (append_batch (sv_wal sv) (map Index docs))) (\<lambda>seqs.
     op_bind (op_each (\<lambda>(entry, seq). replicate_entry seq entry) (zip (map Index docs) seqs)) (\<lambda>_.
     op_bind (on_buffer (op_state (add_all docs False))) (flush_if sv)))"

definition shard_delete :: "shard_env \<Rightarrow> u64 \<Rightarrow> (shard, unit) op" where
  "shard_delete sv doc_id =
     op_bind (on_wal (wal_append (sv_wal sv) (Delete doc_id))) (\<lambda>seq.
     op_bind (replicate_entry seq (Delete doc_id)) (\<lambda>_.
     op_bind (on_buffer (op_modify (wb_mark_deleted doc_id))) (\<lambda>_.
     op_bind (on_segments (sl_mark_deleted (sv_index sv) doc_id)) (\<lambda>_. op_return ()))))"

definition apply_replicated :: "shard_env \<Rightarrow> wal_entry \<Rightarrow> (shard, unit) op" where
  "apply_replicated sv entry =
     (case entry of
        Index doc \<Rightarrow> op_bind (on_buffer (op_state (wb_add doc))) (flush_if sv)
      | Delete doc_id \<Rightarrow>
          op_bind (on_buffer (op_modify (wb_mark_deleted doc_id))) (\<lambda>_.
          op_bind (on_segments (sl_mark_deleted (sv_index sv) doc_id)) (\<lambda>_. op_return ())))"

section \<open>Reading\<close>

definition shard_search :: "shard_env \<Rightarrow> search_request \<Rightarrow> (shard, search_response) op" where
  "shard_search sv request =
     op_bind (op_get (\<lambda>sh. readers (sh_segments sh))) (\<lambda>segs.
     op_bind (on_buffer (reader_and_stats (sv_index sv) (sv_schema sv))) (\<lambda>buf_reader.
     op_option (multi_search (sv_query sv) (sv_schema sv)
       (segs @ (case buf_reader of None \<Rightarrow> [] | Some rs \<Rightarrow> [rs])) request)))"

definition shard_get_docs :: "shard_env \<Rightarrow> u64 list \<Rightarrow> shard \<Rightarrow> document list" where
  "shard_get_docs sv doc_ids sh =
     List.map_filter (\<lambda>i. case sl_get_doc (sv_index sv) (sh_segments sh) i of
         Some doc \<Rightarrow> Some doc
       | None \<Rightarrow> List.find (\<lambda>d. d_id d = i) (wb_docs (sh_buffer sh))) doc_ids"

definition shard_stats_of :: "shard_env \<Rightarrow> shard \<Rightarrow> shard_stats" where
  "shard_stats_of sv sh =
     \<lparr>ss_doc_count = total_live_docs (sh_segments sh) + word_of_nat (wb_doc_count (sh_buffer sh)),
      ss_segment_count = word_of_nat (segment_count (sh_segments sh)),
      ss_buffer_doc_count = wb_doc_count (sh_buffer sh),
      ss_buffer_size_bytes = wb_size_bytes (sh_buffer sh),
      ss_stats_shard_id = sc_shard_id (sv_config sv)\<rparr>"

definition live_docs_of :: "index_env \<Rightarrow> segment_entry list \<Rightarrow> document list" where
  "live_docs_of env segments =
     concat (map (\<lambda>e. List.map_filter (doc_at env (se_reader e))
       (sorted_list_of_set (all_live_docs (se_reader e)))) segments)"

definition get_all_live_docs :: "shard_env \<Rightarrow> shard \<Rightarrow> document list" where
  "get_all_live_docs sv sh =
     live_docs_of (sv_index sv) (sl_segments (sh_segments sh)) @ wb_all_docs (sh_buffer sh)"

definition wal_records_since :: "shard_env \<Rightarrow> u64 \<Rightarrow> shard \<Rightarrow> wal_record list" where
  "wal_records_since sv from_seq sh = read_since (sv_wal sv) from_seq (sh_wal sh)"

definition is_replica :: "shard_env \<Rightarrow> bool" where
  "is_replica sv \<longleftrightarrow> sc_role (sv_config sv) = Replica"

section \<open>Reindexing\<close>

text \<open>The number of documents is returned.\<close>

definition reindex_self :: "shard_env \<Rightarrow> (shard, u64) op" where
  "reindex_self sv =
     op_bind (flush sv) (\<lambda>_.
     op_bind (op_get (\<lambda>sh. live_docs_of (sv_index sv) (sl_segments (sh_segments sh)))) (\<lambda>docs.
     if docs = [] then op_return 0
     else
       op_bind (on_segments (op_state next_segment_id)) (\<lambda>new_seg_id.
       op_bind (on_segments (write_segment (sv_index sv) (sv_schema sv) new_seg_id docs)) (\<lambda>new_entry.
       op_bind (op_get (\<lambda>sh. map se_id (sl_segments (sh_segments sh)))) (\<lambda>old_ids.
       op_bind (on_segments (op_modify (replace_segments (sv_index sv) old_ids new_entry))) (\<lambda>_.
       op_bind (on_segments (op_modify (\<lambda>sl. sl\<lparr>sl_disk := sl_disk sl |` (- set old_ids)\<rparr>))) (\<lambda>_.
       op_bind (on_wal (op_modify wal_truncate)) (\<lambda>_.
       op_return (word_of_nat (length docs))))))))))"

section \<open>Catching up and opening\<close>

text \<open>What the primary answers a replica that catches up; \<open>Inl\<close> is a failed connection or call, or
  an error in the stream.\<close>

record primary =
  pr_connect :: "string + unit"
  pr_catch_up :: "u64 \<Rightarrow> string + (string + replicate_request) list"
  pr_full_sync :: "string + (string + document_proto) list"

definition grpc :: "string + 'a \<Rightarrow> ('s, 'a) op" where
  "grpc r = op_result (case r of Inl msg \<Rightarrow> Inl (Grpc msg) | Inr x \<Rightarrow> Inr x)"

fun catch_up_stream :: "shard_env \<Rightarrow> (string + replicate_request) list \<Rightarrow> u64 \<Rightarrow> (shard, u64) op" where
  "catch_up_stream sv [] wal_count = op_return wal_count"
| "catch_up_stream sv (req # reqs) wal_count =
     op_bind (grpc req) (\<lambda>req.
     case rq_operation req of
       Some (IndexDoc doc) \<Rightarrow>
         op_bind (apply_replicated sv (Index (proto_to_doc doc))) (\<lambda>_. catch_up_stream sv reqs (wal_count + 1))
     | Some (DeleteDocId i) \<Rightarrow>
         op_bind (apply_replicated sv (Delete i)) (\<lambda>_. catch_up_stream sv reqs (wal_count + 1))
     | Some (FlushOp b) \<Rightarrow> op_bind (flush sv) (\<lambda>_. catch_up_stream sv reqs wal_count)
     | None \<Rightarrow> catch_up_stream sv reqs wal_count)"

fun full_sync_stream :: "shard_env \<Rightarrow> (string + document_proto) list \<Rightarrow> (shard, unit) op" where
  "full_sync_stream sv [] = op_return ()"
| "full_sync_stream sv (p # ps) =
     op_bind (grpc p) (\<lambda>p.
     op_bind (apply_replicated sv (Index (proto_to_doc p))) (\<lambda>_. full_sync_stream sv ps))"

definition catch_up_from_primary :: "shard_env \<Rightarrow> primary \<Rightarrow> (shard, unit) op" where
  "catch_up_from_primary sv pr =
     op_bind (op_get (\<lambda>sh. wl_next_seq (sh_wal sh))) (\<lambda>from_seq.
     op_bind (grpc (pr_connect pr)) (\<lambda>_.
     op_bind (grpc (pr_catch_up pr from_seq)) (\<lambda>stream.
     op_bind (catch_up_stream sv stream 0) (\<lambda>wal_count.
     op_bind (op_get (\<lambda>sh. \<exists>e \<in> set (sl_segments (sh_segments sh)). all_live_docs (se_reader e) \<noteq> {}))
       (\<lambda>replica_has_data.
     if wal_count = 0 \<and> \<not> replica_has_data then
       op_bind (grpc (pr_full_sync pr)) (\<lambda>sync_stream.
       op_bind (full_sync_stream sv sync_stream) (\<lambda>_. flush sv))
     else op_return ())))))"

text \<open>Replaying the log into the buffer and the segments; a failing deletion is ignored.\<close>

fun replay :: "index_env \<Rightarrow> wal_entry list \<Rightarrow> write_buffer \<times> segment_list \<Rightarrow>
    (write_buffer \<times> segment_list) option" where
  "replay env [] acc = Some acc"
| "replay env (Index doc # entries) (b, sl) = replay env entries (snd (wb_add doc b), sl)"
| "replay env (Delete doc_id # entries) (b, sl) =
     (case sl_mark_deleted env doc_id sl of None \<Rightarrow> None
      | Some (r, sl) \<Rightarrow> replay env entries (wb_mark_deleted doc_id b, sl))"

text \<open>The primary is the one at the configured endpoint, if any; its failure is only logged.\<close>

definition shard_open ::
  "shard_env \<Rightarrow> (string \<Rightarrow> primary) \<Rightarrow> bytes \<Rightarrow> (string \<rightharpoonup> dir) \<Rightarrow> shard option" where
  "shard_open sv connect wal_file segments_dir =
     (let wal = wal_open (sv_wal sv) wal_file; config = sv_config sv
      in case sl_open (sv_index sv) (sv_schema sv) segments_dir of None \<Rightarrow> None
      | Some segments \<Rightarrow>
        (case replay (sv_index sv) (read_all (sv_wal sv) wal)
                (wb_new (sc_write_buffer_size config), segments) of None \<Rightarrow> None
         | Some (buffer, segments) \<Rightarrow>
             let replication = (if sc_role config = Primary \<and> sc_replica_endpoints config \<noteq> []
                   then Some (map (\<lambda>e. []) (sc_replica_endpoints config)) else None);
                 engine = \<lparr>sh_wal = wal, sh_buffer = buffer, sh_segments = segments,
                   sh_replication = replication\<rparr>
             in if sc_role config = Replica then
                  (case sc_primary_endpoint config of None \<Rightarrow> Some engine
                   | Some endpoint \<Rightarrow> map_option snd (catch_up_from_primary sv (connect endpoint) engine))
                else Some engine))"

end
