(* ===== verification/ShardGrpc.thy ===== *)
theory ShardGrpc
  imports Shard
begin

text \<open>
  \<open>crates/shard/src/grpc_server.rs\<close>: the gRPC service of a shard.  A handler answers with a message
  or with a status; a stream is the list of its messages, all of which the receiver takes.
\<close>

section \<open>Handlers\<close>

datatype status_code = InternalStatus | InvalidArgument | FailedPrecondition | Unimplemented

record grpc_status =
  st_code :: status_code
  st_message :: string

type_synonym ('s, 'a) handler = "'s \<Rightarrow> ((grpc_status + 'a) \<times> 's) option"

definition internal :: "error \<Rightarrow> grpc_status" where
  "internal e = \<lparr>st_code = InternalStatus, st_message = error_display e\<rparr>"

text \<open>A method whose error becomes an internal status, and what to answer otherwise.\<close>

definition answer :: "('s, 'a) op \<Rightarrow> ('a \<Rightarrow> 'b) \<Rightarrow> ('s, 'b) handler" where
  "answer m f s =
     map_option (\<lambda>(r, s'). (case r of Inl e \<Rightarrow> Inl (internal e) | Inr x \<Rightarrow> Inr (f x), s')) (m s)"

definition refuse :: "status_code \<Rightarrow> string \<Rightarrow> ('s, 'a) handler" where
  "refuse code msg s = Some (Inl \<lparr>st_code = code, st_message = msg\<rparr>, s)"

record stats_response =
  sr_doc_count :: u64
  sr_segment_count :: u32
  sr_index_size_bytes :: u64
  sr_shard_id :: u32

record health_response =
  hr_healthy :: bool
  hr_status :: string

definition grpc_search ::
  "shard_env \<Rightarrow> search_request_proto \<Rightarrow> (shard, search_response_proto) handler" where
  "grpc_search sv p = answer (shard_search sv (proto_to_search_request p)) response_to_proto"

definition grpc_get_docs :: "shard_env \<Rightarrow> u64 list \<Rightarrow> (shard, document_proto list) handler" where
  "grpc_get_docs sv doc_ids = answer (op_get (shard_get_docs sv doc_ids)) (map doc_to_proto)"

definition grpc_index :: "shard_env \<Rightarrow> document_proto option \<Rightarrow> (shard, bool) handler" where
  "grpc_index sv document =
     (case document of
        None \<Rightarrow> refuse InvalidArgument ''missing document''
      | Some p \<Rightarrow> answer (shard_index sv (proto_to_doc p)) (\<lambda>_. True))"

definition grpc_bulk_index :: "shard_env \<Rightarrow> document_proto list \<Rightarrow> (shard, u32) handler" where
  "grpc_bulk_index sv documents =
     answer (shard_index_batch sv (map proto_to_doc documents)) (\<lambda>_. word_of_nat (length documents))"

definition grpc_delete :: "shard_env \<Rightarrow> u64 \<Rightarrow> (shard, bool) handler" where
  "grpc_delete sv doc_id = answer (shard_delete sv doc_id) (\<lambda>_. True)"

definition grpc_stats :: "shard_env \<Rightarrow> (shard, stats_response) handler" where
  "grpc_stats sv = answer (op_get (shard_stats_of sv)) (\<lambda>s.
     \<lparr>sr_doc_count = ss_doc_count s, sr_segment_count = ss_segment_count s, sr_index_size_bytes = 0,
      sr_shard_id = ss_stats_shard_id s\<rparr>)"

definition grpc_health :: "(shard, health_response) handler" where
  "grpc_health = answer (op_return ()) (\<lambda>_. \<lparr>hr_healthy = True, hr_status = ''ok''\<rparr>)"

definition saturating_sub :: "u32 \<Rightarrow> u32 \<Rightarrow> u32" where
  "saturating_sub a b = (if a < b then 0 else a - b)"

definition grpc_flush :: "shard_env \<Rightarrow> (shard, u32) handler" where
  "grpc_flush sv = answer
     (op_bind (op_get (\<lambda>sh. ss_segment_count (shard_stats_of sv sh))) (\<lambda>before.
      op_bind (flush sv) (\<lambda>_.
      op_get (\<lambda>sh. saturating_sub (ss_segment_count (shard_stats_of sv sh)) before)))) (\<lambda>n. n)"

text \<open>The shard and the number of documents.\<close>

definition grpc_reindex :: "shard_env \<Rightarrow> (shard, u32 \<times> u64) handler" where
  "grpc_reindex sv = answer (reindex_self sv) (Pair (sc_shard_id (sv_config sv)))"

definition grpc_replicate :: "shard_env \<Rightarrow> replicate_request \<Rightarrow> (shard, bool) handler" where
  "grpc_replicate sv req =
     (if \<not> is_replica sv then refuse FailedPrecondition ''replicate called on a primary shard''
      else case rq_operation req of
          Some (IndexDoc doc) \<Rightarrow> answer (apply_replicated sv (Index (proto_to_doc doc))) (\<lambda>_. True)
        | Some (DeleteDocId i) \<Rightarrow> answer (apply_replicated sv (Delete i)) (\<lambda>_. True)
        | Some (FlushOp b) \<Rightarrow> answer (flush sv) (\<lambda>_. True)
        | None \<Rightarrow> answer (op_return ()) (\<lambda>_. True))"

definition grpc_catch_up :: "shard_env \<Rightarrow> u64 \<Rightarrow> (shard, replicate_request list) handler" where
  "grpc_catch_up sv from_seq = answer (op_get (wal_records_since sv from_seq)) (map (\<lambda>record.
     \<lparr>rq_operation = Some (case wr_entry record of
          Index doc \<Rightarrow> IndexDoc (doc_to_proto doc) | Delete i \<Rightarrow> DeleteDocId i),
      rq_wal_seq = wr_seq record\<rparr>))"

definition grpc_full_sync :: "shard_env \<Rightarrow> (shard, document_proto list) handler" where
  "grpc_full_sync sv = answer (op_get (get_all_live_docs sv)) (map doc_to_proto)"

definition grpc_suggest :: "(shard, 'a) handler" where
  "grpc_suggest = refuse Unimplemented ''search shard does not implement Suggest''"

end
