(* ===== verification/Recovery.thy ===== *)
theory Recovery
  imports Shard "HOL-Library.Multiset"
begin

text \<open>
  No document is lost: the invariant that relates what a shard holds to the entries it has accepted,
  through writing, flushing, merging, deleting, reindexing and restarting.
\<close>

section \<open>Segments and their directories\<close>

definition seg_name :: "nat \<Rightarrow> string" where
  "seg_name k = ''seg-'' @ show_padded 6 k"

lemma seg_name_inj [simp]: "seg_name j = seg_name k \<longleftrightarrow> j = k"
  by (simp add: seg_name_def show_padded_inj)

lemma segment_seq_name: "k < 2 ^ 64 \<Longrightarrow> segment_seq (seg_name k) = Some (word_of_nat k)"
  by (simp add: segment_seq_def seg_name_def parse_uint_show_padded)

text \<open>A directory with a segment; the bitmap hides only documents with ids in \<open>gone\<close>.\<close>

definition dir_holds :: "index_env \<Rightarrow> index_schema \<Rightarrow> u64 set \<Rightarrow> string \<Rightarrow> document list \<Rightarrow> bitmap \<Rightarrow> dir \<Rightarrow> bool" where
  "dir_holds env schema gone sid docs deleted d \<longleftrightarrow>
     segment_fits env schema sid docs \<and> segment_files env schema sid docs d \<and>
     load_deletion_bitmap (ie_bitmap env) d = Inr deleted \<and>
     (\<forall>i < length docs. word_of_nat i \<in> deleted \<longrightarrow> d_id (docs ! i) \<in> gone)"

definition seg_stored :: "index_env \<Rightarrow> index_schema \<Rightarrow> u64 set \<Rightarrow> (string \<rightharpoonup> dir) \<Rightarrow> segment_entry \<Rightarrow> bool" where
  "seg_stored env schema gone disk e \<longleftrightarrow>
     (\<exists>docs deleted deleted' d. disk (se_id e) = Some d \<and>
        dir_holds env schema gone (se_id e) docs deleted' d \<and> deleted \<subseteq> deleted' \<and>
        se_dir e = se_id e \<and> se_reader e = segment_of env schema (se_id e) docs (se_id e) deleted)"

definition segs_ok :: "index_env \<Rightarrow> index_schema \<Rightarrow> u64 set \<Rightarrow> segment_list \<Rightarrow> bool" where
  "segs_ok env schema gone sl \<longleftrightarrow> sl_wf env sl \<and> 0 < sl_next_seq sl \<and>
     (\<forall>e \<in> set (sl_segments sl). seg_stored env schema gone (sl_disk sl) e \<and>
        (\<exists>k < unat (sl_next_seq sl). se_id e = seg_name k)) \<and>
     dom (sl_disk sl) = se_id ` set (sl_segments sl) \<and>
     (\<forall>doc \<in> set (merged_docs env (sl_segments sl)). d_id doc \<notin> gone \<longrightarrow> sl_get_doc env sl (d_id doc) \<noteq> None)"

lemma segs_okD:
  assumes "segs_ok env schema gone sl"
  shows "sl_wf env sl"
    and "e \<in> set (sl_segments sl) \<Longrightarrow> seg_stored env schema gone (sl_disk sl) e"
    and "e \<in> set (sl_segments sl) \<Longrightarrow> \<exists>k < unat (sl_next_seq sl). se_id e = seg_name k"
    and "dom (sl_disk sl) = se_id ` set (sl_segments sl)"
    and "doc \<in> set (merged_docs env (sl_segments sl)) \<Longrightarrow> d_id doc \<notin> gone \<Longrightarrow> sl_get_doc env sl (d_id doc) \<noteq> None"
    and "0 < sl_next_seq sl"
  using assms unfolding segs_ok_def by blast+

lemma merged_docs_simps [simp]:
  "merged_docs env [] = []"
  "merged_docs env (e # es) = map snd (local_docs env (se_reader e)) @ merged_docs env es"
  "merged_docs env (xs @ ys) = merged_docs env xs @ merged_docs env ys"
  by (simp_all add: merged_docs_def)

lemma in_merged_docs:
  "x \<in> set (merged_docs env es) \<longleftrightarrow> (\<exists>e \<in> set es. x \<in> set (map snd (local_docs env (se_reader e))))"
  by (simp add: merged_docs_def)

lemma mset_merged_split:
  "mset (merged_docs env (filter P xs)) + mset (merged_docs env (filter (\<lambda>x. \<not> P x) xs)) = mset (merged_docs env xs)"
  by (induction xs) auto

lemma mset_merged_filter: "mset (merged_docs env (filter P xs)) \<subseteq># mset (merged_docs env xs)"
  unfolding mset_merged_split [of env P xs, symmetric] by (rule mset_subset_eq_add_left)

lemma doc_lookup_None: "doc_lookup ds i = None \<longleftrightarrow> (\<forall>d \<in> set ds. d_id d \<noteq> i)"
  by (auto simp: doc_lookup_def find_None_iff)

lemma dir_holds_kept:
  assumes "dir_holds env schema gone sid docs deleted d" "doc \<in> set docs" "d_id doc \<notin> gone"
  shows "doc \<in> set (kept_docs docs deleted)"
proof -
  obtain i where "i < length docs" "docs ! i = doc" using assms(2) by (auto simp: in_set_conv_nth)
  then show ?thesis using assms by (auto simp: kept_docs_def dir_holds_def)
qed

section \<open>Adding, merging, deleting\<close>

text \<open>All lists of documents that may become a segment fit, and the names do not run out.\<close>

definition docs_room :: "index_env \<Rightarrow> index_schema \<Rightarrow> document multiset \<Rightarrow> bool" where
  "docs_room env schema m \<longleftrightarrow>
     (\<forall>sid ds. mset ds \<subseteq># m \<longrightarrow> segment_fits env schema sid ds) \<and> (\<forall>b. codec_ok (ie_bitmap env) b)"

lemma docs_room_fits: "docs_room env schema m \<Longrightarrow> mset ds \<subseteq># m \<Longrightarrow> segment_fits env schema sid ds"
  by (simp add: docs_room_def)

lemma merged_entry_of:
  "segment_fits env schema sid docs \<Longrightarrow>
    map snd (local_docs env (se_reader (entry_of env schema sid docs))) = docs"
  by (simp add: entry_of_def Let_def local_docs_segment_of)

lemma entry_of_id [simp]: "se_id (entry_of env schema sid docs) = sid" "se_dir (entry_of env schema sid docs) = sid"
  by (simp_all add: entry_of_def Let_def)

lemma segment_docs_entry_of:
  "segment_fits env schema sid docs \<Longrightarrow> segment_docs env (entry_of env schema sid docs) = doc_lookup docs"
  by (simp add: segment_docs_lookup merged_entry_of)

lemma doc_at_stored:
  assumes "seg_stored env schema gone disk e" "doc_at env (se_reader e) l = Some d"
  shows "d \<in> set (map snd (local_docs env (se_reader e)))"
proof -
  obtain docs deleted where r: "segment_fits env schema (se_id e) docs"
    "se_reader e = segment_of env schema (se_id e) docs (se_id e) deleted"
    using assms(1) by (auto simp: seg_stored_def dir_holds_def)
  have "unat l < length docs" "l \<notin> deleted" "d = docs ! unat l"
    using assms(2) by (simp_all add: r(2) doc_at_segment_of [OF r(1)] split: if_splits)
  then show ?thesis unfolding r(2) local_docs_kept [OF r(1)] by (auto simp: kept_docs_def)
qed

lemma seg_stored_disk:
  "seg_stored env schema gone disk e \<Longrightarrow> disk' (se_id e) = disk (se_id e) \<Longrightarrow> seg_stored env schema gone disk' e"
  by (simp add: seg_stored_def)

lemma seg_stored_new:
  assumes "segment_fits env schema sid docs" "segment_files env schema sid docs d"
    "load_deletion_bitmap (ie_bitmap env) d = Inr {}" "disk sid = Some d"
  shows "seg_stored env schema gone disk (entry_of env schema sid docs)"
  using assms unfolding seg_stored_def dir_holds_def
  by (intro exI [of _ docs] exI [of _ "{}"] exI [of _ d]) (simp add: entry_of_def Let_def)

text \<open>Putting a written segment in place of some of the others, as a flush (of none), a merge and a
  reindexing do.\<close>

definition put_segment ::
  "index_env \<Rightarrow> index_schema \<Rightarrow> string list \<Rightarrow> document list \<Rightarrow> dir \<Rightarrow> segment_list \<Rightarrow> segment_list" where
  "put_segment env schema old docs d sl =
     (let sid = fst (next_segment_id sl);
          sl1 = snd (next_segment_id sl)\<lparr>sl_disk := (sl_disk sl)(sid \<mapsto> d)\<rparr>;
          sl2 = replace_segments env old (entry_of env schema sid docs) sl1
      in sl2\<lparr>sl_disk := sl_disk sl2 |` (- set old)\<rparr>)"

lemma bind_next_segment_id:
  "op_bind (op_state next_segment_id) f sl = f (fst (next_segment_id sl)) (snd (next_segment_id sl))"
  by (simp add: op_bind_def op_state_def split: prod.split)

lemma next_segment_id_name: "fst (next_segment_id sl) = seg_name (unat (sl_next_seq sl))"
  by (simp add: next_segment_id_def seg_name_def)

lemma put_segment_segments:
  "sl_segments (put_segment env schema old docs d sl) =
    filter (\<lambda>e. se_id e \<notin> set old) (sl_segments sl) @ [entry_of env schema (fst (next_segment_id sl)) docs]"
  by (simp add: put_segment_def replace_segments_def next_segment_id_def Let_def)

lemma put_segment_disk:
  "sl_disk (put_segment env schema old docs d sl) =
    ((sl_disk sl)(fst (next_segment_id sl) \<mapsto> d)) |` (- set old)"
  by (simp add: put_segment_def replace_segments_def Let_def)

lemma put_segment_ok:
  assumes ok: "segs_ok env schema gone sl" and n: "unat (sl_next_seq sl) < 2 ^ 64 - 1"
    and fit: "segment_fits env schema (fst (next_segment_id sl)) docs"
    and d: "segment_files env schema (fst (next_segment_id sl)) docs d"
      "load_deletion_bitmap (ie_bitmap env) d = Inr {}"
    and old: "set old \<subseteq> se_id ` set (sl_segments sl)"
      "set (merged_docs env (filter (\<lambda>e. se_id e \<in> set old) (sl_segments sl))) \<subseteq> set docs"
  shows "segs_ok env schema gone (put_segment env schema old docs d sl)"
    and "unat (sl_next_seq (put_segment env schema old docs d sl)) = unat (sl_next_seq sl) + 1"
    and "mset (merged_docs env (sl_segments (put_segment env schema old docs d sl))) =
      mset (merged_docs env (filter (\<lambda>e. se_id e \<notin> set old) (sl_segments sl))) + mset docs"
    and "sl_get_doc env (put_segment env schema old docs d sl) = (\<lambda>i. case sl_doc_map sl i of None \<Rightarrow> None
         | Some loc \<Rightarrow> if loc_segment loc \<in> set old then None else sl_get_doc env sl i) ++ doc_lookup docs"
proof -
  let ?sl = "put_segment env schema old docs d sl"
  define sid where "sid = fst (next_segment_id sl)"
  let ?e = "entry_of env schema sid docs"
  let ?kept = "filter (\<lambda>e. se_id e \<notin> set old) (sl_segments sl)"
  let ?sl1 = "snd (next_segment_id sl)\<lparr>sl_disk := (sl_disk sl)(sid \<mapsto> d)\<rparr>"
  have sid: "sid = seg_name (unat (sl_next_seq sl))" by (simp add: sid_def next_segment_id_name)
  have fresh: "sid \<notin> se_id ` set (sl_segments sl)" using ok by (auto simp: segs_ok_def sid)
  then have sid_old: "sid \<notin> set old" using old(1) by blast
  have segs: "sl_segments ?sl = ?kept @ [?e]"
    by (simp add: put_segment_segments sid_def)
  have disk: "sl_disk ?sl = ((sl_disk sl)(sid \<mapsto> d)) |` (- set old)"
    by (simp add: put_segment_disk sid_def)
  have nx: "sl_next_seq ?sl = sl_next_seq sl + 1"
    by (simp add: put_segment_def replace_segments_def next_segment_id_def Let_def)
  show "unat (sl_next_seq ?sl) = unat (sl_next_seq sl) + 1"
    unfolding nx using n by (simp add: unat_word_ariths)
  then have nx1: "unat (sl_next_seq ?sl) = unat (sl_next_seq sl) + 1" .
  show "mset (merged_docs env (sl_segments ?sl)) = mset (merged_docs env ?kept) + mset docs"
    using fit by (simp add: segs merged_entry_of sid_def)
  have wf: "sl_wf env ?sl1" using ok by (simp add: segs_ok_def next_segment_id_def)
  have fr: "se_id ?e \<notin> se_id ` {s \<in> set (sl_segments ?sl1). se_id s \<notin> set old}"
    using fresh by (auto simp: next_segment_id_def)
  note rw = replace_segments_wf [OF wf fr]
  show "sl_get_doc env ?sl = (\<lambda>i. case sl_doc_map sl i of None \<Rightarrow> None
         | Some loc \<Rightarrow> if loc_segment loc \<in> set old then None else sl_get_doc env sl i) ++ doc_lookup docs"
  proof -
    have 1: "sl_get_doc env ?sl = sl_get_doc env (replace_segments env old ?e ?sl1)"
      by (simp add: put_segment_def Let_def sid_def)
    have 2: "sl_doc_map ?sl1 = sl_doc_map sl" "sl_get_doc env ?sl1 = sl_get_doc env sl"
      by (simp_all add: next_segment_id_def)
    have 3: "segment_docs env ?e = doc_lookup docs" using fit by (simp add: segment_docs_entry_of sid_def)
    show ?thesis unfolding 1 rw(2) 2 3 ..
  qed
  note get = this
  have stored: "seg_stored env schema gone (sl_disk sl) e" if "e \<in> set (sl_segments sl)" for e
    using ok that by (simp add: segs_ok_def)
  show "segs_ok env schema gone ?sl"
    unfolding segs_ok_def
  proof (intro conjI ballI impI)
    show "0 < sl_next_seq ?sl" using nx1 by (metis Suc_eq_plus1 nat.simps(3) unat_0 word_gt_0)
    show "sl_wf env ?sl" using rw(1) by (simp add: put_segment_def Let_def sid_def)
    show "dom (sl_disk ?sl) = se_id ` set (sl_segments ?sl)"
      using ok sid_old by (auto simp: segs_ok_def segs disk)
  next
    fix e assume e: "e \<in> set (sl_segments ?sl)"
    show "seg_stored env schema gone (sl_disk ?sl) e"
    proof (cases "e \<in> set ?kept")
      case True
      then have "sl_disk ?sl (se_id e) = sl_disk sl (se_id e)" using fresh by (auto simp: disk restrict_map_def)
      moreover have "e \<in> set (sl_segments sl)" using True by simp
      ultimately show ?thesis by (intro seg_stored_disk [OF stored])
    next
      case False
      then have "e = ?e" using e by (auto simp: segs)
      moreover have "sl_disk ?sl sid = Some d" using sid_old by (simp add: disk restrict_map_def)
      ultimately show ?thesis using seg_stored_new fit d unfolding sid_def [symmetric] by simp
    qed
    show "\<exists>k < unat (sl_next_seq ?sl). se_id e = seg_name k"
      using e ok unfolding nx1 by (auto simp: segs segs_ok_def sid less_Suc_eq)
  next
    fix doc assume doc: "doc \<in> set (merged_docs env (sl_segments ?sl))" "d_id doc \<notin> gone"
    show "sl_get_doc env ?sl (d_id doc) \<noteq> None"
    proof (cases "doc_lookup docs (d_id doc)")
      case (Some x)
      then show ?thesis by (simp add: get)
    next
      case None
      then have "doc \<notin> set docs" by (auto simp: doc_lookup_None)
      then have "doc \<in> set (merged_docs env ?kept)" using doc(1) fit by (auto simp: segs merged_entry_of sid_def)
      then have "doc \<in> set (merged_docs env (sl_segments sl))" by (auto simp: merged_docs_def)
      then have some: "sl_get_doc env sl (d_id doc) \<noteq> None" using ok doc(2) by (simp add: segs_ok_def)
      then obtain loc where loc: "sl_doc_map sl (d_id doc) = Some loc"
        by (auto simp: sl_get_doc_def split: option.splits)
      have "loc_segment loc \<notin> set old"
      proof
        assume in_old: "loc_segment loc \<in> set old"
        obtain e x where e: "find_segment (loc_segment loc) sl = Some e"
          "doc_at env (se_reader e) (loc_local loc) = Some x" "d_id x = d_id doc"
          using ok loc unfolding segs_ok_def sl_wf_def by blast
        have e': "e \<in> set (sl_segments sl)" "se_id e = loc_segment loc"
          using e(1) by (auto simp: find_segment_def dest: find_Some_mem)
        have "x \<in> set (map snd (local_docs env (se_reader e)))" by (rule doc_at_stored [OF stored [OF e'(1)] e(2)])
        then have "x \<in> set (merged_docs env (filter (\<lambda>e. se_id e \<in> set old) (sl_segments sl)))"
          using e' in_old by (auto simp: merged_docs_def)
        then show False using old(2) None e(3) by (auto simp: doc_lookup_None)
      qed
      then show ?thesis using some loc None by (simp add: get map_add_def)
    qed
  qed
qed

text \<open>Putting it in place of all of them leaves no trace of deletions.\<close>

lemma put_segment_all:
  assumes ok: "segs_ok env schema gone sl" and n: "unat (sl_next_seq sl) < 2 ^ 64 - 1"
    and fit: "segment_fits env schema (fst (next_segment_id sl)) docs"
    and d: "segment_files env schema (fst (next_segment_id sl)) docs d"
      "load_deletion_bitmap (ie_bitmap env) d = Inr {}"
    and docs: "set (merged_docs env (sl_segments sl)) \<subseteq> set docs"
  shows "segs_ok env schema {} (put_segment env schema (map se_id (sl_segments sl)) docs d sl)"
    and "mset (merged_docs env (sl_segments (put_segment env schema (map se_id (sl_segments sl)) docs d sl))) = mset docs"
proof -
  let ?old = "map se_id (sl_segments sl)"
  let ?sl = "put_segment env schema ?old docs d sl" and ?e = "entry_of env schema (fst (next_segment_id sl)) docs"
  have none: "filter (\<lambda>e. se_id e \<notin> set ?old) (sl_segments sl) = []" by simp
  have old: "set ?old \<subseteq> se_id ` set (sl_segments sl)" by simp
  have sub: "set (merged_docs env (filter (\<lambda>e. se_id e \<in> set ?old) (sl_segments sl))) \<subseteq> set docs"
    using docs by (auto simp: in_merged_docs)
  note p = put_segment_ok [OF ok n fit d old sub]
  show "mset (merged_docs env (sl_segments ?sl)) = mset docs" using p(3) unfolding none by simp
  have segs: "sl_segments ?sl = [?e]" unfolding put_segment_segments none by simp
  have fresh: "fst (next_segment_id sl) \<notin> set ?old"
    using ok by (auto simp: segs_ok_def next_segment_id_name)
  have "sl_disk ?sl (fst (next_segment_id sl)) = Some d"
    unfolding put_segment_disk using fresh by (simp only: restrict_map_def Compl_iff not_not fun_upd_same) simp
  then have st: "seg_stored env schema {} (sl_disk ?sl) ?e" by (rule seg_stored_new [OF fit d])
  have "sl_get_doc env ?sl i = doc_lookup docs i" for i
  proof (cases "sl_doc_map sl i")
    case None
    then show ?thesis unfolding p(4) by (simp add: map_add_def split: option.split)
  next
    case (Some loc)
    then obtain e where "find_segment (loc_segment loc) sl = Some e"
      using segs_okD(1) [OF ok] unfolding sl_wf_def by blast
    then have "loc_segment loc \<in> set ?old" by (force simp: find_segment_def dest: find_Some_mem)
    then show ?thesis unfolding p(4) using Some by (simp add: map_add_def split: option.split)
  qed
  then have "doc \<in> set docs \<Longrightarrow> sl_get_doc env ?sl (d_id doc) \<noteq> None" for doc
    by (metis doc_lookup_None)
  moreover have "set (merged_docs env (sl_segments ?sl)) = set docs"
    unfolding segs using fit by (simp add: merged_entry_of)
  ultimately show "segs_ok env schema {} ?sl"
    unfolding segs_ok_def using segs_okD(1,3,4,6) [OF p(1)] st by (auto simp: segs)
qed

lemma write_next_segment:
  assumes ok: "segs_ok env schema gone sl" and fit: "segment_fits env schema (fst (next_segment_id sl)) docs"
  obtains d where
    "write_segment env schema (fst (next_segment_id sl)) docs (snd (next_segment_id sl)) =
       Some (Inr (entry_of env schema (fst (next_segment_id sl)) docs),
         snd (next_segment_id sl)\<lparr>sl_disk := (sl_disk sl)(fst (next_segment_id sl) \<mapsto> d)\<rparr>)"
    "segment_files env schema (fst (next_segment_id sl)) docs d" "load_deletion_bitmap (ie_bitmap env) d = Inr {}"
proof -
  have "fst (next_segment_id sl) \<notin> dom (sl_disk sl)"
    using ok by (auto simp: segs_ok_def next_segment_id_name)
  then have "sl_disk (snd (next_segment_id sl)) (fst (next_segment_id sl)) = None"
    by (auto simp: next_segment_id_def)
  from write_segment_run [where sl = "snd (next_segment_id sl)", OF fit this] show ?thesis
    using that by (auto simp: next_segment_id_def)
qed

lemma run_merge_ok:
  assumes ok: "segs_ok env schema gone sl" and n: "unat (sl_next_seq sl) < 2 ^ 64 - 1"
    and room: "docs_room env schema m" "mset (merged_docs env (sl_segments sl)) \<subseteq># m"
    and ids: "set ids \<subseteq> se_id ` set (sl_segments sl)"
  shows "\<exists>sl'. run_merge env schema ids sl = Some (Inr (), sl') \<and> segs_ok env schema gone sl' \<and>
    unat (sl_next_seq sl') = unat (sl_next_seq sl) + 1 \<and>
    mset (merged_docs env (sl_segments sl')) = mset (merged_docs env (sl_segments sl))"
proof -
  let ?docs = "merged_docs env (filter (\<lambda>e. se_id e \<in> set ids) (sl_segments sl))"
  let ?sid = "fst (next_segment_id sl)"
  have "mset ?docs \<subseteq># m"
    using subset_mset.order_trans [OF mset_merged_filter room(2)] .
  then have fit: "segment_fits env schema ?sid ?docs" using docs_room_fits room(1) by blast
  from write_next_segment [OF ok fit] obtain d where w:
    "write_segment env schema ?sid ?docs (snd (next_segment_id sl)) =
       Some (Inr (entry_of env schema ?sid ?docs), snd (next_segment_id sl)\<lparr>sl_disk := (sl_disk sl)(?sid \<mapsto> d)\<rparr>)"
    "segment_files env schema ?sid ?docs d" "load_deletion_bitmap (ie_bitmap env) d = Inr {}" by blast
  have segs: "sl_segments (snd (next_segment_id sl)) = sl_segments sl" by (simp add: next_segment_id_def)
  have "run_merge env schema ids sl = Some (Inr (), put_segment env schema ids ?docs d sl)"
    unfolding run_merge_def bind_next_segment_id op_bind_get segs execute_merge_def
      op_bind_simps(1) [where m = "write_segment env schema ?sid ?docs", OF w(1)] op_bind_modify op_modify_run put_segment_def Let_def by simp
  moreover have "mset (merged_docs env (filter (\<lambda>e. se_id e \<notin> set ids) (sl_segments sl))) + mset ?docs =
      mset (merged_docs env (sl_segments sl))"
    using mset_merged_split [of env "\<lambda>e. se_id e \<in> set ids" "sl_segments sl"] by (simp add: add.commute)
  ultimately show ?thesis
    using put_segment_ok [OF ok n fit w(2,3) ids] by auto
qed

lemma find_merges_ids:
  "ids \<in> set (find_merges policy segs) \<Longrightarrow> set ids \<subseteq> se_id ` set segs"
  by (auto simp: find_merges_def Let_def in_set_enumerate_eq split: if_splits dest!: in_set_takeD)

lemma find_merges_one: "length (find_merges policy segs) \<le> 1"
  by (simp add: find_merges_def Let_def)

lemma maybe_merge_ok:
  assumes ok: "segs_ok env schema gone sl" and n: "unat (sl_next_seq sl) < 2 ^ 64 - 1"
    and room: "docs_room env schema m" "mset (merged_docs env (sl_segments sl)) \<subseteq># m"
  shows "\<exists>sl'. maybe_merge env schema sl = Some (Inr (), sl') \<and> segs_ok env schema gone sl' \<and>
    unat (sl_next_seq sl') \<le> unat (sl_next_seq sl) + 1 \<and>
    mset (merged_docs env (sl_segments sl')) = mset (merged_docs env (sl_segments sl))"
proof (cases "find_merges default_merge_policy (sl_segments sl)")
  case Nil
  then show ?thesis using ok by (simp add: maybe_merge_def)
next
  case (Cons ids rest)
  then have ids: "set ids \<subseteq> se_id ` set (sl_segments sl)" and rest: "rest = []"
    using find_merges_ids [of ids default_merge_policy "sl_segments sl"]
      find_merges_one [of default_merge_policy "sl_segments sl"] by auto
  from run_merge_ok [OF ok n room ids] obtain sl' where
    "run_merge env schema ids sl = Some (Inr (), sl')" "segs_ok env schema gone sl'"
    "unat (sl_next_seq sl') = unat (sl_next_seq sl) + 1"
    "mset (merged_docs env (sl_segments sl')) = mset (merged_docs env (sl_segments sl))" by blast
  then show ?thesis using Cons rest by (simp add: maybe_merge_def op_bind_simps(1))
qed

lemma sl_mark_deleted_ok:
  assumes ok: "segs_ok env schema gone sl" and i: "i \<in> gone" and bm: "\<forall>b. codec_ok (ie_bitmap env) b"
  shows "\<exists>b sl'. sl_mark_deleted env i sl = Some (Inr b, sl') \<and> segs_ok env schema gone sl' \<and>
    sl_segments sl' = sl_segments sl \<and> sl_next_seq sl' = sl_next_seq sl"
proof (cases "sl_doc_map sl i")
  case None
  then show ?thesis using ok by (intro exI [of _ False] exI [of _ sl]) (simp add: sl_mark_deleted_def)
next
  case (Some loc)
  let ?l = "loc_local loc"
  have wf: "sl_wf env sl" using ok by (simp add: segs_ok_def)
  obtain e x where e: "find_segment (loc_segment loc) sl = Some e" "doc_at env (se_reader e) ?l = Some x" "d_id x = i"
    using wf Some unfolding sl_wf_def by blast
  have e': "e \<in> set (sl_segments sl)" using e(1) by (auto simp: find_segment_def dest: find_Some_mem)
  have "seg_stored env schema gone (sl_disk sl) e" using ok e' by (simp add: segs_ok_def)
  then obtain docs deleted deleted' d where st: "sl_disk sl (se_id e) = Some d"
    "dir_holds env schema gone (se_id e) docs deleted' d" "deleted \<subseteq> deleted'" "se_dir e = se_id e"
    "se_reader e = segment_of env schema (se_id e) docs (se_id e) deleted" by (auto simp: seg_stored_def)
  have fit: "segment_fits env schema (se_id e) docs" using st(2) by (simp add: dir_holds_def)
  have x: "x = docs ! unat ?l" using e(2) by (simp add: st(5) doc_at_segment_of [OF fit] split: if_splits)
  obtain d' where d': "deletion_mark (ie_bitmap env) d ?l = Inr (insert ?l deleted', d')"
    "segment_files env schema (se_id e) docs d'" "load_deletion_bitmap (ie_bitmap env) d' = Inr (insert ?l deleted')"
    using segment_files_mark [of env schema "se_id e" docs d deleted' ?l] st(2) bm by (auto simp: dir_holds_def)
  have n: "length docs < 2 ^ 32" using fit by (simp add: segment_fits_def Let_def)
  have holds: "dir_holds env schema gone (se_id e) docs (insert ?l deleted') d'"
    unfolding dir_holds_def
  proof (intro conjI allI impI)
    fix j assume j: "j < length docs" "word_of_nat j \<in> insert ?l deleted'"
    show "d_id (docs ! j) \<in> gone"
    proof (cases "word_of_nat j = ?l")
      case True
      then have "unat ?l = unat (word_of_nat j :: u32)" by simp
      also have "\<dots> = j" using j(1) n by (simp add: unat_of_nat)
      finally show ?thesis using x e(3) i by simp
    qed (use j st(2) in \<open>auto simp: dir_holds_def\<close>)
  qed (use st(2) d' in \<open>simp_all add: dir_holds_def\<close>)
  define sl' where "sl' = sl\<lparr>sl_disk := (sl_disk sl)(se_id e \<mapsto> d'), sl_doc_map := (sl_doc_map sl)(i := None)\<rparr>"
  have run: "sl_mark_deleted env i sl = Some (Inr True, sl')"
    using Some e(1) st(1,4) d'(1) by (simp add: sl_mark_deleted_def sl'_def)
  note m = sl_mark_deleted_wf [OF wf run]
  have "segs_ok env schema gone sl'"
    unfolding segs_ok_def
  proof (intro conjI ballI impI)
    show "0 < sl_next_seq sl'" using segs_okD(6) [OF ok] by (simp add: sl'_def)
    show "sl_wf env sl'" using m by simp
    show "dom (sl_disk sl') = se_id ` set (sl_segments sl')"
      using ok e' by (auto simp: segs_ok_def sl'_def)
  next
    fix e1 assume "e1 \<in> set (sl_segments sl')"
    then have e1: "e1 \<in> set (sl_segments sl)" by (simp add: sl'_def)
    show "seg_stored env schema gone (sl_disk sl') e1"
    proof (cases "se_id e1 = se_id e")
      case True
      moreover have "inj_on se_id (set (sl_segments sl))" using wf by (simp add: sl_wf_def distinct_map)
      ultimately have "e1 = e" using inj_onD e1 e' by metis
      moreover have "sl_disk sl' (se_id e) = Some d'" by (simp add: sl'_def)
      moreover have "deleted \<subseteq> insert ?l deleted'" using st(3) by blast
      ultimately show ?thesis
        unfolding seg_stored_def using holds st(4,5) by blast
    next
      case False
      then have "sl_disk sl' (se_id e1) = sl_disk sl (se_id e1)" by (simp add: sl'_def)
      then show ?thesis by (rule seg_stored_disk [OF segs_okD(2) [OF ok e1]])
    qed
    show "\<exists>k < unat (sl_next_seq sl'). se_id e1 = seg_name k"
      using segs_okD(3) [OF ok e1] by (simp add: sl'_def)
  next
    fix doc assume doc: "doc \<in> set (merged_docs env (sl_segments sl'))" "d_id doc \<notin> gone"
    then have "sl_get_doc env sl (d_id doc) \<noteq> None" "d_id doc \<noteq> i"
      using segs_okD(5) [OF ok, of doc] m i by auto
    then show "sl_get_doc env sl' (d_id doc) \<noteq> None" using m by simp
  qed
  then show ?thesis using run by (auto simp: sl'_def)
qed

section \<open>Opening\<close>

definition opened_entry :: "index_env \<Rightarrow> index_schema \<Rightarrow> string \<Rightarrow> document list \<Rightarrow> bitmap \<Rightarrow> segment_entry" where
  "opened_entry env schema sid docs deleted =
     (let r = segment_of env schema sid docs sid deleted
      in \<lparr>se_id = sid, se_dir = sid, se_reader = r, se_stats = stats_compute env r schema\<rparr>)"

lemma dir_holds_open:
  "dir_holds env schema gone sid docs deleted d \<Longrightarrow>
    segment_open env sid d = Some (Inr (segment_of env schema sid docs sid deleted))"
  by (simp add: dir_holds_def segment_files_open)

lemma seg_stored_opened:
  "disk sid = Some d \<Longrightarrow> dir_holds env schema gone sid docs deleted d \<Longrightarrow>
    seg_stored env schema gone disk (opened_entry env schema sid docs deleted)"
  by (auto simp: seg_stored_def opened_entry_def Let_def)

lemma open_segments_ok:
  assumes "\<forall>name \<in> set names. \<exists>k docs deleted d. name = seg_name k \<and> k < n \<and> disk name = Some d \<and>
      dir_holds env schema gone name docs deleted d" and "n \<le> 2 ^ 64 - 1" "unat mx < n"
  shows "\<exists>segs' m' mx'. open_segments env schema disk names (segs, m, mx) = Some (segs @ segs', m', mx') \<and>
    map se_id segs' = names \<and> unat mx' < n \<and> mx \<le> mx' \<and>
    (\<forall>e \<in> set segs'. \<exists>d docs deleted. disk (se_id e) = Some d \<and>
       dir_holds env schema gone (se_id e) docs deleted d \<and> e = opened_entry env schema (se_id e) docs deleted \<and>
       (\<exists>k \<le> unat mx'. se_id e = seg_name k))"
  using assms
proof (induction names arbitrary: segs m mx)
  case Nil
  then show ?case by simp
next
  case (Cons name names)
  obtain k docs deleted d where nm: "name = seg_name k" "k < n" "disk name = Some d"
    "dir_holds env schema gone name docs deleted d"
    using Cons.prems(1) by auto
  let ?e = "opened_entry env schema name docs deleted" and ?mx = "max mx (word_of_nat k)"
  have k: "unat (word_of_nat k :: u64) = k" using nm(2) Cons.prems(2) by (simp add: unat_of_nat)
  have mx: "unat ?mx < n" "mx \<le> ?mx" "k \<le> unat ?mx"
    using nm(2) Cons.prems(3) k by (auto simp: max_def word_le_nat_alt)
  obtain segs' m' mx' where IH: "open_segments env schema disk names (segs @ [?e], map_docs env name
      (segment_of env schema name docs name deleted) m, ?mx) = Some ((segs @ [?e]) @ segs', m', mx')"
    "map se_id segs' = names" "unat mx' < n" "?mx \<le> mx'"
    "\<forall>e \<in> set segs'. \<exists>d docs deleted. disk (se_id e) = Some d \<and>
       dir_holds env schema gone (se_id e) docs deleted d \<and> e = opened_entry env schema (se_id e) docs deleted \<and>
       (\<exists>k \<le> unat mx'. se_id e = seg_name k)"
    using Cons.IH [of ?mx "segs @ [?e]" "map_docs env name (segment_of env schema name docs name deleted) m"]
      Cons.prems(1,2) mx(1) by auto
  have "open_segments env schema disk (name # names) (segs, m, mx) = Some (segs @ (?e # segs'), m', mx')"
    using IH(1) nm(2,3) dir_holds_open [OF nm(4)] segment_seq_name [of k] Cons.prems(2)
    by (simp add: nm(1) [symmetric] Let_def opened_entry_def max.commute)
  moreover have "se_id ?e = name" by (simp add: opened_entry_def Let_def)
  moreover have "k \<le> unat mx'" using mx(3) IH(4) by (simp add: word_le_nat_alt)
  moreover have "mx \<le> mx'" using mx(2) IH(4) by simp
  ultimately show ?case
    using IH(2,3,5) nm(1,3,4) by (intro exI [of _ "?e # segs'"]) auto
qed

text \<open>An open segment and the same one opened again.\<close>

lemma reopened_docs:
  assumes "seg_stored env schema gone disk e" "disk (se_id e) = Some d"
    and "dir_holds env schema gone (se_id e) docs deleted d"
  shows "set (kept_docs docs deleted) \<subseteq> set (map snd (local_docs env (se_reader e)))"
    and "\<forall>doc \<in> set (map snd (local_docs env (se_reader e))). d_id doc \<notin> gone \<longrightarrow> doc \<in> set (kept_docs docs deleted)"
proof -
  obtain docs2 del del' where st: "dir_holds env schema gone (se_id e) docs2 del' d" "del \<subseteq> del'"
    "se_reader e = segment_of env schema (se_id e) docs2 (se_id e) del"
    using assms(1,2) by (auto simp: seg_stored_def)
  have fit: "segment_fits env schema (se_id e) docs2" "segment_fits env schema (se_id e) docs"
    using st(1) assms(3) by (simp_all add: dir_holds_def)
  have "segment_of env schema (se_id e) docs2 (se_id e) del' = segment_of env schema (se_id e) docs (se_id e) deleted"
    using dir_holds_open [OF st(1)] dir_holds_open [OF assms(3)] by simp
  then have same: "kept_docs docs2 del' = kept_docs docs deleted"
    using local_docs_kept [OF fit(1), of "se_id e" del'] local_docs_kept [OF fit(2), of "se_id e" deleted] by simp
  have here: "map snd (local_docs env (se_reader e)) = kept_docs docs2 del"
    by (simp add: st(3) local_docs_kept [OF fit(1)])
  show "set (kept_docs docs deleted) \<subseteq> set (map snd (local_docs env (se_reader e)))"
    unfolding here same [symmetric] by (rule kept_docs_mono [OF st(2)])
  show "\<forall>doc \<in> set (map snd (local_docs env (se_reader e))). d_id doc \<notin> gone \<longrightarrow> doc \<in> set (kept_docs docs deleted)"
    unfolding here same [symmetric]
    using dir_holds_kept [OF st(1)] by (auto simp: kept_docs_def)
qed

lemma sl_open_ok:
  assumes ok: "segs_ok env schema gone sl"
  shows "\<exists>sl'. sl_open env schema (sl_disk sl) = Some sl' \<and> segs_ok env schema gone sl' \<and>
    unat (sl_next_seq sl') \<le> unat (sl_next_seq sl) \<and>
    set (merged_docs env (sl_segments sl')) \<subseteq> set (merged_docs env (sl_segments sl)) \<and>
    (\<forall>doc \<in> set (merged_docs env (sl_segments sl)). d_id doc \<notin> gone \<longrightarrow>
       doc \<in> set (merged_docs env (sl_segments sl')))"
proof -
  let ?disk = "sl_disk sl" and ?n = "unat (sl_next_seq sl)"
  let ?names = "filter (prefix ''seg-'') (sorted_list_of_set (dom ?disk))"
  note dm = segs_okD(4) [OF ok]
  have "finite (dom ?disk)" by (simp add: dm)
  moreover have "prefix ''seg-'' name" if "name \<in> dom ?disk" for name
  proof -
    obtain e where "e \<in> set (sl_segments sl)" "name = se_id e" using \<open>name \<in> dom ?disk\<close> dm by auto
    then obtain k where "name = seg_name k" using segs_okD(3) [OF ok] by blast
    then show ?thesis by (simp add: seg_name_def)
  qed
  ultimately have names: "set ?names = dom ?disk" by auto
  have all: "\<forall>name \<in> set ?names. \<exists>k docs deleted d. name = seg_name k \<and> k < ?n \<and> ?disk name = Some d \<and>
      dir_holds env schema gone name docs deleted d"
  proof
    fix name assume "name \<in> set ?names"
    then obtain e where e: "e \<in> set (sl_segments sl)" "name = se_id e" using names dm by auto
    then show "\<exists>k docs deleted d. name = seg_name k \<and> k < ?n \<and> ?disk name = Some d \<and>
        dir_holds env schema gone name docs deleted d"
      using segs_okD(2,3) [OF ok e(1)] unfolding seg_stored_def by metis
  qed
  have "?n \<le> 2 ^ 64 - 1" using unsigned_less [of "sl_next_seq sl", where 'a = nat] by simp
  moreover have "unat (0 :: u64) < ?n" using segs_okD(6) [OF ok] by (simp add: word_less_nat_alt)
  ultimately obtain segs m mx where o: "open_segments env schema ?disk ?names ([], Map.empty, 0) = Some (segs, m, mx)"
    "map se_id segs = ?names" "unat mx < ?n"
    and ent: "\<forall>e \<in> set segs. \<exists>d docs deleted. ?disk (se_id e) = Some d \<and>
       dir_holds env schema gone (se_id e) docs deleted d \<and> e = opened_entry env schema (se_id e) docs deleted \<and>
       (\<exists>k \<le> unat mx. se_id e = seg_name k)"
    using open_segments_ok [OF all, of 0 "[]" Map.empty] by auto
  define sl' where "sl' = \<lparr>sl_segments = segs, sl_doc_map = m, sl_next_seq = mx + 1, sl_disk = ?disk\<rparr>"
  have open': "sl_open env schema ?disk = Some sl'" by (simp add: sl_open_def o(1) sl'_def)
  have lt: "sl_wf env sl'" "sl_get_doc env sl' = doc_lookup (merged_docs env segs)"
    using sl_open_latest [OF open'] by (simp_all add: sl_latest_def latest_docs_def sl'_def)
  have nx: "unat (sl_next_seq sl') = unat mx + 1"
    using o(3) unsigned_less [of "sl_next_seq sl", where 'a = nat] by (simp add: sl'_def unat_word_ariths)
  have ids: "se_id ` set segs = dom ?disk" using o(2) names by (metis set_map)
  have ok': "segs_ok env schema gone sl'"
    unfolding segs_ok_def
  proof (intro conjI ballI impI)
    show "sl_wf env sl'" by (rule lt)
    show "0 < sl_next_seq sl'" using nx by (metis Suc_eq_plus1 nat.simps(3) unat_0 word_gt_0)
    show "dom (sl_disk sl') = se_id ` set (sl_segments sl')" by (simp add: sl'_def ids)
  next
    fix e assume "e \<in> set (sl_segments sl')"
    then obtain d docs deleted k where e: "?disk (se_id e) = Some d" "dir_holds env schema gone (se_id e) docs deleted d"
      "e = opened_entry env schema (se_id e) docs deleted" "k \<le> unat mx" "se_id e = seg_name k"
      using ent by (auto simp: sl'_def)
    show "seg_stored env schema gone (sl_disk sl') e"
      using seg_stored_opened [of "sl_disk sl", OF e(1,2)] e(3) by (simp add: sl'_def)
    show "\<exists>k < unat (sl_next_seq sl'). se_id e = seg_name k" unfolding nx using e(4,5) by auto
  next
    fix doc assume "doc \<in> set (merged_docs env (sl_segments sl'))"
    then show "sl_get_doc env sl' (d_id doc) \<noteq> None" unfolding lt(2) doc_lookup_None by (auto simp: sl'_def)
  qed
  have pair: "set (map snd (local_docs env (se_reader e'))) \<subseteq> set (map snd (local_docs env (se_reader e))) \<and>
      (\<forall>doc \<in> set (map snd (local_docs env (se_reader e))). d_id doc \<notin> gone \<longrightarrow>
         doc \<in> set (map snd (local_docs env (se_reader e'))))"
    if m: "e \<in> set (sl_segments sl)" "e' \<in> set segs" "se_id e = se_id e'" for e e'
  proof -
    obtain d docs deleted where e': "?disk (se_id e') = Some d" "dir_holds env schema gone (se_id e') docs deleted d"
      "e' = opened_entry env schema (se_id e') docs deleted" using ent m(2) by blast
    have "segment_fits env schema (se_id e') docs" using e'(2) by (simp add: dir_holds_def)
    then have "map snd (local_docs env (se_reader e')) = kept_docs docs deleted"
      by (subst e'(3)) (simp add: opened_entry_def Let_def local_docs_kept)
    then show ?thesis
      using reopened_docs [OF segs_okD(2) [OF ok m(1)], of d docs deleted] e'(1,2) m(3) by simp
  qed
  have "set (merged_docs env segs) \<subseteq> set (merged_docs env (sl_segments sl))"
  proof
    fix x assume "x \<in> set (merged_docs env segs)"
    then obtain e' where e': "e' \<in> set segs" "x \<in> set (map snd (local_docs env (se_reader e')))"
      unfolding in_merged_docs by blast
    then obtain e where "e \<in> set (sl_segments sl)" "se_id e = se_id e'" using ids dm by (metis imageE imageI)
    then show "x \<in> set (merged_docs env (sl_segments sl))"
      unfolding in_merged_docs using pair [of e e'] e' by blast
  qed
  moreover have "x \<in> set (merged_docs env segs)"
    if x: "x \<in> set (merged_docs env (sl_segments sl))" "d_id x \<notin> gone" for x
  proof -
    obtain e where e: "e \<in> set (sl_segments sl)" "x \<in> set (map snd (local_docs env (se_reader e)))"
      using x(1) unfolding in_merged_docs by blast
    then obtain e' where "e' \<in> set segs" "se_id e = se_id e'" using ids dm by (metis imageE imageI)
    then show ?thesis unfolding in_merged_docs using pair [of e e'] e x(2) by blast
  qed
  ultimately show ?thesis
    using open' ok' nx o(3) by (intro exI [of _ sl']) (simp add: sl'_def)
qed

end
