(* ===== verification/Durability.thy ===== *)
theory Durability
  imports Recovery
begin

text \<open>
  What a primary shard holds after any sequence of writes, flushes, reindexings and restarts.
\<close>

section \<open>The invariant\<close>

definition indexed_docs :: "wal_entry list \<Rightarrow> document list" where
  "indexed_docs entries = List.map_filter (\<lambda>e. case e of Index doc \<Rightarrow> Some doc | Delete i \<Rightarrow> None) entries"

definition deleted_ids :: "wal_entry list \<Rightarrow> u64 set" where
  "deleted_ids entries = {i. Delete i \<in> set entries}"

lemma indexed_docs_simps [simp]:
  "indexed_docs [] = []" "indexed_docs (Index doc # es) = doc # indexed_docs es"
  "indexed_docs (Delete i # es) = indexed_docs es" "indexed_docs (xs @ ys) = indexed_docs xs @ indexed_docs ys"
  "indexed_docs (map Index docs) = docs"
  by (simp_all add: indexed_docs_def List.map_filter_def comp_def)

lemma deleted_ids_simps [simp]:
  "deleted_ids [] = {}" "deleted_ids (Index doc # es) = deleted_ids es"
  "deleted_ids (Delete i # es) = insert i (deleted_ids es)" "deleted_ids (xs @ ys) = deleted_ids xs \<union> deleted_ids ys"
  "deleted_ids (map Index docs) = {}"
  by (auto simp: deleted_ids_def)

definition shard_docs :: "shard_env \<Rightarrow> shard \<Rightarrow> document list" where
  "shard_docs sv sh = merged_docs (sv_index sv) (sl_segments (sh_segments sh)) @ wb_docs (sh_buffer sh)"

text \<open>\<open>h\<close> are the entries that have been acknowledged, in order.\<close>

definition shard_ok :: "shard_env \<Rightarrow> wal_entry list \<Rightarrow> shard \<Rightarrow> bool" where
  "shard_ok sv h sh \<longleftrightarrow>
     segs_ok (sv_index sv) (sv_schema sv) (deleted_ids h) (sh_segments sh) \<and>
     wal_ok (sv_wal sv) (sh_wal sh) \<and>
     indexed_docs (read_all (sv_wal sv) (sh_wal sh)) = wb_docs (sh_buffer sh) \<and>
     deleted_ids (read_all (sv_wal sv) (sh_wal sh)) \<subseteq> deleted_ids h \<and>
     wb_deleted (sh_buffer sh) \<subseteq> deleted_ids h \<and>
     set (shard_docs sv sh) \<subseteq> set (indexed_docs h) \<and>
     (\<forall>doc \<in> set (indexed_docs h). d_id doc \<notin> deleted_ids h \<longrightarrow> doc \<in> set (shard_docs sv sh))"

text \<open>What the libraries and the disk must be able to take: any selection of the documents as a
  segment, the log records, and three more segment names.\<close>

definition shard_room :: "shard_env \<Rightarrow> shard \<Rightarrow> document list \<Rightarrow> bool" where
  "shard_room sv sh docs \<longleftrightarrow>
     docs_room (sv_index sv) (sv_schema sv) (mset (shard_docs sv sh @ docs)) \<and>
     unat (sl_next_seq (sh_segments sh)) < 2 ^ 64 - 4"

definition wal_room :: "shard_env \<Rightarrow> wal_entry list \<Rightarrow> bool" where
  "wal_room sv entries \<longleftrightarrow> (\<forall>seq. \<forall>e \<in> set entries. record_fits (sv_wal sv) \<lparr>wr_seq = seq, wr_entry = e\<rparr>)"

lemma segs_ok_mono:
  assumes "segs_ok env schema gone sl" "gone \<subseteq> gone'"
  shows "segs_ok env schema gone' sl"
proof -
  have "dir_holds env schema gone sid docs deleted d \<Longrightarrow> dir_holds env schema gone' sid docs deleted d" for sid docs deleted d
    using assms(2) by (auto simp: dir_holds_def)
  then have "seg_stored env schema gone disk e \<Longrightarrow> seg_stored env schema gone' disk e" for disk e
    unfolding seg_stored_def by blast
  then show ?thesis using assms unfolding segs_ok_def by blast
qed

section \<open>Flushing\<close>

lemma bind_zoom_state:
  "op_bind (op_zoom g u (op_state f)) k s = k (fst (f (g s))) (u (\<lambda>_. snd (f (g s))) s)"
  by (simp add: op_bind_def op_zoom_def op_state_def split: prod.split)

lemma bind_zoom_modify: "op_bind (op_zoom g u (op_modify f)) k s = k () (u (\<lambda>_. f (g s)) s)"
  by (simp add: op_bind_def op_zoom_def)

lemma bind_zoom_run: "m (g s) = Some (Inr x, t) \<Longrightarrow> op_bind (op_zoom g u m) k s = k x (u (\<lambda>_. t) s)"
  by (simp add: op_bind_def op_zoom_def)

lemma wal_ok_truncate [simp]: "wal_ok c (wal_truncate w)" "read_all c (wal_truncate w) = []"
  by (auto simp: wal_ok_def wal_truncate_def read_all_def wal_bytes_def intro!: exI [of _ "[]"])

lemma restrict_UNIV [simp]: "m |` UNIV = m"
  by (rule ext) simp

lemma add_segment_put:
  "put_segment env schema [] docs d sl =
     add_segment env (entry_of env schema (fst (next_segment_id sl)) docs)
       (snd (next_segment_id sl)\<lparr>sl_disk := (sl_disk sl)(fst (next_segment_id sl) \<mapsto> d)\<rparr>)"
  by (simp add: put_segment_def Let_def add_segment_replace [symmetric])

lemma docs_room_mono: "docs_room env schema m \<Longrightarrow> m' \<subseteq># m \<Longrightarrow> docs_room env schema m'"
  unfolding docs_room_def by (meson subset_mset.order_trans)

lemma flush_ok:
  assumes ok: "shard_ok sv h sh" and room: "shard_room sv sh docs"
  shows "\<exists>sh'. flush sv sh = Some (Inr (), sh') \<and> shard_ok sv h sh' \<and> wb_docs (sh_buffer sh') = [] \<and>
    wb_deleted (sh_buffer sh') = {} \<and>
    mset (shard_docs sv sh') = mset (shard_docs sv sh) \<and>
    unat (sl_next_seq (sh_segments sh')) \<le> unat (sl_next_seq (sh_segments sh)) + 2"
proof -
  let ?env = "sv_index sv" and ?sc = "sv_schema sv" and ?gone = "deleted_ids h" and ?sl = "sh_segments sh"
  let ?b = "snd (wb_drain (sh_buffer sh))" and ?docs = "wb_docs (sh_buffer sh)"
  have b: "wb_docs ?b = []" "wb_deleted ?b = {}" by (simp_all add: wb_drain_def)
  have segs: "segs_ok ?env ?sc ?gone ?sl" using ok by (simp add: shard_ok_def)
  show ?thesis
  proof (cases "?docs = []")
    case True
    then have "flush sv sh = Some (Inr (), sh\<lparr>sh_buffer := ?b\<rparr>)"
      by (simp add: flush_def bind_zoom_state wb_drain_def)
    then show ?thesis using ok True b by (simp add: shard_ok_def shard_docs_def)
  next
    case False
    let ?sid = "fst (next_segment_id ?sl)"
    have room': "docs_room ?env ?sc (mset (shard_docs sv sh))" "unat (sl_next_seq ?sl) < 2 ^ 64 - 4"
      using room by (auto simp: shard_room_def elim: docs_room_mono)
    have fit: "segment_fits ?env ?sc ?sid ?docs"
      using docs_room_fits [OF room'(1)] by (simp add: shard_docs_def)
    from write_next_segment [OF segs fit] obtain d where w:
      "write_segment ?env ?sc ?sid ?docs (snd (next_segment_id ?sl)) =
        Some (Inr (entry_of ?env ?sc ?sid ?docs), snd (next_segment_id ?sl)\<lparr>sl_disk := (sl_disk ?sl)(?sid \<mapsto> d)\<rparr>)"
      "segment_files ?env ?sc ?sid ?docs d" "load_deletion_bitmap (ie_bitmap ?env) d = Inr {}" by blast
    define sl1 where "sl1 = put_segment ?env ?sc [] ?docs d ?sl"
    have n: "unat (sl_next_seq ?sl) < 2 ^ 64 - 1" using room'(2) by simp
    have sl1: "segs_ok ?env ?sc ?gone sl1" "unat (sl_next_seq sl1) = unat (sl_next_seq ?sl) + 1"
      "mset (merged_docs ?env (sl_segments sl1)) = mset (merged_docs ?env (sl_segments ?sl)) + mset ?docs"
      using put_segment_ok [OF segs n fit w(2,3), of "[]"] by (simp_all add: sl1_def)
    have "mset (merged_docs ?env (sl_segments sl1)) \<subseteq># mset (shard_docs sv sh)"
      by (simp add: sl1(3) shard_docs_def)
    from maybe_merge_ok [OF sl1(1) _ room'(1) this] obtain sl2 where sl2:
      "maybe_merge ?env ?sc sl1 = Some (Inr (), sl2)" "segs_ok ?env ?sc ?gone sl2"
      "unat (sl_next_seq sl2) \<le> unat (sl_next_seq sl1) + 1"
      "mset (merged_docs ?env (sl_segments sl2)) = mset (merged_docs ?env (sl_segments sl1))"
      using sl1(2) room'(2) by auto
    let ?sh' = "sh\<lparr>sh_buffer := ?b, sh_segments := sl2, sh_wal := wal_truncate (sh_wal sh)\<rparr>"
    have "flush sv sh = Some (Inr (), ?sh')"
      using False
      by (simp add: flush_def bind_zoom_state bind_zoom_modify wb_drain_def
          bind_zoom_run w(1)
          add_segment_put [symmetric] sl1_def [symmetric] op_zoom_def sl2(1))
    moreover have m: "mset (shard_docs sv ?sh') = mset (shard_docs sv sh)"
      by (simp add: shard_docs_def b sl2(4) sl1(3))
    moreover have "shard_ok sv h ?sh'"
      using ok sl2(2) b mset_eq_setD [OF m] by (simp add: shard_ok_def)
    ultimately show ?thesis using sl2(3) sl1(2) b by (intro exI [of _ ?sh']) simp
  qed
qed

section \<open>Writing\<close>

lemma wal_append_batch_ok:
  assumes ok: "wal_ok (sv_wal sv) w" and room: "wal_room sv entries"
  shows "\<exists>w' seqs. append_batch (sv_wal sv) entries w = Some (Inr seqs, w') \<and> wal_ok (sv_wal sv) w' \<and>
    read_all (sv_wal sv) w' = read_all (sv_wal sv) w @ entries \<and> length seqs = length entries"
proof -
  have "\<forall>r \<in> set (numbered_records (wl_next_seq w) entries). record_fits (sv_wal sv) r"
    using room by (auto simp: wal_room_def numbered_records_def in_set_enumerate_eq)
  from append_batch_run [OF ok this] show ?thesis
    by (auto simp: read_all_def numbered_records_entries)
qed

lemma wal_append_ok:
  assumes ok: "wal_ok (sv_wal sv) w" and room: "wal_room sv [e]"
  shows "\<exists>w' seq. wal_append (sv_wal sv) e w = Some (Inr seq, w') \<and> wal_ok (sv_wal sv) w' \<and>
    read_all (sv_wal sv) w' = read_all (sv_wal sv) w @ [e]"
proof -
  obtain w' seqs where w': "append_batch (sv_wal sv) [e] w = Some (Inr seqs, w')" "wal_ok (sv_wal sv) w'"
    "read_all (sv_wal sv) w' = read_all (sv_wal sv) w @ [e]" "length seqs = length [e]"
    using wal_append_batch_ok [OF assms] by blast
  then show ?thesis by (cases seqs) (simp_all add: wal_append_def op_bind_simps(1))
qed

lemma shard_ok_replication [simp]: "shard_ok sv h (sh\<lparr>sh_replication := r\<rparr>) = shard_ok sv h sh"
  by (simp add: shard_ok_def shard_docs_def)

lemma replicate_entry_run: "replicate_entry seq e sh = Some (Inr (), sh\<lparr>sh_replication := map_option (enqueue seq e) (sh_replication sh)\<rparr>)"
  by (simp add: replicate_entry_def)

lemma replicate_all_run: "\<exists>r. op_each (\<lambda>(e, seq). replicate_entry seq e) xs sh = Some (Inr (), sh\<lparr>sh_replication := r\<rparr>)"
proof (induction xs arbitrary: sh)
  case Nil
  show ?case by (intro exI [of _ "sh_replication sh"]) simp
next
  case (Cons x xs)
  obtain e seq where x: "x = (e, seq)" by (cases x)
  show ?case
    using Cons.IH [of "sh\<lparr>sh_replication := map_option (enqueue seq e) (sh_replication sh)\<rparr>"]
    by (simp add: x replicate_entry_run op_bind_simps(1))
qed

lemma add_all_docs:
  "wb_docs (snd (add_all docs full b)) = wb_docs b @ docs"
  "wb_deleted (snd (add_all docs full b)) = wb_deleted b"
  by (induction docs full b rule: add_all.induct) (simp_all add: wb_add_def Let_def)

lemma wb_add_docs [simp]:
  "wb_docs (snd (wb_add doc b)) = wb_docs b @ [doc]" "wb_deleted (snd (wb_add doc b)) = wb_deleted b"
  by (simp_all add: wb_add_def Let_def)

lemma wb_mark_docs [simp]:
  "wb_docs (wb_mark_deleted i b) = wb_docs b" "wb_deleted (wb_mark_deleted i b) = insert i (wb_deleted b)"
  by (simp_all add: wb_mark_deleted_def)

text \<open>The log and the buffer take the same documents.\<close>

lemma shard_room_bitmaps: "shard_room sv sh docs \<Longrightarrow> \<forall>b. codec_ok (ie_bitmap (sv_index sv)) b"
  by (simp add: shard_room_def docs_room_def)

lemma shard_ok_add:
  assumes "shard_ok sv h sh" "wal_ok (sv_wal sv) w"
    and "read_all (sv_wal sv) w = read_all (sv_wal sv) (sh_wal sh) @ map Index docs"
    and "wb_docs b = wb_docs (sh_buffer sh) @ docs" "wb_deleted b = wb_deleted (sh_buffer sh)"
  shows "shard_ok sv (h @ map Index docs) (sh\<lparr>sh_wal := w, sh_replication := r, sh_buffer := b\<rparr>)"
  using assms by (auto simp: shard_ok_def shard_docs_def)

lemma shard_docs_add:
  "shard_docs sv (sh\<lparr>sh_wal := w, sh_replication := r, sh_buffer := b\<rparr>) =
    merged_docs (sv_index sv) (sl_segments (sh_segments sh)) @ wb_docs b"
  by (simp add: shard_docs_def)

lemma flush_if_ok:
  assumes ok: "shard_ok sv h sh" and room: "shard_room sv sh []"
  shows "\<exists>sh'. flush_if sv full sh = Some (Inr (), sh') \<and> shard_ok sv h sh' \<and>
    mset (shard_docs sv sh') = mset (shard_docs sv sh) \<and>
    unat (sl_next_seq (sh_segments sh')) \<le> unat (sl_next_seq (sh_segments sh)) + 2"
  using flush_ok [OF assms] ok by (cases full) (auto simp: flush_if_def)

lemma shard_index_batch_ok:
  assumes ok: "shard_ok sv h sh" and room: "shard_room sv sh docs" "wal_room sv (map Index docs)"
  shows "\<exists>sh'. shard_index_batch sv docs sh = Some (Inr (), sh') \<and> shard_ok sv (h @ map Index docs) sh'"
proof -
  have "wal_ok (sv_wal sv) (sh_wal sh)" using ok by (simp add: shard_ok_def)
  from wal_append_batch_ok [OF this room(2)] obtain w seqs where
    w: "append_batch (sv_wal sv) (map Index docs) (sh_wal sh) = Some (Inr seqs, w)"
    "wal_ok (sv_wal sv) w" "read_all (sv_wal sv) w = read_all (sv_wal sv) (sh_wal sh) @ map Index docs" by blast
  obtain r where r: "op_each (\<lambda>(e, seq). replicate_entry seq e) (zip (map Index docs) seqs) (sh\<lparr>sh_wal := w\<rparr>) =
      Some (Inr (), sh\<lparr>sh_wal := w\<rparr>\<lparr>sh_replication := r\<rparr>)"
    using replicate_all_run by blast
  let ?b = "snd (add_all docs False (sh_buffer sh))" and ?full = "fst (add_all docs False (sh_buffer sh))"
  let ?sh = "sh\<lparr>sh_wal := w, sh_replication := r, sh_buffer := ?b\<rparr>"
  have ok': "shard_ok sv (h @ map Index docs) ?sh"
    by (rule shard_ok_add [OF ok w(2,3)]) (simp_all add: add_all_docs)
  have "shard_room sv ?sh []"
    using room(1) by (simp add: shard_room_def shard_docs_def add_all_docs add.assoc)
  from flush_if_ok [OF ok' this, of ?full] obtain sh' where sh':
    "flush_if sv ?full ?sh = Some (Inr (), sh')" "shard_ok sv (h @ map Index docs) sh'" by blast
  have "shard_index_batch sv docs sh = flush_if sv ?full ?sh"
    using r by (simp add: shard_index_batch_def bind_zoom_run w(1) bind_zoom_state op_bind_simps(1))
  then show ?thesis using sh' by simp
qed

lemma shard_index_ok:
  assumes ok: "shard_ok sv h sh" and room: "shard_room sv sh [doc]" "wal_room sv [Index doc]"
  shows "\<exists>sh'. shard_index sv doc sh = Some (Inr (), sh') \<and> shard_ok sv (h @ [Index doc]) sh' \<and>
    mset (shard_docs sv sh') = add_mset doc (mset (shard_docs sv sh)) \<and>
    unat (sl_next_seq (sh_segments sh')) \<le> unat (sl_next_seq (sh_segments sh)) + 2"
proof -
  have "wal_ok (sv_wal sv) (sh_wal sh)" using ok by (simp add: shard_ok_def)
  from wal_append_ok [OF this room(2)] obtain w seq where
    w: "wal_append (sv_wal sv) (Index doc) (sh_wal sh) = Some (Inr seq, w)"
    "wal_ok (sv_wal sv) w" "read_all (sv_wal sv) w = read_all (sv_wal sv) (sh_wal sh) @ map Index [doc]" by auto
  let ?b = "snd (wb_add doc (sh_buffer sh))" and ?full = "fst (wb_add doc (sh_buffer sh))"
  let ?r = "map_option (enqueue seq (Index doc)) (sh_replication sh)"
  let ?sh = "sh\<lparr>sh_wal := w, sh_replication := ?r, sh_buffer := ?b\<rparr>"
  have ok': "shard_ok sv (h @ map Index [doc]) ?sh"
    by (rule shard_ok_add [OF ok w(2,3)]) simp_all
  have "shard_room sv ?sh []"
    using room(1) by (simp add: shard_room_def shard_docs_def add.assoc)
  from flush_if_ok [OF ok' this, of ?full] obtain sh' where sh':
    "flush_if sv ?full ?sh = Some (Inr (), sh')" "shard_ok sv (h @ [Index doc]) sh'"
    "mset (shard_docs sv sh') = mset (shard_docs sv ?sh)"
    "unat (sl_next_seq (sh_segments sh')) \<le> unat (sl_next_seq (sh_segments ?sh)) + 2" by auto
  have "shard_index sv doc sh = flush_if sv ?full ?sh"
    by (simp add: shard_index_def bind_zoom_run w(1) bind_zoom_state replicate_entry_run op_bind_simps(1))
  then show ?thesis using sh' by (simp add: shard_docs_def)
qed

lemma shard_delete_ok:
  assumes ok: "shard_ok sv h sh" and room: "shard_room sv sh []" "wal_room sv [Delete i]"
  shows "\<exists>sh'. shard_delete sv i sh = Some (Inr (), sh') \<and> shard_ok sv (h @ [Delete i]) sh' \<and>
    shard_docs sv sh' = shard_docs sv sh \<and> sl_next_seq (sh_segments sh') = sl_next_seq (sh_segments sh)"
proof -
  let ?h = "h @ [Delete i]"
  have wal: "wal_ok (sv_wal sv) (sh_wal sh)" using ok by (simp add: shard_ok_def)
  from wal_append_ok [OF this room(2)] obtain w seq where
    w: "wal_append (sv_wal sv) (Delete i) (sh_wal sh) = Some (Inr seq, w)"
    "wal_ok (sv_wal sv) w" "read_all (sv_wal sv) w = read_all (sv_wal sv) (sh_wal sh) @ [Delete i]" by blast
  have "segs_ok (sv_index sv) (sv_schema sv) (deleted_ids h) (sh_segments sh)" using ok by (simp add: shard_ok_def)
  then have "segs_ok (sv_index sv) (sv_schema sv) (deleted_ids ?h) (sh_segments sh)" by (rule segs_ok_mono) auto
  from sl_mark_deleted_ok [OF this, of i] obtain b sl where sl:
    "sl_mark_deleted (sv_index sv) i (sh_segments sh) = Some (Inr b, sl)"
    "segs_ok (sv_index sv) (sv_schema sv) (deleted_ids ?h) sl" "sl_segments sl = sl_segments (sh_segments sh)"
    "sl_next_seq sl = sl_next_seq (sh_segments sh)"
    using room(1) by (auto simp: shard_room_def docs_room_def)
  let ?sh = "sh\<lparr>sh_wal := w, sh_replication := map_option (enqueue seq (Delete i)) (sh_replication sh),
    sh_buffer := wb_mark_deleted i (sh_buffer sh), sh_segments := sl\<rparr>"
  have "shard_delete sv i sh = Some (Inr (), ?sh)"
    by (simp add: shard_delete_def bind_zoom_run w(1) sl(1) bind_zoom_modify replicate_entry_run op_bind_simps(1))
  moreover have "shard_ok sv ?h ?sh"
    using ok sl(2) w(2,3) by (auto simp: shard_ok_def shard_docs_def sl(3))
  ultimately show ?thesis using sl(3,4) by (intro exI [of _ ?sh]) (simp add: shard_docs_def)
qed

section \<open>Reindexing\<close>

lemma live_docs_stored:
  assumes "\<forall>e \<in> set es. \<exists>gone disk. seg_stored env schema gone disk e"
  shows "live_docs_of env es = merged_docs env es"
proof -
  have "List.map_filter (doc_at env (se_reader e)) (sorted_list_of_set (all_live_docs (se_reader e))) =
      map snd (local_docs env (se_reader e))" if e: "e \<in> set es" for e
  proof -
    obtain docs deleted where r: "segment_fits env schema (se_id e) docs"
      "se_reader e = segment_of env schema (se_id e) docs (se_id e) deleted"
      using assms e by (auto simp: seg_stored_def dir_holds_def)
    have n: "length docs < 2 ^ 32" using r(1) by (simp add: segment_fits_def Let_def)
    let ?ids = "filter (\<lambda>i. i \<notin> deleted) (map word_of_nat [0..<length docs]) :: u32 list"
    have u: "i < length docs \<Longrightarrow> unat (word_of_nat i :: u32) = i" for i using n by (simp add: unat_of_nat)
    have "sorted_wrt (<) (map word_of_nat [0..<length docs] :: u32 list)"
      using u by (auto simp: sorted_wrt_iff_nth_less word_less_nat_alt)
    then have "sorted_wrt (<) ?ids" by (rule sorted_wrt_filter)
    then have "sorted ?ids \<and> distinct ?ids" by (simp add: strict_sorted_iff)
    moreover have "all_live_docs (se_reader e) = set ?ids"
    proof -
      have "unat (m_doc_count (sr_meta (se_reader e))) = length docs"
        using n by (simp add: r(2) segment_of_def segment_meta_of_def unat_of_nat)
      then show ?thesis by (auto simp: all_live_docs_def r(2))
    qed
    ultimately have "sorted_list_of_set (all_live_docs (se_reader e)) = ?ids"
      by (simp only: sorted_list_of_set.idem_if_sorted_distinct)
    then have "List.map_filter (doc_at env (se_reader e)) (sorted_list_of_set (all_live_docs (se_reader e))) =
        List.map_filter (doc_at env (se_reader e)) ?ids" by simp
    also have "\<dots> = kept_docs docs deleted"
    proof -
      have f: "filter (\<lambda>i. unat (word_of_nat i :: u32) < length docs \<and> (word_of_nat i :: u32) \<notin> deleted) [0..<length docs] =
          filter (\<lambda>i. (word_of_nat i :: u32) \<notin> deleted) [0..<length docs]"
        by (rule filter_cong) (auto simp: u)
      show ?thesis
        by (simp add: List.map_filter_def kept_docs_def filter_map comp_def r(2) doc_at_segment_of [OF r(1)] f)
          (auto simp: u intro!: map_cong)
    qed
    finally show ?thesis by (simp add: r(2) local_docs_kept [OF r(1)])
  qed
  then show ?thesis by (simp add: live_docs_of_def merged_docs_def cong: map_cong)
qed

text \<open>Reindexing keeps the documents and forgets the deletions.\<close>

lemma reindex_self_ok:
  assumes ok: "shard_ok sv h sh" and room: "shard_room sv sh []"
  shows "\<exists>sh' n. reindex_self sv sh = Some (Inr n, sh') \<and> shard_ok sv h sh' \<and>
    mset (shard_docs sv sh') = mset (shard_docs sv sh) \<and>
    unat (sl_next_seq (sh_segments sh')) \<le> unat (sl_next_seq (sh_segments sh)) + 3 \<and>
    (shard_docs sv sh \<noteq> [] \<longrightarrow> shard_ok sv (map Index (shard_docs sv sh)) sh')"
proof -
  let ?env = "sv_index sv" and ?sc = "sv_schema sv" and ?gone = "deleted_ids h"
  obtain sh1 where sh1: "flush sv sh = Some (Inr (), sh1)" "shard_ok sv h sh1" "wb_docs (sh_buffer sh1) = []"
    "mset (shard_docs sv sh1) = mset (shard_docs sv sh)"
    "unat (sl_next_seq (sh_segments sh1)) \<le> unat (sl_next_seq (sh_segments sh)) + 2"
    "wb_deleted (sh_buffer sh1) = {}"
    using flush_ok [OF assms] by blast
  let ?sl = "sh_segments sh1"
  let ?docs = "merged_docs ?env (sl_segments ?sl)" and ?old = "map se_id (sl_segments ?sl)"
  have segs: "segs_ok ?env ?sc ?gone ?sl" using sh1(2) by (simp add: shard_ok_def)
  then have "\<forall>e \<in> set (sl_segments ?sl). \<exists>gone disk. seg_stored ?env ?sc gone disk e"
    using segs_okD(2) by blast
  then have live: "live_docs_of ?env (sl_segments ?sl) = ?docs" by (rule live_docs_stored)
  have all: "mset ?docs = mset (shard_docs sv sh)" using sh1(3,4) by (simp add: shard_docs_def)
  show ?thesis
  proof (cases "?docs = []")
    case True
    then have "reindex_self sv sh = Some (Inr 0, sh1)"
      by (simp add: reindex_self_def op_bind_simps(1) sh1(1) live)
    then show ?thesis using sh1 all True by auto
  next
    case False
    let ?sid = "fst (next_segment_id ?sl)"
    have fit: "segment_fits ?env ?sc ?sid ?docs"
      by (rule docs_room_fits [of ?env ?sc "mset (shard_docs sv sh)"]) (use room all in \<open>simp_all add: shard_room_def\<close>)
    from write_next_segment [OF segs fit] obtain d where w:
      "write_segment ?env ?sc ?sid ?docs (snd (next_segment_id ?sl)) =
        Some (Inr (entry_of ?env ?sc ?sid ?docs), snd (next_segment_id ?sl)\<lparr>sl_disk := (sl_disk ?sl)(?sid \<mapsto> d)\<rparr>)"
      "segment_files ?env ?sc ?sid ?docs d" "load_deletion_bitmap (ie_bitmap ?env) d = Inr {}" by blast
    have n: "unat (sl_next_seq ?sl) < 2 ^ 64 - 1"
      using sh1(5) room by (simp add: shard_room_def)
    define sl2 where "sl2 = put_segment ?env ?sc ?old ?docs d ?sl"
    have sl2: "segs_ok ?env ?sc {} sl2" "mset (merged_docs ?env (sl_segments sl2)) = mset ?docs"
      using put_segment_all [OF segs n fit w(2,3)] by (simp_all add: sl2_def)
    have nx: "unat (sl_next_seq sl2) = unat (sl_next_seq ?sl) + 1"
      using put_segment_ok(2) [OF segs n fit w(2,3), of ?old] by (simp add: sl2_def subset_iff in_merged_docs)
    let ?sh' = "sh1\<lparr>sh_segments := sl2, sh_wal := wal_truncate (sh_wal sh1)\<rparr>"
    have ids: "sl_segments (snd (next_segment_id ?sl)\<lparr>sl_disk := x\<rparr>) = sl_segments ?sl" for x
      by (simp add: next_segment_id_def)
    have "reindex_self sv sh = Some (Inr (word_of_nat (length ?docs)), ?sh')"
      using False
      by (simp add: reindex_self_def op_bind_simps(1) sh1(1) live bind_zoom_state bind_zoom_modify
          bind_zoom_run w(1) ids sl2_def put_segment_def Let_def)
    moreover have m: "mset (shard_docs sv ?sh') = mset (shard_docs sv sh)"
      using sl2(2) all sh1(3) by (simp add: shard_docs_def)
    moreover have "set (shard_docs sv ?sh') = set (shard_docs sv sh1)"
      using mset_eq_setD [OF sl2(2)] by (simp add: shard_docs_def)
    then have "shard_ok sv h ?sh'"
      using sh1(2,3) segs_ok_mono [OF sl2(1)] by (simp add: shard_ok_def)
    moreover have "shard_ok sv (map Index (shard_docs sv sh)) ?sh'"
      using mset_eq_setD [OF m] sl2(1) sh1(3,6) by (simp add: shard_ok_def)
    ultimately show ?thesis using nx sh1(5) by (intro exI [of _ ?sh'] exI) auto
  qed
qed

section \<open>Restarting\<close>

lemma replay_ok:
  assumes "segs_ok env schema gone sl" "deleted_ids es \<subseteq> gone" "\<forall>b. codec_ok (ie_bitmap env) b"
  shows "\<exists>b' sl'. replay env es (b, sl) = Some (b', sl') \<and> wb_docs b' = wb_docs b @ indexed_docs es \<and>
    wb_deleted b' = wb_deleted b \<union> deleted_ids es \<and> segs_ok env schema gone sl' \<and>
    sl_segments sl' = sl_segments sl"
  using assms
proof (induction es arbitrary: b sl)
  case Nil
  then show ?case by simp
next
  case (Cons e es)
  show ?case
  proof (cases e)
    case (Index doc)
    then show ?thesis using Cons.IH [of sl "snd (wb_add doc b)"] Cons.prems by auto
  next
    case (Delete i)
    then obtain r sl1 where sl1: "sl_mark_deleted env i sl = Some (Inr r, sl1)" "segs_ok env schema gone sl1"
      "sl_segments sl1 = sl_segments sl"
      using sl_mark_deleted_ok [OF Cons.prems(1) _ Cons.prems(3), of i] Cons.prems(2) by auto
    then show ?thesis
      using Cons.IH [of sl1 "wb_mark_deleted i b"] Cons.prems Delete by auto
  qed
qed

lemma restart_ok:
  assumes ok: "shard_ok sv h sh" and bm: "\<forall>b. codec_ok (ie_bitmap (sv_index sv)) b" and role: "sc_role (sv_config sv) = Primary"
  shows "\<exists>sh'. shard_open sv connect (wl_file (sh_wal sh)) (sl_disk (sh_segments sh)) = Some sh' \<and> shard_ok sv h sh'"
proof -
  let ?env = "sv_index sv" and ?sc = "sv_schema sv" and ?gone = "deleted_ids h"
  let ?w = "wal_open (sv_wal sv) (wl_file (sh_wal sh))"
  have wf: "wl_file ?w = wl_file (sh_wal sh)" by (simp add: wal_open_def)
  have wal: "wal_ok (sv_wal sv) ?w" "read_all (sv_wal sv) ?w = read_all (sv_wal sv) (sh_wal sh)"
    using ok by (simp_all add: shard_ok_def wal_ok_def read_all_def wf)
  have "segs_ok ?env ?sc ?gone (sh_segments sh)" using ok by (simp add: shard_ok_def)
  from sl_open_ok [OF this] obtain sl where sl: "sl_open ?env ?sc (sl_disk (sh_segments sh)) = Some sl"
    "segs_ok ?env ?sc ?gone sl"
    "set (merged_docs ?env (sl_segments sl)) \<subseteq> set (merged_docs ?env (sl_segments (sh_segments sh)))"
    "\<forall>doc \<in> set (merged_docs ?env (sl_segments (sh_segments sh))). d_id doc \<notin> ?gone \<longrightarrow>
       doc \<in> set (merged_docs ?env (sl_segments sl))" by blast
  let ?b = "wb_new (sc_write_buffer_size (sv_config sv))" and ?es = "read_all (sv_wal sv) (sh_wal sh)"
  have "deleted_ids ?es \<subseteq> ?gone" using ok by (simp add: shard_ok_def)
  from replay_ok [OF sl(2) this bm, of ?b] obtain b sl' where r: "replay ?env ?es (?b, sl) = Some (b, sl')"
    "wb_docs b = indexed_docs ?es" "wb_deleted b = deleted_ids ?es" "segs_ok ?env ?sc ?gone sl'"
    "sl_segments sl' = sl_segments sl" by (auto simp: wb_new_def)
  have "shard_ok sv h \<lparr>sh_wal = ?w, sh_buffer = b, sh_segments = sl', sh_replication = rep\<rparr>" for rep
    using ok wal r(2,3,4,5) sl(3,4) by (auto simp: shard_ok_def shard_docs_def)
  then show ?thesis
    using role by (simp add: shard_open_def Let_def sl(1) wal(2) r(1))
qed

section \<open>Runs\<close>

text \<open>The states of a primary shard, with the entries it has acknowledged, from an empty disk on;
  a restart opens the shard from what is on disk.\<close>

inductive shard_run :: "shard_env \<Rightarrow> (string \<Rightarrow> primary) \<Rightarrow> wal_entry list \<Rightarrow> shard \<Rightarrow> bool"
  for sv connect where
  run_new: "shard_open sv connect [] Map.empty = Some sh \<Longrightarrow> shard_run sv connect [] sh"
| run_index: "shard_run sv connect h sh \<Longrightarrow> shard_room sv sh [doc] \<Longrightarrow> wal_room sv [Index doc] \<Longrightarrow>
    shard_index sv doc sh = Some (r, sh') \<Longrightarrow> shard_run sv connect (h @ [Index doc]) sh'"
| run_batch: "shard_run sv connect h sh \<Longrightarrow> shard_room sv sh docs \<Longrightarrow> wal_room sv (map Index docs) \<Longrightarrow>
    shard_index_batch sv docs sh = Some (r, sh') \<Longrightarrow> shard_run sv connect (h @ map Index docs) sh'"
| run_delete: "shard_run sv connect h sh \<Longrightarrow> shard_room sv sh [] \<Longrightarrow> wal_room sv [Delete i] \<Longrightarrow>
    shard_delete sv i sh = Some (r, sh') \<Longrightarrow> shard_run sv connect (h @ [Delete i]) sh'"
| run_flush: "shard_run sv connect h sh \<Longrightarrow> shard_room sv sh [] \<Longrightarrow>
    flush sv sh = Some (r, sh') \<Longrightarrow> shard_run sv connect h sh'"
| run_reindex: "shard_run sv connect h sh \<Longrightarrow> shard_room sv sh [] \<Longrightarrow>
    reindex_self sv sh = Some (r2, sh') \<Longrightarrow> shard_run sv connect h sh'"
| run_search: "shard_run sv connect h sh \<Longrightarrow> shard_room sv sh [] \<Longrightarrow>
    shard_search sv request sh = Some (r3, sh') \<Longrightarrow> shard_run sv connect h sh'"
| run_restart: "shard_run sv connect h sh \<Longrightarrow> shard_room sv sh [] \<Longrightarrow>
    shard_open sv connect (wl_file (sh_wal sh)) (sl_disk (sh_segments sh)) = Some sh' \<Longrightarrow>
    shard_run sv connect h sh'"

lemma shard_open_new:
  assumes "sc_role (sv_config sv) = Primary"
  shows "\<exists>rep. shard_open sv connect [] Map.empty = Some \<lparr>sh_wal = \<lparr>wl_file = [], wl_next_seq = 0\<rparr>,
      sh_buffer = wb_new (sc_write_buffer_size (sv_config sv)),
      sh_segments = \<lparr>sl_segments = [], sl_doc_map = Map.empty, sl_next_seq = 1, sl_disk = Map.empty\<rparr>,
      sh_replication = rep\<rparr>"
  using assms by (simp add: shard_open_def Let_def sl_open_def wal_open_def read_all_def)

lemma shard_ok_new:
  "shard_ok sv [] \<lparr>sh_wal = \<lparr>wl_file = [], wl_next_seq = 0\<rparr>, sh_buffer = wb_new n,
      sh_segments = \<lparr>sl_segments = [], sl_doc_map = Map.empty, sl_next_seq = 1, sl_disk = Map.empty\<rparr>,
      sh_replication = rep\<rparr>"
proof -
  have "wal_ok (sv_wal sv) \<lparr>wl_file = [], wl_next_seq = 0\<rparr>"
    by (auto simp: wal_ok_def wal_bytes_def intro!: exI [of _ "[]"])
  then show ?thesis
    by (simp add: shard_ok_def segs_ok_def sl_wf_def shard_docs_def wb_new_def read_all_def)
qed

text \<open>A search changes nothing but the temporary segment of the buffer.\<close>

lemma op_keeps_if: "op_keeps P m \<Longrightarrow> op_keeps P m' \<Longrightarrow> op_keeps P (if c then m else m')"
  by simp

lemma reader_and_stats_keeps:
  "op_keeps (\<lambda>b. wb_docs b = docs \<and> wb_deleted b = gone) (reader_and_stats env schema)"
  unfolding reader_and_stats_def rebuild_segment_def
  by (intro op_keeps_bind op_keeps_basic op_keeps_if op_keeps_modify) simp_all

lemma shard_search_state:
  assumes "shard_search sv request sh = Some (r, sh')"
  shows "\<exists>b. sh' = sh\<lparr>sh_buffer := b\<rparr> \<and> wb_docs b = wb_docs (sh_buffer sh) \<and> wb_deleted b = wb_deleted (sh_buffer sh)"
proof -
  obtain r1 b where run: "reader_and_stats (sv_index sv) (sv_schema sv) (sh_buffer sh) = Some (r1, b)"
    and sh': "sh' = sh\<lparr>sh_buffer := b\<rparr>"
    using assms by (auto simp: shard_search_def op_bind_def op_zoom_def op_option_def split: option.splits sum.splits)
  have "wb_docs b = wb_docs (sh_buffer sh) \<and> wb_deleted b = wb_deleted (sh_buffer sh)"
    by (rule op_keepsD [OF reader_and_stats_keeps _ run]) simp
  then show ?thesis using sh' by blast
qed

lemma shard_search_ok: "shard_ok sv h sh \<Longrightarrow> shard_search sv request sh = Some (r, sh') \<Longrightarrow> shard_ok sv h sh'"
  using shard_search_state [of sv request sh r sh'] by (auto simp: shard_ok_def shard_docs_def)

lemma shard_search_room:
  "shard_search sv request sh = Some (r, sh') \<Longrightarrow> shard_room sv sh' docs = shard_room sv sh docs"
  using shard_search_state [of sv request sh r sh'] by (auto simp: shard_room_def shard_docs_def)

lemma shard_room_buffer: "shard_room sv sh docs \<Longrightarrow> buffer_fits (sv_index sv) (sv_schema sv) (sh_buffer sh)"
proof -
  assume "shard_room sv sh docs"
  then have room: "docs_room (sv_index sv) (sv_schema sv) (mset (shard_docs sv sh @ docs))"
    by (simp add: shard_room_def)
  have "mset (wb_all_docs (sh_buffer sh)) \<subseteq># mset (wb_docs (sh_buffer sh))"
    by (simp add: wb_all_docs_def)
  then have "mset (wb_all_docs (sh_buffer sh)) \<subseteq># mset (shard_docs sv sh @ docs)"
    by (rule subset_mset.order_trans) (simp add: shard_docs_def)
  from docs_room_fits [OF room this] show ?thesis by (simp add: buffer_fits_def)
qed

lemma shard_run_ok:
  assumes "shard_run sv connect h sh" "sc_role (sv_config sv) = Primary"
  shows "shard_ok sv h sh"
  using assms
proof (induction rule: shard_run.induct)
  case (run_new sh)
  then show ?case using shard_open_new [of sv connect] shard_ok_new [of sv] by auto
next
  case (run_index h sh doc r sh')
  then show ?case using shard_index_ok by fastforce
next
  case (run_batch h sh docs r sh')
  then show ?case using shard_index_batch_ok by fastforce
next
  case (run_delete h sh i r sh')
  then show ?case using shard_delete_ok by fastforce
next
  case (run_flush h sh r sh')
  then show ?case using flush_ok by fastforce
next
  case (run_reindex h sh r2 sh')
  then show ?case using reindex_self_ok by fastforce
next
  case (run_search h sh request r3 sh')
  then show ?case using shard_search_ok by blast
next
  case (run_restart h sh sh')
  then show ?case using restart_ok [OF _ shard_room_bitmaps, of sv h sh sh "[]" connect] by auto
qed

text \<open>What the reading operations see.\<close>

lemma get_docs_some:
  assumes wf: "sl_wf (sv_index sv) (sh_segments sh)"
    and here: "sl_get_doc (sv_index sv) (sh_segments sh) i \<noteq> None \<or> (\<exists>d \<in> set (wb_docs (sh_buffer sh)). d_id d = i)"
    and stored: "\<forall>e \<in> set (sl_segments (sh_segments sh)). \<exists>gone disk. seg_stored (sv_index sv) schema gone disk e"
  shows "\<exists>d \<in> set (shard_docs sv sh). d_id d = i \<and> shard_get_docs sv [i] sh = [d]"
proof (cases "sl_get_doc (sv_index sv) (sh_segments sh) i")
  case None
  then have "List.find (\<lambda>d. d_id d = i) (wb_docs (sh_buffer sh)) \<noteq> None"
    using here by (auto simp: find_None_iff)
  then obtain d where d: "List.find (\<lambda>d. d_id d = i) (wb_docs (sh_buffer sh)) = Some d" by blast
  then show ?thesis
    using None by (intro bexI [of _ d]) (auto simp: shard_get_docs_def List.map_filter_def shard_docs_def dest: find_Some_mem)
next
  case (Some d)
  then obtain loc e where loc: "sl_doc_map (sh_segments sh) i = Some loc"
    "find_segment (loc_segment loc) (sh_segments sh) = Some e"
    "doc_at (sv_index sv) (se_reader e) (loc_local loc) = Some d"
    by (auto simp: sl_get_doc_def split: option.splits)
  moreover have e: "e \<in> set (sl_segments (sh_segments sh))"
    using loc(2) by (auto simp: find_segment_def dest: find_Some_mem)
  moreover have "d_id d = i" using wf loc unfolding sl_wf_def by force
  moreover have "d \<in> set (map snd (local_docs (sv_index sv) (se_reader e)))"
    using stored e doc_at_stored [OF _ loc(3)] by blast
  ultimately show ?thesis
    using Some by (intro bexI [of _ d])
      (auto simp: shard_get_docs_def List.map_filter_def shard_docs_def in_merged_docs simp del: set_map)
qed

lemma shard_ok_reads:
  assumes ok: "shard_ok sv h sh"
  shows "set (get_all_live_docs sv sh) \<subseteq> set (indexed_docs h)"
    and "doc \<in> set (indexed_docs h) \<Longrightarrow> d_id doc \<notin> deleted_ids h \<Longrightarrow>
      doc \<in> set (get_all_live_docs sv sh) \<and>
      (\<exists>d \<in> set (indexed_docs h). d_id d = d_id doc \<and> shard_get_docs sv [d_id doc] sh = [d])"
proof -
  have segs: "segs_ok (sv_index sv) (sv_schema sv) (deleted_ids h) (sh_segments sh)"
    using ok by (simp add: shard_ok_def)
  then have st: "\<forall>e \<in> set (sl_segments (sh_segments sh)). \<exists>gone disk. seg_stored (sv_index sv) (sv_schema sv) gone disk e"
    using segs_okD(2) by blast
  have live: "get_all_live_docs sv sh =
      merged_docs (sv_index sv) (sl_segments (sh_segments sh)) @ wb_all_docs (sh_buffer sh)"
    by (simp add: get_all_live_docs_def live_docs_stored [OF st])
  show "set (get_all_live_docs sv sh) \<subseteq> set (indexed_docs h)"
    using ok by (auto simp: live shard_ok_def shard_docs_def wb_all_docs_def)
  assume doc: "doc \<in> set (indexed_docs h)" "d_id doc \<notin> deleted_ids h"
  then have mem: "doc \<in> set (shard_docs sv sh)" using ok by (simp add: shard_ok_def)
  then have "doc \<in> set (get_all_live_docs sv sh)"
    using ok doc(2) by (auto simp: live shard_docs_def wb_all_docs_def shard_ok_def)
  moreover have "sl_get_doc (sv_index sv) (sh_segments sh) (d_id doc) \<noteq> None \<or>
      (\<exists>d \<in> set (wb_docs (sh_buffer sh)). d_id d = d_id doc)"
    using mem segs_okD(5) [OF segs _ doc(2)] by (auto simp: shard_docs_def)
  note get_docs_some [OF segs_okD(1) [OF segs] this st]
  moreover have "set (shard_docs sv sh) \<subseteq> set (indexed_docs h)" using ok by (simp add: shard_ok_def)
  ultimately show "doc \<in> set (get_all_live_docs sv sh) \<and>
      (\<exists>d \<in> set (indexed_docs h). d_id d = d_id doc \<and> shard_get_docs sv [d_id doc] sh = [d])"
    by blast
qed

section \<open>Properties\<close>

text \<open>
  C3: no acknowledged document is lost: whatever sequence of single and batch indexing, deletions,
  flushes with their merges, reindexings, searches and restarts from disk a primary shard has gone through,
  every document that was indexed and whose id was never deleted is among its live documents, a
  lookup of its id finds a document indexed under it, and nothing that was not indexed appears.
\<close>
theorem shard_keeps_documents:
  assumes "shard_run sv connect h sh" "sc_role (sv_config sv) = Primary"
  shows "set (get_all_live_docs sv sh) \<subseteq> set (indexed_docs h) \<and>
    (\<forall>doc \<in> set (indexed_docs h). d_id doc \<notin> deleted_ids h \<longrightarrow>
       doc \<in> set (get_all_live_docs sv sh) \<and>
       (\<exists>d \<in> set (indexed_docs h). d_id d = d_id doc \<and> shard_get_docs sv [d_id doc] sh = [d]))"
  using shard_ok_reads [OF shard_run_ok [OF assms]] by blast

text \<open>
  C18: the operations of a primary shard succeed: in every reachable state, as long as the documents
  fit the formats, indexing one or many documents, deleting an id, flushing, reindexing and opening
  the shard again from disk all return, and without an error.
\<close>
theorem shard_operations_succeed:
  assumes "shard_run sv connect h sh" "sc_role (sv_config sv) = Primary"
    and "shard_room sv sh docs" "shard_room sv sh [doc]" "shard_room sv sh []"
    and "wal_room sv (Delete i # Index doc # map Index docs)"
  shows "(\<exists>sh'. shard_index sv doc sh = Some (Inr (), sh')) \<and>
    (\<exists>sh'. shard_index_batch sv docs sh = Some (Inr (), sh')) \<and>
    (\<exists>sh'. shard_delete sv i sh = Some (Inr (), sh')) \<and>
    (\<exists>sh'. flush sv sh = Some (Inr (), sh')) \<and>
    (\<exists>n sh'. reindex_self sv sh = Some (Inr n, sh')) \<and>
    (\<exists>sh'. shard_open sv connect (wl_file (sh_wal sh)) (sl_disk (sh_segments sh)) = Some sh')"
proof -
  note ok = shard_run_ok [OF assms(1,2)]
  have wal: "wal_room sv [Index doc]" "wal_room sv (map Index docs)" "wal_room sv [Delete i]"
    using assms(6) by (auto simp: wal_room_def)
  show ?thesis
    using shard_index_ok [OF ok assms(4) wal(1)] shard_index_batch_ok [OF ok assms(3) wal(2)]
      shard_delete_ok [OF ok assms(5) wal(3)] flush_ok [OF ok assms(5)] reindex_self_ok [OF ok assms(5)]
      restart_ok [OF ok shard_room_bitmaps [OF assms(5)] assms(2), of connect] by blast
qed

text \<open>
  C26: a deletion is undone by the next rewriting of the segments: a document that the shard holds and
  that is then deleted is back among the live documents after a reindexing, a lookup of its id
  succeeds again, and a restart does not help, since the log that recorded the deletion has been
  truncated.
\<close>
theorem deletion_undone_by_reindexing:
  assumes "shard_run sv connect h sh" "sc_role (sv_config sv) = Primary"
    and "doc \<in> set (shard_docs sv sh)" "shard_room sv sh []" "wal_room sv [Delete (d_id doc)]"
  shows "\<exists>sh1 sh2 sh3 n d. shard_delete sv (d_id doc) sh = Some (Inr (), sh1) \<and>
    reindex_self sv sh1 = Some (Inr n, sh2) \<and>
    doc \<in> set (get_all_live_docs sv sh2) \<and> shard_get_docs sv [d_id doc] sh2 = [d] \<and>
    shard_open sv connect (wl_file (sh_wal sh2)) (sl_disk (sh_segments sh2)) = Some sh3 \<and>
    doc \<in> set (get_all_live_docs sv sh3)"
proof -
  note ok = shard_run_ok [OF assms(1,2)]
  obtain sh1 where sh1: "shard_delete sv (d_id doc) sh = Some (Inr (), sh1)"
    "shard_ok sv (h @ [Delete (d_id doc)]) sh1" "shard_docs sv sh1 = shard_docs sv sh"
    "sl_next_seq (sh_segments sh1) = sl_next_seq (sh_segments sh)"
    using shard_delete_ok [OF ok assms(4,5)] by blast
  have room1: "shard_room sv sh1 []" using assms(4) by (simp add: shard_room_def sh1(3,4))
  have "shard_docs sv sh1 \<noteq> []" using assms(3) sh1(3) by auto
  then obtain sh2 n where sh2: "reindex_self sv sh1 = Some (Inr n, sh2)"
    "shard_ok sv (map Index (shard_docs sv sh)) sh2"
    using reindex_self_ok [OF sh1(2) room1] sh1(3) by auto
  obtain sh3 where sh3: "shard_open sv connect (wl_file (sh_wal sh2)) (sl_disk (sh_segments sh2)) = Some sh3"
    "shard_ok sv (map Index (shard_docs sv sh)) sh3"
    using restart_ok [OF sh2(2) shard_room_bitmaps [OF assms(4)] assms(2), of connect] by blast
  have "doc \<in> set (indexed_docs (map Index (shard_docs sv sh)))" "d_id doc \<notin> deleted_ids (map Index (shard_docs sv sh))"
    using assms(3) by simp_all
  from shard_ok_reads(2) [OF sh2(2) this] shard_ok_reads(2) [OF sh3(2) this] show ?thesis
    using sh1(1) sh2(1) sh3(1) by blast
qed

text \<open>
  C7: the state of a primary shard is well-formed in every reachable state: the segments have distinct
  names, numbered below the next one, and exactly their directories are on disk; every open segment
  is a segment of some documents, its directory opens to a segment of the same documents, which
  hides at least what the open one hides, and nothing but documents whose id was deleted; the map of
  documents points to open segments, at a document with the id; and the log consists of whole records, of
  which those that index documents are the content of the write buffer.
\<close>
theorem shard_state_wellformed:
  assumes "shard_run sv connect h sh" "sc_role (sv_config sv) = Primary"
  defines "env \<equiv> sv_index sv" and "schema \<equiv> sv_schema sv" and "sl \<equiv> sh_segments sh"
  shows "distinct (map se_id (sl_segments sl)) \<and> dom (sl_disk sl) = se_id ` set (sl_segments sl) \<and>
    (\<forall>e \<in> set (sl_segments sl). (\<exists>k < unat (sl_next_seq sl). se_id e = seg_name k) \<and>
       (\<exists>docs shown hidden d. se_reader e = segment_of env schema (se_id e) docs (se_id e) shown \<and>
          sl_disk sl (se_id e) = Some d \<and>
          segment_open env (se_dir e) d = Some (Inr (segment_of env schema (se_id e) docs (se_id e) hidden)) \<and>
          shown \<subseteq> hidden \<and> (\<forall>i < length docs. word_of_nat i \<in> hidden \<longrightarrow> d_id (docs ! i) \<in> deleted_ids h))) \<and>
    (\<forall>i loc. sl_doc_map sl i = Some loc \<longrightarrow>
       (\<exists>e \<in> set (sl_segments sl). \<exists>doc. se_id e = loc_segment loc \<and>
          doc_at env (se_reader e) (loc_local loc) = Some doc \<and> d_id doc = i)) \<and>
    wal_ok (sv_wal sv) (sh_wal sh) \<and> indexed_docs (read_all (sv_wal sv) (sh_wal sh)) = wb_docs (sh_buffer sh)"
proof -
  have ok: "shard_ok sv h sh" by (rule shard_run_ok [OF assms(1,2)])
  then have segs: "segs_ok env schema (deleted_ids h) sl" by (simp add: shard_ok_def env_def schema_def sl_def)
  have seg: "\<exists>docs shown hidden d. se_reader e = segment_of env schema (se_id e) docs (se_id e) shown \<and>
      sl_disk sl (se_id e) = Some d \<and>
      segment_open env (se_dir e) d = Some (Inr (segment_of env schema (se_id e) docs (se_id e) hidden)) \<and>
      shown \<subseteq> hidden \<and> (\<forall>i < length docs. word_of_nat i \<in> hidden \<longrightarrow> d_id (docs ! i) \<in> deleted_ids h)"
    if e: "e \<in> set (sl_segments sl)" for e
  proof -
    obtain docs shown hidden d where st: "sl_disk sl (se_id e) = Some d"
      "dir_holds env schema (deleted_ids h) (se_id e) docs hidden d" "shown \<subseteq> hidden" "se_dir e = se_id e"
      "se_reader e = segment_of env schema (se_id e) docs (se_id e) shown"
      using segs_okD(2) [OF segs e] unfolding seg_stored_def by blast
    then show ?thesis
      using dir_holds_open [OF st(2)] by (intro exI [of _ docs] exI [of _ shown] exI [of _ hidden] exI [of _ d])
        (simp add: dir_holds_def)
  qed
  have map: "\<exists>e \<in> set (sl_segments sl). \<exists>doc. se_id e = loc_segment loc \<and>
      doc_at env (se_reader e) (loc_local loc) = Some doc \<and> d_id doc = i" if "sl_doc_map sl i = Some loc" for i loc
    using segs_okD(1) [OF segs] that find_Some_mem unfolding sl_wf_def find_segment_def by fastforce
  show ?thesis
    using segs_okD(1) [OF segs] segs_okD(3,4) [OF segs] seg map ok
    by (intro conjI ballI allI impI) (simp_all add: sl_wf_def shard_ok_def)
qed

section \<open>An example\<close>

text \<open>A codec for the log records of one document and its deletion.\<close>

definition example_wal_codec :: "wal_record codec" where
  "example_wal_codec =
     \<lparr>ser = (\<lambda>r. Inr (u64_le (wr_seq r) @ (case wr_entry r of Index doc \<Rightarrow> [] | Delete i \<Rightarrow> [1]))),
      de = (\<lambda>data. Inr \<lparr>wr_seq = u64_from_le (take 8 data),
        wr_entry = (if length data = 8 then Index (example_doc 7) else Delete 7)\<rparr>)\<rparr>"

definition example_shard_env :: shard_env where
  "example_shard_env =
     \<lparr>sv_query = example_query_env, sv_wal = example_wal_codec, sv_schema = default_product_schema,
      sv_config = default_shard_config\<rparr>"

definition no_primary :: "string \<Rightarrow> primary" where
  "no_primary endpoint =
     \<lparr>pr_connect = Inl ''down'', pr_catch_up = (\<lambda>n. Inl ''down''), pr_full_sync = Inl ''down''\<rparr>"

lemma example_role: "sc_role (sv_config example_shard_env) = Primary"
  by (simp add: example_shard_env_def default_shard_config_def)

lemma example_wal_room: "set entries \<subseteq> {Index (example_doc 7), Delete 7} \<Longrightarrow> wal_room example_shard_env entries"
  by (auto simp: wal_room_def example_shard_env_def record_fits_def codec_ok_def example_wal_codec_def encoding_def
      split: wal_entry.split)

lemma example_docs_room:
  assumes "m \<subseteq># {#example_doc 7#}"
  shows "docs_room example_env default_product_schema m"
proof -
  have "ds = [] \<or> ds = [example_doc 7]" if "mset ds \<subseteq># m" for ds
  proof -
    have "mset ds \<subseteq># {#example_doc 7#}" using that assms by (rule subset_mset.order_trans)
    moreover from size_mset_mono [OF this] have "length ds \<le> 1" by simp
    ultimately show ?thesis by (cases ds) auto
  qed
  moreover have "codec_ok (ie_bitmap example_env) b" for b
    using example_bitmap_codec_ok by (simp add: example_env_def)
  ultimately show ?thesis
    unfolding docs_room_def using example_segment_fits example_segment_fits_Nil by blast
qed

text \<open>A new shard, and the shard after one document.\<close>

lemma example_new_shard:
  "\<exists>sh. shard_run example_shard_env no_primary [] sh \<and> shard_docs example_shard_env sh = [] \<and>
    shard_room example_shard_env sh [] \<and> shard_room example_shard_env sh [example_doc 7] \<and>
    sl_next_seq (sh_segments sh) = 1"
proof -
  obtain rep where o: "shard_open example_shard_env no_primary [] Map.empty = Some \<lparr>sh_wal = \<lparr>wl_file = [], wl_next_seq = 0\<rparr>,
      sh_buffer = wb_new (sc_write_buffer_size (sv_config example_shard_env)),
      sh_segments = \<lparr>sl_segments = [], sl_doc_map = Map.empty, sl_next_seq = 1, sl_disk = Map.empty\<rparr>,
      sh_replication = rep\<rparr>" (is "_ = Some ?sh")
    using shard_open_new [OF example_role, of no_primary] by blast
  have "docs_room (sv_index example_shard_env) (sv_schema example_shard_env) m"
    if "m \<subseteq># {#example_doc 7#}" for m
    using example_docs_room [OF that] by (simp add: example_shard_env_def)
  then show ?thesis
    using run_new [OF o] by (intro exI [of _ ?sh]) (simp add: shard_docs_def wb_new_def shard_room_def)
qed

lemma example_indexed_shard:
  "\<exists>sh. shard_run example_shard_env no_primary [Index (example_doc 7)] sh \<and>
    example_doc 7 \<in> set (shard_docs example_shard_env sh) \<and> shard_room example_shard_env sh []"
proof -
  obtain sh where sh: "shard_run example_shard_env no_primary [] sh" "shard_docs example_shard_env sh = []"
    "shard_room example_shard_env sh [example_doc 7]" "sl_next_seq (sh_segments sh) = 1"
    using example_new_shard by blast
  have wal: "wal_room example_shard_env [Index (example_doc 7)]" by (rule example_wal_room) simp
  note ok = shard_run_ok [OF sh(1) example_role]
  from shard_index_ok [OF ok sh(3) wal] obtain sh' where sh':
    "shard_index example_shard_env (example_doc 7) sh = Some (Inr (), sh')"
    "mset (shard_docs example_shard_env sh') = {#example_doc 7#}"
    "unat (sl_next_seq (sh_segments sh')) \<le> unat (sl_next_seq (sh_segments sh)) + 2"
    using sh(2) by auto
  have "shard_run example_shard_env no_primary ([] @ [Index (example_doc 7)]) sh'"
    by (rule run_index [OF sh(1,3) wal sh'(1)])
  moreover have "example_doc 7 \<in> set (shard_docs example_shard_env sh')"
    using mset_eq_setD [of "shard_docs example_shard_env sh'" "[example_doc 7]"] sh'(2) by simp
  moreover have "shard_room example_shard_env sh' []"
    using sh'(2,3) sh(4) example_docs_room [of "mset (shard_docs example_shard_env sh')"]
    by (simp add: shard_room_def) (simp add: example_shard_env_def)
  ultimately show ?thesis by auto
qed

theorem shard_keeps_documents_witness:
  "\<exists>sh. shard_run example_shard_env no_primary [Index (example_doc 7)] sh \<and>
    example_doc 7 \<in> set (get_all_live_docs example_shard_env sh)"
proof -
  obtain sh where "shard_run example_shard_env no_primary [Index (example_doc 7)] sh"
    using example_indexed_shard by blast
  with shard_keeps_documents [OF this example_role] show ?thesis by auto
qed

theorem shard_operations_succeed_witness:
  "\<exists>sh sh'. shard_run example_shard_env no_primary [] sh \<and>
    shard_index example_shard_env (example_doc 7) sh = Some (Inr (), sh')"
proof -
  obtain sh where sh: "shard_run example_shard_env no_primary [] sh" "shard_room example_shard_env sh []"
    "shard_room example_shard_env sh [example_doc 7]"
    using example_new_shard by blast
  have "wal_room example_shard_env (Delete 7 # Index (example_doc 7) # map Index [])"
    by (rule example_wal_room) simp
  from shard_operations_succeed [OF sh(1) example_role sh(2,3,2) this] show ?thesis using sh(1) by blast
qed

theorem deletion_undone_by_reindexing_witness:
  "\<exists>sh sh1 sh2 n. shard_delete example_shard_env 7 sh = Some (Inr (), sh1) \<and>
    reindex_self example_shard_env sh1 = Some (Inr n, sh2) \<and>
    example_doc 7 \<in> set (get_all_live_docs example_shard_env sh2)"
proof -
  obtain sh where sh: "shard_run example_shard_env no_primary [Index (example_doc 7)] sh"
    "example_doc 7 \<in> set (shard_docs example_shard_env sh)" "shard_room example_shard_env sh []"
    using example_indexed_shard by blast
  have id: "d_id (example_doc 7) = 7" by (simp add: example_doc_def)
  have "wal_room example_shard_env [Delete (d_id (example_doc 7))]" unfolding id by (rule example_wal_room) simp
  from deletion_undone_by_reindexing [OF sh(1) example_role sh(2,3) this] show ?thesis
    unfolding id by blast
qed

theorem shard_state_wellformed_witness:
  "\<exists>sh. shard_run example_shard_env no_primary [Index (example_doc 7)] sh \<and>
    wal_ok (sv_wal example_shard_env) (sh_wal sh) \<and>
    dom (sl_disk (sh_segments sh)) = se_id ` set (sl_segments (sh_segments sh))"
proof -
  obtain sh where sh: "shard_run example_shard_env no_primary [Index (example_doc 7)] sh"
    using example_indexed_shard by blast
  with shard_state_wellformed [OF this example_role] show ?thesis by blast
qed

end
