(* ===== verification/ReplicaState.thy ===== *)
theory ReplicaState
  imports ShardGrpc Durability
begin

text \<open>
  What a replica holds: the entries that reach it through \<open>Replicate\<close>, the catch-up and the full
  synchronisation (\<open>replication.rs\<close>, \<open>grpc_server.rs\<close> and \<open>shard.rs\<close> in \<open>crates/shard/src\<close>).  A replica has
  no log of its own; it does to its buffer and its segments what a primary does that writes the same
  entries to its log first, and so the invariant of a primary holds of it with an imagined log.
\<close>

section \<open>Methods that do not look at the log\<close>

definition same_data :: "shard \<Rightarrow> shard \<Rightarrow> bool" where
  "same_data a b \<longleftrightarrow> sh_buffer a = sh_buffer b \<and> sh_segments a = sh_segments b"

text \<open>The method answers the same and does the same to buffer and segments, whatever log and channels are.\<close>

definition logless :: "(shard, 'a) op \<Rightarrow> bool" where
  "logless m \<longleftrightarrow> (\<forall>a b r a'. same_data a b \<longrightarrow> m a = Some (r, a') \<longrightarrow> (\<exists>b'. m b = Some (r, b') \<and> same_data a' b'))"

lemma loglessD: "logless m \<Longrightarrow> same_data a b \<Longrightarrow> m a = Some (r, a') \<Longrightarrow> \<exists>b'. m b = Some (r, b') \<and> same_data a' b'"
  unfolding logless_def by blast

named_theorems logless_intros \<open>methods that do not look at the log\<close>

lemma same_data_refl [simp]: "same_data a a"
  by (simp add: same_data_def)

lemma same_data_sym: "same_data a b \<Longrightarrow> same_data b a"
  by (simp add: same_data_def)

lemma same_data_updates [simp]:
  "same_data (a\<lparr>sh_wal := w\<rparr>) b = same_data a b" "same_data (a\<lparr>sh_replication := r\<rparr>) b = same_data a b"
  "same_data b (a\<lparr>sh_wal := w\<rparr>) = same_data b a" "same_data b (a\<lparr>sh_replication := r\<rparr>) = same_data b a"
  by (simp_all add: same_data_def)

lemma logless_return [logless_intros]: "logless (op_return x)"
  by (simp add: logless_def)

lemma logless_bind [logless_intros]:
  assumes "logless m" "\<And>x. logless (f x)"
  shows "logless (op_bind m f)"
  unfolding logless_def
proof (intro allI impI)
  fix a b r a' assume ab: "same_data a b" and run: "op_bind m f a = Some (r, a')"
  obtain r1 a1 where m: "m a = Some (r1, a1)" using run by (cases "m a") (auto simp: op_bind_def)
  obtain b1 where b1: "m b = Some (r1, b1)" "same_data a1 b1" using loglessD [OF assms(1) ab m] by blast
  show "\<exists>b'. op_bind m f b = Some (r, b') \<and> same_data a' b'"
  proof (cases r1)
    case (Inl e)
    then show ?thesis using run m b1 by (auto simp: op_bind_def)
  next
    case (Inr x)
    then have "f x a1 = Some (r, a')" using run m by (simp add: op_bind_def)
    from loglessD [OF assms(2) b1(2) this] show ?thesis using b1(1) Inr by (simp add: op_bind_def)
  qed
qed

lemma logless_zoom [logless_intros]:
  "logless (on_buffer mb)" "logless (on_segments ms)" "logless (on_wal (op_modify f))"
  by (auto simp: logless_def op_zoom_def same_data_def split: option.splits)

lemma logless_if [logless_intros]: "logless m \<Longrightarrow> logless m' \<Longrightarrow> logless (if c then m else m')"
  by simp

lemma logless_each [logless_intros]: "(\<And>x. logless (f x)) \<Longrightarrow> logless (op_each f xs)"
  by (induction xs) (auto intro: logless_intros)

lemma logless_flush [logless_intros]: "logless (flush sv)"
  unfolding flush_def case_prod_beta by (intro logless_intros)

lemma logless_apply: "logless (apply_replicated sv e)"
  unfolding apply_replicated_def flush_if_def by (cases e) (auto intro!: logless_intros)

section \<open>The invariant of a replica\<close>

definition replica_ok :: "shard_env \<Rightarrow> wal_entry list \<Rightarrow> shard \<Rightarrow> bool" where
  "replica_ok sv h sh \<longleftrightarrow> (\<exists>shp. shard_ok sv h shp \<and> same_data shp sh)"

lemma same_data_reads:
  assumes "same_data a b"
  shows "shard_docs sv a = shard_docs sv b" "get_all_live_docs sv a = get_all_live_docs sv b"
    "shard_get_docs sv ids a = shard_get_docs sv ids b" "shard_room sv a docs = shard_room sv b docs"
proof -
  have "sh_buffer a = sh_buffer b" "sh_segments a = sh_segments b" using assms by (simp_all add: same_data_def)
  then show "shard_docs sv a = shard_docs sv b" "get_all_live_docs sv a = get_all_live_docs sv b"
    "shard_get_docs sv ids a = shard_get_docs sv ids b" "shard_room sv a docs = shard_room sv b docs"
    by (simp_all only: shard_docs_def get_all_live_docs_def shard_get_docs_def shard_room_def)
qed

lemma replica_ok_reads:
  assumes "replica_ok sv h sh"
  shows "set (get_all_live_docs sv sh) \<subseteq> set (indexed_docs h)"
    and "doc \<in> set (indexed_docs h) \<Longrightarrow> d_id doc \<notin> deleted_ids h \<Longrightarrow>
      doc \<in> set (get_all_live_docs sv sh) \<and>
      (\<exists>d \<in> set (indexed_docs h). d_id d = d_id doc \<and> shard_get_docs sv [d_id doc] sh = [d])"
proof -
  obtain shp where shp: "shard_ok sv h shp" "same_data shp sh" using assms unfolding replica_ok_def by blast
  show "set (get_all_live_docs sv sh) \<subseteq> set (indexed_docs h)"
    using shard_ok_reads(1) [OF shp(1)] same_data_reads(2) [OF shp(2)] by simp
  assume "doc \<in> set (indexed_docs h)" "d_id doc \<notin> deleted_ids h"
  from shard_ok_reads(2) [OF shp(1) this] show "doc \<in> set (get_all_live_docs sv sh) \<and>
      (\<exists>d \<in> set (indexed_docs h). d_id d = d_id doc \<and> shard_get_docs sv [d_id doc] sh = [d])"
    using same_data_reads(2,3) [OF shp(2)] by metis
qed

text \<open>A primary does to its data what a replica does, after writing the log and the channels.\<close>

lemma index_is_apply:
  "shard_index sv doc = op_bind (on_wal (wal_append (sv_wal sv) (Index doc))) (\<lambda>seq.
     op_bind (replicate_entry seq (Index doc)) (\<lambda>_. apply_replicated sv (Index doc)))"
  by (simp add: shard_index_def apply_replicated_def)

lemma delete_is_apply:
  "shard_delete sv i = op_bind (on_wal (wal_append (sv_wal sv) (Delete i))) (\<lambda>seq.
     op_bind (replicate_entry seq (Delete i)) (\<lambda>_. apply_replicated sv (Delete i)))"
  by (simp add: shard_delete_def apply_replicated_def)

lemma logged_apply:
  assumes "op_bind (on_wal (wal_append c e)) (\<lambda>seq. op_bind (replicate_entry seq e) (\<lambda>_. apply_replicated sv e)) shp =
      Some (Inr (), shp')" "same_data shp sh"
  shows "\<exists>sh'. apply_replicated sv e sh = Some (Inr (), sh') \<and> same_data shp' sh'"
proof -
  obtain seq w where "apply_replicated sv e (shp\<lparr>sh_wal := w,
      sh_replication := map_option (enqueue seq e) (sh_replication shp)\<rparr>) = Some (Inr (), shp')"
    using assms(1) by (auto simp: op_bind_Inr op_zoom_def replicate_entry_def split: option.splits)
  from loglessD [OF logless_apply _ this, of sh] show ?thesis using assms(2) by simp
qed

lemma apply_ok:
  assumes ok: "replica_ok sv h sh" and room: "shard_room sv sh (indexed_docs [e])" "wal_room sv [e]"
  shows "\<exists>sh'. apply_replicated sv e sh = Some (Inr (), sh') \<and> replica_ok sv (h @ [e]) sh' \<and>
    mset (shard_docs sv sh') = mset (shard_docs sv sh) + mset (indexed_docs [e]) \<and>
    unat (sl_next_seq (sh_segments sh')) \<le> unat (sl_next_seq (sh_segments sh)) + 2"
proof -
  obtain shp where shp: "shard_ok sv h shp" "same_data shp sh" using ok unfolding replica_ok_def by blast
  have "\<exists>shp'. op_bind (on_wal (wal_append (sv_wal sv) e)) (\<lambda>seq.
        op_bind (replicate_entry seq e) (\<lambda>_. apply_replicated sv e)) shp = Some (Inr (), shp') \<and> shard_ok sv (h @ [e]) shp' \<and>
      mset (shard_docs sv shp') = mset (shard_docs sv shp) + mset (indexed_docs [e]) \<and>
      unat (sl_next_seq (sh_segments shp')) \<le> unat (sl_next_seq (sh_segments shp)) + 2"
  proof (cases e)
    case (Index doc)
    then show ?thesis
      using shard_index_ok [OF shp(1), of doc] room same_data_reads(4) [OF shp(2)] by (simp add: index_is_apply)
  next
    case (Delete i)
    then show ?thesis
      using shard_delete_ok [OF shp(1), of i] room same_data_reads(4) [OF shp(2)] by (auto simp: delete_is_apply)
  qed
  then obtain shp' where shp': "op_bind (on_wal (wal_append (sv_wal sv) e)) (\<lambda>seq.
        op_bind (replicate_entry seq e) (\<lambda>_. apply_replicated sv e)) shp = Some (Inr (), shp')" "shard_ok sv (h @ [e]) shp'"
      "mset (shard_docs sv shp') = mset (shard_docs sv shp) + mset (indexed_docs [e])"
      "unat (sl_next_seq (sh_segments shp')) \<le> unat (sl_next_seq (sh_segments shp)) + 2" by blast
  obtain sh' where sh': "apply_replicated sv e sh = Some (Inr (), sh')" "same_data shp' sh'"
    using logged_apply [OF shp'(1) shp(2)] by blast
  then have "replica_ok sv (h @ [e]) sh'" using shp'(2) unfolding replica_ok_def by blast
  moreover have "mset (shard_docs sv sh') = mset (shard_docs sv sh) + mset (indexed_docs [e])"
    using shp'(3) same_data_reads(1) [OF shp(2)] same_data_reads(1) [OF sh'(2)] by simp
  moreover have "sh_segments sh' = sh_segments shp'" "sh_segments sh = sh_segments shp"
    using shp(2) sh'(2) by (simp_all add: same_data_def)
  ultimately show ?thesis using sh'(1) shp'(4) by simp
qed

text \<open>Room for a list of entries.\<close>

definition replica_room :: "shard_env \<Rightarrow> shard \<Rightarrow> wal_entry list \<Rightarrow> bool" where
  "replica_room sv sh es \<longleftrightarrow>
     docs_room (sv_index sv) (sv_schema sv) (mset (shard_docs sv sh @ indexed_docs es)) \<and>
     unat (sl_next_seq (sh_segments sh)) + 2 * length es < 2 ^ 64 - 4 \<and> wal_room sv es"

lemma replica_room_step:
  assumes "replica_room sv sh (e # es)"
  shows "shard_room sv sh (indexed_docs [e])" "wal_room sv [e]"
    and "mset (shard_docs sv sh') = mset (shard_docs sv sh) + mset (indexed_docs [e]) \<Longrightarrow>
      unat (sl_next_seq (sh_segments sh')) \<le> unat (sl_next_seq (sh_segments sh)) + 2 \<Longrightarrow> replica_room sv sh' es"
proof -
  have docs: "indexed_docs (e # es) = indexed_docs [e] @ indexed_docs es" by (cases e) simp_all
  show "shard_room sv sh (indexed_docs [e])" "wal_room sv [e]"
    using assms unfolding replica_room_def shard_room_def docs
    by (auto simp: wal_room_def elim!: docs_room_mono)
  assume "mset (shard_docs sv sh') = mset (shard_docs sv sh) + mset (indexed_docs [e])"
    "unat (sl_next_seq (sh_segments sh')) \<le> unat (sl_next_seq (sh_segments sh)) + 2"
  then show "replica_room sv sh' es"
    using assms unfolding replica_room_def docs by (auto simp: wal_room_def add.assoc)
qed

lemma apply_all_ok:
  assumes "replica_ok sv h sh" "replica_room sv sh es"
  shows "\<exists>sh'. op_each (apply_replicated sv) es sh = Some (Inr (), sh') \<and> replica_ok sv (h @ es) sh' \<and>
    replica_room sv sh' []"
  using assms
proof (induction es arbitrary: h sh)
  case (Cons e es)
  obtain sh1 where sh1: "apply_replicated sv e sh = Some (Inr (), sh1)" "replica_ok sv (h @ [e]) sh1"
    "replica_room sv sh1 es"
    using apply_ok [OF Cons.prems(1) replica_room_step(1,2) [OF Cons.prems(2)]]
      replica_room_step(3) [OF Cons.prems(2)] by blast
  from Cons.IH [OF sh1(2,3)] show ?case using sh1(1) by (simp add: op_bind_simps(1))
qed simp

section \<open>Over the wire\<close>

definition string_entries :: "wal_entry list \<Rightarrow> bool" where
  "string_entries es \<longleftrightarrow> (\<forall>doc \<in> set (indexed_docs es). string_attributes doc)"

lemma string_entries_simps [simp]:
  "string_entries []" "string_entries (Index doc # es) \<longleftrightarrow> string_attributes doc \<and> string_entries es"
  "string_entries (Delete i # es) = string_entries es"
  by (simp_all add: string_entries_def)

lemma doc_wire: "string_attributes doc \<Longrightarrow> proto_to_doc (doc_to_proto doc) = doc"
  using document_proto_roundtrip [of doc] by blast

text \<open>The calls of a connection, one after the other.\<close>

fun replicate_calls :: "shard_env \<Rightarrow> replicate_request list \<Rightarrow> shard \<Rightarrow> ((grpc_status + bool) list \<times> shard) option" where
  "replicate_calls sv [] sh = Some ([], sh)"
| "replicate_calls sv (req # reqs) sh =
     (case grpc_replicate sv req sh of None \<Rightarrow> None
      | Some (r, sh) \<Rightarrow> map_option (\<lambda>(rs, sh). (r # rs, sh)) (replicate_calls sv reqs sh))"

lemma replicate_calls_apply:
  assumes "is_replica sv" "string_entries (map re_entry es)"
    and "op_each (apply_replicated sv) (map re_entry es) sh = Some (Inr (), sh')"
  shows "replicate_calls sv (map entry_to_proto es) sh = Some (map (\<lambda>e. Inr True) es, sh')"
  using assms(2,3)
proof (induction es arbitrary: sh)
  case (Cons e es)
  obtain sh1 where sh1: "apply_replicated sv (re_entry e) sh = Some (Inr (), sh1)"
    "op_each (apply_replicated sv) (map re_entry es) sh1 = Some (Inr (), sh')"
    using Cons.prems(2) by (auto simp: op_bind_Inr)
  have "string_entries (map re_entry es)" using Cons.prems(1) by (cases "re_entry e") simp_all
  from Cons.IH [OF this sh1(2)] show ?case
    using sh1(1) Cons.prems(1) assms(1)
    by (cases "re_entry e") (simp_all add: grpc_replicate_def entry_to_proto_def answer_def doc_wire)
qed simp

text \<open>A catch-up applies the records that are streamed, a full synchronisation the documents.\<close>

definition request_of :: "wal_record \<Rightarrow> replicate_request" where
  "request_of record =
     \<lparr>rq_operation = Some (case wr_entry record of Index doc \<Rightarrow> IndexDoc (doc_to_proto doc) | Delete i \<Rightarrow> DeleteDocId i),
      rq_wal_seq = wr_seq record\<rparr>"

lemma catch_up_stream_apply:
  assumes "string_entries (map wr_entry records)"
    and "op_each (apply_replicated sv) (map wr_entry records) sh = Some (Inr (), sh')"
  shows "catch_up_stream sv (map (Inr \<circ> request_of) records) n sh = Some (Inr (n + word_of_nat (length records)), sh')"
  using assms
proof (induction records arbitrary: sh n)
  case (Cons r records)
  obtain sh1 where sh1: "apply_replicated sv (wr_entry r) sh = Some (Inr (), sh1)"
    "op_each (apply_replicated sv) (map wr_entry records) sh1 = Some (Inr (), sh')"
    using Cons.prems(2) by (auto simp: op_bind_Inr)
  have "string_entries (map wr_entry records)" using Cons.prems(1) by (cases "wr_entry r") simp_all
  from Cons.IH [OF this sh1(2)] show ?case
    using sh1(1) Cons.prems(1)
    by (cases "wr_entry r") (simp_all add: request_of_def grpc_def op_bind_simps(1) doc_wire add.assoc)
qed simp

lemma full_sync_stream_apply:
  assumes "\<forall>doc \<in> set docs. string_attributes doc"
    and "op_each (apply_replicated sv) (map Index docs) sh = Some (Inr (), sh')"
  shows "full_sync_stream sv (map (Inr \<circ> doc_to_proto) docs) sh = Some (Inr (), sh')"
  using assms
proof (induction docs arbitrary: sh)
  case (Cons doc docs)
  then show ?case by (auto simp: op_bind_Inr grpc_def op_bind_simps(1) doc_wire)
qed simp

section \<open>A new replica\<close>

text \<open>What a primary in the state \<open>sh\<close> answers a replica that connects.\<close>

definition serving :: "shard_env \<Rightarrow> shard \<Rightarrow> primary" where
  "serving sv sh =
     \<lparr>pr_connect = Inr (),
      pr_catch_up = (\<lambda>from_seq. case grpc_catch_up sv from_seq sh of
         Some (Inr reqs, _) \<Rightarrow> Inr (map Inr reqs) | Some (Inl st, _) \<Rightarrow> Inl (st_message st) | None \<Rightarrow> Inl []),
      pr_full_sync = (case grpc_full_sync sv sh of
         Some (Inr docs, _) \<Rightarrow> Inr (map Inr docs) | Some (Inl st, _) \<Rightarrow> Inl (st_message st) | None \<Rightarrow> Inl [])\<rparr>"

lemma serving_simps [simp]:
  "pr_connect (serving sv sh) = Inr ()"
  "pr_catch_up (serving sv sh) 0 = Inr (map (Inr \<circ> request_of) (read_records (sv_wal sv) (wl_file (sh_wal sh))))"
  "pr_full_sync (serving sv sh) = Inr (map (Inr \<circ> doc_to_proto) (get_all_live_docs sv sh))"
  by (simp_all add: serving_def grpc_catch_up_def grpc_full_sync_def answer_def wal_records_since_def read_since_def
      request_of_def fun_eq_iff)

definition empty_replica :: "shard_env \<Rightarrow> shard" where
  "empty_replica sv = \<lparr>sh_wal = \<lparr>wl_file = [], wl_next_seq = 0\<rparr>,
      sh_buffer = wb_new (sc_write_buffer_size (sv_config sv)),
      sh_segments = \<lparr>sl_segments = [], sl_doc_map = Map.empty, sl_next_seq = 1, sl_disk = Map.empty\<rparr>,
      sh_replication = None\<rparr>"

lemma open_replica:
  assumes "is_replica sv"
  shows "shard_open sv connect [] Map.empty =
    (case sc_primary_endpoint (sv_config sv) of None \<Rightarrow> Some (empty_replica sv)
     | Some endpoint \<Rightarrow> map_option snd (catch_up_from_primary sv (connect endpoint) (empty_replica sv)))"
  using assms
  by (cases "sc_primary_endpoint (sv_config sv)")
    (simp_all add: shard_open_def Let_def sl_open_def wal_open_def read_all_def is_replica_def empty_replica_def)

lemma empty_replica_ok: "replica_ok sv [] (empty_replica sv)"
  unfolding replica_ok_def using shard_ok_new [of sv] same_data_refl unfolding empty_replica_def by blast

lemma subseq_entries:
  assumes "subseq xs ys"
  shows "mset (indexed_docs xs) \<subseteq># mset (indexed_docs ys)" "set xs \<subseteq> set ys" "length xs \<le> length ys"
  using assms
proof (induction rule: list_emb.induct)
  case (list_emb_Cons xs ys y)
  {
    case 1
    have "mset (indexed_docs ys) \<subseteq># mset (indexed_docs (y # ys))" by (cases y) (simp_all add: subseteq_mset_def)
    with 1 list_emb_Cons(2) show ?case by (rule subset_mset.order_trans)
  next
    case 2
    then show ?case using list_emb_Cons by auto
  next
    case 3
    then show ?case using list_emb_Cons by auto
  }
next
  case (list_emb_Cons2 x y xs ys)
  {
    case 1
    then show ?case using list_emb_Cons2 by (cases y) auto
  next
    case 2
    then show ?case using list_emb_Cons2 by auto
  next
    case 3
    then show ?case using list_emb_Cons2 by auto
  }
qed auto

lemma replica_room_subseq:
  assumes "replica_room sv sh ys" "subseq xs ys"
  shows "replica_room sv sh xs"
proof -
  have "mset (shard_docs sv sh @ indexed_docs xs) \<subseteq># mset (shard_docs sv sh @ indexed_docs ys)"
    using subseq_entries(1) [OF assms(2)] by simp
  then show ?thesis
    using assms(1) subseq_entries(2,3) [OF assms(2)] unfolding replica_room_def wal_room_def
    by (auto elim: docs_room_mono)
qed

section \<open>Properties\<close>

text \<open>
  C13: a replica holds what reaches it: whatever the network does, the calls that reach a replica which
  started empty are all answered, and afterwards it holds, under the same reading operations as a
  primary, the entries that were delivered: a subsequence of those enqueued for it, in order, with at
  most one missing for each failed call; every document that was indexed by them and whose id was not
  deleted is live and is found, and nothing else is there.
\<close>
theorem replica_holds_delivered:
  assumes task: "task_run events t" and replica: "is_replica sv" "sc_primary_endpoint (sv_config sv) = None"
    and opened: "shard_open sv connect [] Map.empty = Some sh0"
    and strings: "string_entries (map re_entry (enqueued events))"
    and room: "replica_room sv sh0 (map re_entry (enqueued events))"
  shows "\<exists>sent sh. subseq sent (map re_entry (enqueued events)) \<and>
    length (enqueued events) \<le> length sent + length (rt_queue t) + failures events \<and>
    replicate_calls sv (rt_delivered t) sh0 = Some (replicate (length sent) (Inr True), sh) \<and>
    set (get_all_live_docs sv sh) \<subseteq> set (indexed_docs sent) \<and>
    (\<forall>doc \<in> set (indexed_docs sent). d_id doc \<notin> deleted_ids sent \<longrightarrow>
       doc \<in> set (get_all_live_docs sv sh) \<and>
       (\<exists>d \<in> set (indexed_docs sent). d_id d = d_id doc \<and> shard_get_docs sv [d_id doc] sh = [d]))"
proof -
  obtain taken sent where t: "enqueued events = taken @ rt_queue t" "subseq sent taken"
    "rt_delivered t = map entry_to_proto sent" "length taken \<le> length sent + failures events"
    using task_run_inv [OF task] unfolding task_inv_def by blast
  let ?sent = "map re_entry sent"
  have sub: "subseq ?sent (map re_entry (enqueued events))"
    unfolding t(1) by (intro subseq_map) (use t(2) in \<open>auto intro: list_emb_append2 subseq_rev_drop_many\<close>)
  have "string_entries ?sent"
    using strings mset_subset_eqD [OF subseq_entries(1) [OF sub]] by (auto simp: string_entries_def)
  moreover have "sh0 = empty_replica sv" using opened replica by (simp add: open_replica)
  then have "replica_ok sv [] sh0" by (simp add: empty_replica_ok)
  from apply_all_ok [OF this replica_room_subseq [OF room sub]] obtain sh where
    sh: "op_each (apply_replicated sv) ?sent sh0 = Some (Inr (), sh)" "replica_ok sv ?sent sh" by auto
  ultimately have "replicate_calls sv (rt_delivered t) sh0 = Some (replicate (length ?sent) (Inr True), sh)"
    using replicate_calls_apply [OF replica(1) _ sh(1)] by (simp add: t(3) map_replicate_const)
  moreover have "length (enqueued events) \<le> length ?sent + length (rt_queue t) + failures events"
    using t(1,4) by simp
  ultimately show ?thesis using sub replica_ok_reads [OF sh(2)] by (intro exI [of _ ?sent] exI [of _ sh]) blast
qed

text \<open>The flush after a full synchronisation.\<close>

lemma replica_flush_ok:
  assumes ok: "replica_ok sv h sh" and room: "shard_room sv sh []"
  shows "\<exists>sh'. flush sv sh = Some (Inr (), sh') \<and> replica_ok sv h sh'"
proof -
  obtain shp where shp: "shard_ok sv h shp" "same_data shp sh" using ok unfolding replica_ok_def by blast
  have "shard_room sv shp []" using room same_data_reads(4) [OF shp(2)] by simp
  from flush_ok [OF shp(1) this] obtain shp' where shp': "flush sv shp = Some (Inr (), shp')" "shard_ok sv h shp'"
    by blast
  from loglessD [OF logless_flush shp(2) shp'(1)] show ?thesis using shp'(2) unfolding replica_ok_def by blast
qed

lemma catch_up_log:
  assumes records: "read_records (sv_wal svp) (wl_file (sh_wal shp)) = r # records"
    and strings: "string_entries (map wr_entry (r # records))"
    and few: "length (r # records) < 2 ^ 64"
    and sh: "op_each (apply_replicated sv) (map wr_entry (r # records)) (empty_replica sv) = Some (Inr (), sh)"
  shows "catch_up_from_primary sv (serving svp shp) (empty_replica sv) = Some (Inr (), sh)"
proof -
  have "word_of_nat k \<noteq> (0 :: u64)" if "0 < k" "k < 2 ^ 64" for k
    using that by (simp add: unat_eq_0 [symmetric] unat_of_nat)
  from this [OF _ few] have n: "word_of_nat (length (r # records)) \<noteq> (0 :: u64)" by simp
  have "wl_next_seq (sh_wal (empty_replica sv)) = 0" by (simp add: empty_replica_def)
  then show ?thesis
    using catch_up_stream_apply [OF strings sh, of 0] n
    by (simp add: catch_up_from_primary_def grpc_def records op_bind_simps(1) del: catch_up_stream.simps op_each.simps)
qed

lemma catch_up_full:
  assumes records: "read_records (sv_wal svp) (wl_file (sh_wal shp)) = []"
    and strings: "\<forall>doc \<in> set (get_all_live_docs svp shp). string_attributes doc"
    and sh: "op_each (apply_replicated sv) (map Index (get_all_live_docs svp shp)) (empty_replica sv) = Some (Inr (), sh)"
    and sh': "flush sv sh = Some (Inr (), sh')"
  shows "catch_up_from_primary sv (serving svp shp) (empty_replica sv) = Some (Inr (), sh')"
proof -
  have "wl_next_seq (sh_wal (empty_replica sv)) = 0" "sl_segments (sh_segments (empty_replica sv)) = []"
    by (simp_all add: empty_replica_def)
  then show ?thesis
    using full_sync_stream_apply [OF strings sh] sh'
    by (simp add: catch_up_from_primary_def grpc_def records op_bind_simps(1) del: op_each.simps)
qed

text \<open>
  C14: what a new replica has when it starts: it asks the primary for its log and, only if that is empty,
  for its documents.  So if the primary has just written a segment, the replica holds exactly the live
  documents of the primary; but if anything is in the log, it holds the documents of the log that were
  not deleted, and none of those that are only in the segments of the primary.
\<close>
theorem replica_catch_up:
  assumes run: "shard_run svp connect0 h shp" "sc_role (sv_config svp) = Primary"
    and replica: "sv = svp\<lparr>sv_config := config\<rparr>" "is_replica sv" "sc_primary_endpoint config = Some endpoint"
      "connect endpoint = serving svp shp"
    and strings: "string_entries h"
    and room: "replica_room sv (empty_replica sv) (read_all (sv_wal svp) (sh_wal shp))"
      "replica_room sv (empty_replica sv) (map Index (get_all_live_docs svp shp))"
  defines "recs \<equiv> read_all (sv_wal svp) (sh_wal shp)"
  shows "\<exists>sh. shard_open sv connect [] Map.empty = Some sh \<and>
    (if recs = [] then set (get_all_live_docs sv sh) = set (get_all_live_docs svp shp)
     else set (get_all_live_docs sv sh) \<subseteq> set (wb_docs (sh_buffer shp)) \<and>
       (\<forall>doc \<in> set (wb_docs (sh_buffer shp)). d_id doc \<notin> deleted_ids recs \<longrightarrow> doc \<in> set (get_all_live_docs sv sh)))"
proof -
  have ok: "shard_ok svp h shp" by (rule shard_run_ok [OF run])
  have docs: "indexed_docs recs = wb_docs (sh_buffer shp)" using ok by (simp add: shard_ok_def recs_def)
  have opened: "shard_open sv connect [] Map.empty =
      map_option snd (catch_up_from_primary sv (serving svp shp) (empty_replica sv))"
    using replica by (simp add: open_replica)
  show ?thesis
  proof (cases "read_records (sv_wal svp) (wl_file (sh_wal shp))")
    case Nil
    let ?live = "get_all_live_docs svp shp"
    have str: "\<forall>doc \<in> set ?live. string_attributes doc"
      using strings shard_ok_reads(1) [OF ok] by (auto simp: string_entries_def)
    obtain sh1 where sh1: "op_each (apply_replicated sv) (map Index ?live) (empty_replica sv) = Some (Inr (), sh1)"
      "replica_ok sv (map Index ?live) sh1" "replica_room sv sh1 []"
      using apply_all_ok [OF empty_replica_ok room(2)] by auto
    have "shard_room sv sh1 []" using sh1(3) by (simp add: replica_room_def shard_room_def)
    then obtain sh where sh: "flush sv sh1 = Some (Inr (), sh)" "replica_ok sv (map Index ?live) sh"
      using replica_flush_ok [OF sh1(2)] by blast
    have "set (get_all_live_docs sv sh) = set ?live"
      using replica_ok_reads [OF sh(2)] by auto
    then show ?thesis
      using catch_up_full [OF Nil str sh1(1) sh(1)] opened Nil by (simp add: recs_def read_all_def)
  next
    case (Cons r records)
    then have log: "map wr_entry (r # records) = recs" by (simp add: recs_def read_all_def)
    have "set (wb_docs (sh_buffer shp)) \<subseteq> set (indexed_docs h)" using ok by (auto simp: shard_ok_def shard_docs_def)
    then have str: "string_entries recs" using strings docs by (auto simp: string_entries_def)
    obtain sh where sh: "op_each (apply_replicated sv) recs (empty_replica sv) = Some (Inr (), sh)" "replica_ok sv recs sh"
      using apply_all_ok [OF empty_replica_ok room(1)] by (auto simp: recs_def)
    have "length recs < 2 ^ 64" using room(1) by (simp add: replica_room_def recs_def)
    then have few: "length (r # records) < 2 ^ 64" unfolding log [symmetric] by simp
    have "catch_up_from_primary sv (serving svp shp) (empty_replica sv) = Some (Inr (), sh)"
      using catch_up_log [OF Cons _ few, of sv sh] str sh(1) unfolding log by blast
    then show ?thesis
      using opened replica_ok_reads [OF sh(2)] log unfolding docs by auto
  qed
qed

section \<open>Examples\<close>

definition example_replica_env :: "string option \<Rightarrow> shard_env" where
  "example_replica_env endpoint =
     example_shard_env\<lparr>sv_config := default_shard_config\<lparr>sc_role := Replica, sc_primary_endpoint := endpoint\<rparr>\<rparr>"

lemma example_replica_room:
  assumes "mset (indexed_docs es) \<subseteq># {#example_doc 7#}" "set es \<subseteq> {Index (example_doc 7), Delete 7}" "length es \<le> 1"
  shows "replica_room (example_replica_env endpoint) (empty_replica (example_replica_env endpoint)) es"
proof -
  have "wal_room (example_replica_env endpoint) es"
    using example_wal_room [OF assms(2)] by (simp add: wal_room_def example_replica_env_def)
  moreover have "sv_index (example_replica_env endpoint) = example_env" "sv_schema (example_replica_env endpoint) = default_product_schema"
    by (simp_all add: example_replica_env_def example_shard_env_def)
  ultimately show ?thesis
    using example_docs_room [OF assms(1)] assms(3)
    by (simp add: replica_room_def shard_docs_def empty_replica_def wb_new_def)
qed

lemma example_string_entries: "string_entries [Index (example_doc 7)]"
  by (simp add: string_attributes_def example_doc_def)

theorem replica_holds_delivered_witness:
  "\<exists>sh. replicate_calls (example_replica_env None)
      (rt_delivered (foldl (\<lambda>t ev. task_step ev t) task_start
        [Enqueued \<lparr>re_seq = 0, re_entry = Index (example_doc 7)\<rparr>, ConnectErr, ConnectOk, ReplicateOk]))
      (empty_replica (example_replica_env None)) = Some ([Inr True], sh) \<and>
    get_all_live_docs (example_replica_env None) sh \<noteq> []"
proof -
  let ?evs = "[Enqueued \<lparr>re_seq = 0, re_entry = Index (example_doc 7)\<rparr>, ConnectErr, ConnectOk, ReplicateOk]"
  let ?t = "foldl (\<lambda>t ev. task_step ev t) task_start ?evs" and ?sv = "example_replica_env None"
  have replica: "is_replica ?sv" "sc_primary_endpoint (sv_config ?sv) = None"
    by (simp_all add: is_replica_def example_replica_env_def)
  have opened: "shard_open ?sv no_primary [] Map.empty = Some (empty_replica ?sv)"
    using replica by (simp add: open_replica)
  have entries: "map re_entry (enqueued ?evs) = [Index (example_doc 7)]" "rt_queue ?t = []" "failures ?evs = 0"
    by (simp_all add: enqueued_def List.map_filter_def failures_def task_start_def)
  have room: "replica_room ?sv (empty_replica ?sv) [Index (example_doc 7)]"
    by (rule example_replica_room) simp_all
  have len: "length (enqueued ?evs) = 1" using arg_cong [OF entries(1), of length] by simp
  from replica_holds_delivered [OF task_run_foldl replica opened, of ?evs, unfolded entries, OF example_string_entries room]
  obtain sent sh where s: "subseq sent [Index (example_doc 7)]" "1 \<le> length sent"
    "replicate_calls ?sv (rt_delivered ?t) (empty_replica ?sv) = Some (replicate (length sent) (Inr True), sh)"
    "\<forall>doc \<in> set (indexed_docs sent). d_id doc \<notin> deleted_ids sent \<longrightarrow> doc \<in> set (get_all_live_docs ?sv sh)"
    unfolding len by auto
  then have "sent = [Index (example_doc 7)]"
    by (cases sent) (auto split: if_splits)
  then show ?thesis using s(3,4) by auto
qed

text \<open>A primary with one document in its log and its buffer.\<close>

lemma example_logged:
  "\<exists>sh. shard_run example_shard_env no_primary [Index (example_doc 7)] sh \<and>
    read_all (sv_wal example_shard_env) (sh_wal sh) = [Index (example_doc 7)] \<and>
    wb_docs (sh_buffer sh) = [example_doc 7] \<and> get_all_live_docs example_shard_env sh = [example_doc 7]"
proof -
  let ?doc = "example_doc 7" and ?sv = example_shard_env
  let ?b = "snd (wb_add ?doc (wb_new default_write_buffer_size))"
  obtain rep where o: "shard_open ?sv no_primary [] Map.empty = Some \<lparr>sh_wal = \<lparr>wl_file = [], wl_next_seq = 0\<rparr>,
      sh_buffer = wb_new (sc_write_buffer_size (sv_config ?sv)),
      sh_segments = \<lparr>sl_segments = [], sl_doc_map = Map.empty, sl_next_seq = 1, sl_disk = Map.empty\<rparr>,
      sh_replication = rep\<rparr>" (is "_ = Some ?sh")
    using shard_open_new [OF example_role, of no_primary] by blast
  have size: "sc_write_buffer_size (sv_config ?sv) = default_write_buffer_size"
    by (simp add: example_shard_env_def default_shard_config_def)
  have run: "shard_run ?sv no_primary [] ?sh" by (rule run_new [OF o])
  have wal: "wal_room ?sv [Index ?doc]" by (rule example_wal_room) simp
  have "wal_ok (sv_wal ?sv) (sh_wal ?sh)" using shard_run_ok [OF run example_role] by (simp add: shard_ok_def)
  from wal_append_ok [OF this wal] obtain w seq where
    w: "wal_append (sv_wal ?sv) (Index ?doc) (sh_wal ?sh) = Some (Inr seq, w)"
    "read_all (sv_wal ?sv) w = [Index ?doc]" by (auto simp: read_all_def)
  let ?sh' = "?sh\<lparr>sh_wal := w, sh_replication := map_option (enqueue seq (Index ?doc)) rep, sh_buffer := ?b\<rparr>"
  have b: "\<not> fst (wb_add ?doc (wb_new default_write_buffer_size))" "wb_docs ?b = [?doc]" "wb_deleted ?b = {}"
    by (simp_all add: wb_add_def wb_new_def wb_is_full_def default_write_buffer_size_def example_doc_def)
  have "shard_index ?sv ?doc ?sh = Some (Inr (), ?sh')"
    using w(1) b(1) by (simp add: shard_index_def bind_zoom_run bind_zoom_state replicate_entry_run op_bind_simps(1)
        flush_if_def size)
  moreover have "docs_room (sv_index ?sv) (sv_schema ?sv) {#?doc#}"
    using example_docs_room [of "{#?doc#}"] by (simp add: example_shard_env_def)
  then have "shard_room ?sv ?sh [?doc]" by (simp add: shard_docs_def wb_new_def shard_room_def)
  ultimately have "shard_run ?sv no_primary ([] @ [Index ?doc]) ?sh'" using run_index [OF run _ wal] by blast
  then show ?thesis
    using w(2) b(2,3) by (intro exI [of _ ?sh']) (simp add: get_all_live_docs_def live_docs_of_def wb_all_docs_def)
qed

theorem replica_catch_up_witness:
  "\<exists>shp sh. shard_run example_shard_env no_primary [Index (example_doc 7)] shp \<and>
    shard_open (example_replica_env (Some ''primary'')) (\<lambda>_. serving example_shard_env shp) [] Map.empty = Some sh \<and>
    set (get_all_live_docs (example_replica_env (Some ''primary'')) sh) = {example_doc 7}"
proof -
  let ?sv = "example_replica_env (Some ''primary'')"
  obtain shp where shp: "shard_run example_shard_env no_primary [Index (example_doc 7)] shp"
    "read_all (sv_wal example_shard_env) (sh_wal shp) = [Index (example_doc 7)]" "wb_docs (sh_buffer shp) = [example_doc 7]"
    "get_all_live_docs example_shard_env shp = [example_doc 7]"
    using example_logged by blast
  have replica: "is_replica ?sv" by (simp add: is_replica_def example_replica_env_def)
  have room: "replica_room ?sv (empty_replica ?sv) [Index (example_doc 7)]" by (rule example_replica_room) simp_all
  have "\<exists>sh. shard_open ?sv (\<lambda>_. serving example_shard_env shp) [] Map.empty = Some sh \<and>
      set (get_all_live_docs ?sv sh) \<subseteq> {example_doc 7} \<and> example_doc 7 \<in> set (get_all_live_docs ?sv sh)"
    using replica_catch_up [OF shp(1) example_role example_replica_env_def replica, of "''primary''"
        "\<lambda>_. serving example_shard_env shp"] room example_string_entries shp(2-4)
    by simp
  then show ?thesis using shp(1) by blast
qed

end
