(* ===== verification/Suggest.thy ===== *)
theory Suggest
  imports Analysis Config OrderedMap ShardGrpc
begin

text \<open>
  The crate \<open>search-suggest\<close>: counting terms (\<open>builder.rs\<close>), the sorted index that answers prefix
  queries (\<open>index.rs\<close>), the engine around them (\<open>engine.rs\<close>) and its gRPC service.

  The map of counts is an association list; the order in which the program iterates over it is
  \<open>sg_order\<close>.  \<open>sg_select\<close> is \<open>select_nth_unstable_by\<close>.
\<close>

section \<open>The index\<close>

record suggest_env =
  sg_text :: text_env
  sg_order :: "(string \<times> u32) list \<Rightarrow> (string \<times> u32) list"
  sg_select :: "nat comparator \<Rightarrow> nat \<Rightarrow> nat list \<Rightarrow> nat list"

definition suggest_env_ok :: "suggest_env \<Rightarrow> bool" where
  "suggest_env_ok env \<longleftrightarrow> (\<forall>xs. mset (sg_order env xs) = mset xs) \<and> select_contract (sg_select env)"

record suggest_term =
  sg_term :: string
  sg_score :: f32

record suggest_index =
  si_terms :: "(string \<times> f32) list"

definition si_new :: "(string \<times> f32) list \<Rightarrow> suggest_index" where
  "si_new terms = \<lparr>si_terms = sort_by (\<lambda>a b. cmp_of (fst a) (fst b)) terms\<rparr>"

definition si_len :: "suggest_index \<Rightarrow> nat" where
  "si_len idx = length (si_terms idx)"

definition si_is_empty :: "suggest_index \<Rightarrow> bool" where
  "si_is_empty idx \<longleftrightarrow> si_terms idx = []"

definition si_matches :: "(string \<times> f32) list \<Rightarrow> string \<Rightarrow> nat list" where
  "si_matches terms lower =
     (let start = partition_point (\<lambda>(t, s). t < lower) terms
      in map (\<lambda>(i, _). start + i)
           (takeWhile (\<lambda>(i, t, s). prefix lower t) (List.enumerate 0 (drop start terms))))"

definition si_query :: "suggest_env \<Rightarrow> string \<Rightarrow> nat \<Rightarrow> suggest_index \<Rightarrow> suggest_term list" where
  "si_query env pre limit idx =
     (if pre = [] \<or> limit = 0 then []
      else
        let terms = si_terms idx;
            matches = si_matches terms (to_lowercase (sg_text env) pre)
        in if matches = [] then []
           else
             let cmp_desc = (\<lambda>a b. f32_cmp_or_equal (snd (terms ! b)) (snd (terms ! a)));
                 matches = (if limit < length matches
                   then take limit (sg_select env cmp_desc (limit - 1) matches) else matches)
             in map (\<lambda>i. \<lparr>sg_term = fst (terms ! i), sg_score = snd (terms ! i)\<rparr>)
                  (sort_by cmp_desc matches))"

section \<open>The builder\<close>

record suggest_builder =
  sb_counts :: "(string \<times> u32) list"
  sb_analyzer :: analyzer

definition sb_new :: suggest_builder where
  "sb_new = \<lparr>sb_counts = [], sb_analyzer = \<lparr>an_tokenizer = UnicodeTokenizer, an_filters = [LowercaseFilter]\<rparr>\<rparr>"

definition sb_term_count :: "suggest_builder \<Rightarrow> nat" where
  "sb_term_count b = length (sb_counts b)"

definition extract_field :: "document \<Rightarrow> string \<Rightarrow> string" where
  "extract_field doc field =
     (if field = ''title'' then d_title doc
      else if field = ''description'' then d_description doc
      else if field = ''category'' then d_category doc
      else (case d_attributes doc field of
          Some (VString s) \<Rightarrow> s
        | Some (VStringArray v) \<Rightarrow> join '' '' v
        | _ \<Rightarrow> []))"

text \<open>One more occurrence of a term.\<close>

definition count_term :: "(string \<times> u32) list \<Rightarrow> string \<Rightarrow> (string \<times> u32) list" where
  "count_term counts t =
     (if t = [] then counts else hm_entry t (\<lambda>c. case c of Some c \<Rightarrow> c + 1 | None \<Rightarrow> 1) counts)"

definition add_field :: "text_env \<Rightarrow> document \<Rightarrow> suggest_builder \<Rightarrow> string \<Rightarrow> suggest_builder" where
  "add_field env doc b field =
     (let text = extract_field doc field
      in if text = [] then b
         else b\<lparr>sb_counts := foldl count_term (sb_counts b)
                (remdups_adj (sort (analyze_to_terms env (sb_analyzer b) text)))\<rparr>)"

definition sb_add_document :: "text_env \<Rightarrow> string list \<Rightarrow> suggest_builder \<Rightarrow> document \<Rightarrow> suggest_builder" where
  "sb_add_document env fs b doc = foldl (add_field env doc) b fs"

definition max_count :: "(string \<times> u32) list \<Rightarrow> u32" where
  "max_count cs = max (case map snd cs of [] \<Rightarrow> 1 | c # cs \<Rightarrow> foldl max c cs) 1"

definition kept_terms :: "suggest_env \<Rightarrow> u32 \<Rightarrow> u32 \<Rightarrow> suggest_builder \<Rightarrow> (string \<times> u32) list" where
  "kept_terms env min_doc_frequency max_terms b =
     (let filtered = filter (\<lambda>(t, c). min_doc_frequency \<le> c) (sg_order env (sb_counts b))
      in if 0 < max_terms \<and> unat max_terms < length filtered
         then take (unat max_terms) (sort_by (\<lambda>a b. cmp_of (snd b) (snd a)) filtered)
         else filtered)"

definition sb_snapshot :: "suggest_env \<Rightarrow> u32 \<Rightarrow> u32 \<Rightarrow> suggest_builder \<Rightarrow> suggest_index" where
  "sb_snapshot env min_doc_frequency max_terms b =
     (let filtered = kept_terms env min_doc_frequency max_terms b;
          max_freq = f32_of_nat (unat (max_count filtered))
      in si_new (map (\<lambda>(t, c). (t, f32_div (f32_of_nat (unat c)) max_freq)) filtered))"

text \<open>The same, giving the builder up.\<close>

definition sb_build :: "suggest_env \<Rightarrow> u32 \<Rightarrow> u32 \<Rightarrow> suggest_builder \<Rightarrow> suggest_index" where
  "sb_build env min_doc_frequency max_terms b =
     (let filtered = kept_terms env min_doc_frequency max_terms b;
          max_freq = f32_of_nat (unat (max_count filtered))
      in si_new (map (\<lambda>(t, c). (t, f32_div (f32_of_nat (unat c)) max_freq)) filtered))"

section \<open>The engine\<close>

record suggest_engine =
  sn_config :: suggest_shard_config
  sn_builder :: suggest_builder
  sn_current :: suggest_index

definition sn_new :: "suggest_shard_config \<Rightarrow> suggest_engine" where
  "sn_new config = \<lparr>sn_config = config, sn_builder = sb_new, sn_current = \<lparr>si_terms = []\<rparr>\<rparr>"

definition sn_index :: "suggest_env \<Rightarrow> document \<Rightarrow> suggest_engine \<Rightarrow> suggest_engine" where
  "sn_index env doc e =
     e\<lparr>sn_builder := sb_add_document (sg_text env) (ss_fields (sn_config e)) (sn_builder e) doc\<rparr>"

definition sn_bulk :: "suggest_env \<Rightarrow> document list \<Rightarrow> suggest_engine \<Rightarrow> suggest_engine" where
  "sn_bulk env docs e =
     e\<lparr>sn_builder := foldl (sb_add_document (sg_text env) (ss_fields (sn_config e))) (sn_builder e) docs\<rparr>"

definition sn_flush :: "suggest_env \<Rightarrow> suggest_engine \<Rightarrow> nat \<times> suggest_engine" where
  "sn_flush env e =
     (let new_index = sb_snapshot env (ss_min_doc_frequency (sn_config e))
            (ss_max_terms_per_shard (sn_config e)) (sn_builder e)
      in (si_len new_index, e\<lparr>sn_current := new_index\<rparr>))"

definition sn_suggest :: "suggest_env \<Rightarrow> string \<Rightarrow> string \<Rightarrow> nat \<Rightarrow> suggest_engine \<Rightarrow> suggest_term list" where
  "sn_suggest env pre field limit e = si_query env pre limit (sn_current e)"

definition sn_term_count :: "suggest_engine \<Rightarrow> nat" where
  "sn_term_count e = si_len (sn_current e)"

definition sn_pending_terms :: "suggest_engine \<Rightarrow> nat" where
  "sn_pending_terms e = sb_term_count (sn_builder e)"

section \<open>The gRPC service\<close>

definition sgrpc_suggest ::
  "suggest_env \<Rightarrow> string \<Rightarrow> string \<Rightarrow> u32 \<Rightarrow> (suggest_engine, suggest_term list) handler" where
  "sgrpc_suggest env pre field limit =
     answer (op_get (sn_suggest env pre field (unat limit))) (\<lambda>terms. terms)"

definition sgrpc_index :: "suggest_env \<Rightarrow> document_proto option \<Rightarrow> (suggest_engine, bool) handler" where
  "sgrpc_index env document =
     (case document of
        None \<Rightarrow> refuse InvalidArgument ''missing document''
      | Some p \<Rightarrow> answer (op_modify (sn_index env (proto_to_doc p))) (\<lambda>_. True))"

definition sgrpc_bulk_index :: "suggest_env \<Rightarrow> document_proto list \<Rightarrow> (suggest_engine, u32) handler" where
  "sgrpc_bulk_index env documents =
     answer (op_modify (sn_bulk env (map proto_to_doc documents))) (\<lambda>_. word_of_nat (length documents))"

definition sgrpc_flush :: "suggest_env \<Rightarrow> (suggest_engine, u32) handler" where
  "sgrpc_flush env = answer (op_modify (\<lambda>e. snd (sn_flush env e))) (\<lambda>_. 0)"

definition sgrpc_health :: "(suggest_engine, health_response) handler" where
  "sgrpc_health = answer (op_return ()) (\<lambda>_. \<lparr>hr_healthy = True, hr_status = ''ok''\<rparr>)"

definition sgrpc_stats :: "(suggest_engine, stats_response) handler" where
  "sgrpc_stats = answer (op_get (\<lambda>e.
     \<lparr>sr_doc_count = word_of_nat (sn_term_count e), sr_segment_count = 0, sr_index_size_bytes = 0,
      sr_shard_id = ss_shard_id (sn_config e)\<rparr>)) (\<lambda>s. s)"

text \<open>The remaining calls of the service.\<close>

definition sgrpc_search :: "search_request_proto \<Rightarrow> (suggest_engine, search_response_proto) handler" where
  "sgrpc_search p = refuse Unimplemented ''suggest shard does not implement Search''"

definition sgrpc_get_docs :: "u64 list \<Rightarrow> (suggest_engine, document_proto list) handler" where
  "sgrpc_get_docs ids = refuse Unimplemented ''suggest shard does not implement GetDocs''"

definition sgrpc_delete :: "u64 \<Rightarrow> (suggest_engine, bool) handler" where
  "sgrpc_delete i = refuse Unimplemented ''suggest shard does not implement Delete''"

definition sgrpc_reindex :: "(suggest_engine, u32 \<times> u64) handler" where
  "sgrpc_reindex = refuse Unimplemented ''suggest shard does not implement Reindex''"

definition sgrpc_replicate :: "replicate_request \<Rightarrow> (suggest_engine, bool) handler" where
  "sgrpc_replicate req = refuse Unimplemented ''suggest shard does not implement Replicate''"

definition sgrpc_catch_up :: "u64 \<Rightarrow> (suggest_engine, replicate_request list) handler" where
  "sgrpc_catch_up from_seq = refuse Unimplemented ''suggest shard does not implement ReplicateCatchUp''"

definition sgrpc_full_sync :: "(suggest_engine, document_proto list) handler" where
  "sgrpc_full_sync = refuse Unimplemented ''suggest shard does not implement FullSync''"

section \<open>Prefix queries\<close>

lemma prefix_le: "prefix p t \<Longrightarrow> p \<le> t" for p t :: string
proof (induction p arbitrary: t)
  case (Cons x p)
  then show ?case by (cases t) auto
qed simp

lemma prefix_between: "prefix p u \<Longrightarrow> p \<le> t \<Longrightarrow> t \<le> u \<Longrightarrow> prefix p t" for p t u :: string
proof (induction p arbitrary: t u)
  case (Cons x p)
  obtain u' where u: "u = x # u'" "prefix p u'" using Cons.prems(1) by (cases u) auto
  obtain y t' where t: "t = y # t'" using Cons.prems(2) by (cases t) auto
  have "y = x \<and> p \<le> t' \<and> t' \<le> u'" using Cons.prems(2,3) u(1) t by (auto simp: Cons_le_Cons)
  then show ?case using Cons.IH [OF u(2)] t by simp
qed simp

lemma takeWhile_prefix_sorted:
  fixes xs :: "(string \<times> 'a) list"
  assumes "sorted (map fst xs)" "\<forall>(t, s) \<in> set xs. p \<le> t"
  shows "takeWhile (\<lambda>(t, s). prefix p t) xs = filter (\<lambda>(t, s). prefix p t) xs"
  using assms
proof (induction xs)
  case (Cons x xs)
  show ?case
  proof (cases "prefix p (fst x)")
    case True
    then show ?thesis using Cons by (auto simp: case_prod_beta)
  next
    case False
    then have "\<not> prefix p (fst y)" if "y \<in> set xs" for y
      using prefix_between [of p "fst y" "fst x"] Cons.prems that by (auto simp: case_prod_beta)
    then show ?thesis using False by (auto simp: case_prod_beta intro: filter_False)
  qed
qed simp

lemma dropWhile_less_sorted:
  fixes xs :: "(string \<times> 'a) list"
  assumes "sorted (map fst xs)"
  shows "filter (\<lambda>(t, s). prefix p t) (dropWhile (\<lambda>(t, s). t < p) xs) = filter (\<lambda>(t, s). prefix p t) xs"
    and "\<forall>(t, s) \<in> set (dropWhile (\<lambda>(t, s). t < p) xs). p \<le> t"
    and "sorted (map fst (dropWhile (\<lambda>(t, s). t < p) xs))"
proof -
  show "filter (\<lambda>(t, s). prefix p t) (dropWhile (\<lambda>(t, s). t < p) xs) = filter (\<lambda>(t, s). prefix p t) xs"
  proof (induction xs)
    case (Cons x xs)
    have "\<not> prefix p (fst x)" if "fst x < p" using that prefix_le [of p "fst x"] by auto
    then show ?case using Cons by (auto simp: case_prod_beta)
  qed simp
  show "\<forall>(t, s) \<in> set (dropWhile (\<lambda>(t, s). t < p) xs). p \<le> t"
    using assms by (induction xs) (auto simp: not_less case_prod_beta intro: order_trans)
  show "sorted (map fst (dropWhile (\<lambda>(t, s). t < p) xs))"
    using assms by (induction xs) (auto simp: case_prod_beta)
qed

lemma takeWhile_enumerate:
  "map snd (takeWhile (\<lambda>(i, y). P y) (List.enumerate n xs)) = takeWhile P xs"
  by (induction xs arbitrary: n) simp_all

lemma takeWhile_map_enumerate:
  "map (\<lambda>(i, y). ys ! (k + i)) (takeWhile (\<lambda>(i, y). P y) (List.enumerate 0 (drop k ys))) =
    takeWhile P (drop k ys)"
proof -
  have "map (\<lambda>(i, y). ys ! (k + i)) (takeWhile (\<lambda>(i, y). P y) (List.enumerate 0 (drop k ys))) =
      map snd (takeWhile (\<lambda>(i, y). P y) (List.enumerate 0 (drop k ys)))"
    by (rule map_cong [OF refl]) (auto simp: in_set_enumerate_eq dest!: set_takeWhileD)
  then show ?thesis by (simp add: takeWhile_enumerate)
qed

lemma si_matches_nth:
  assumes "sorted (map fst terms)"
  shows "map ((!) terms) (si_matches terms p) = filter (\<lambda>(t, s). prefix p t) terms"
    and "\<forall>i \<in> set (si_matches terms p). i < length terms"
proof -
  let ?k = "partition_point (\<lambda>(t, s). t < p) terms"
  have lam: "((!) terms) \<circ> (\<lambda>(i, _). ?k + i) = (\<lambda>(i, y :: string \<times> f32). terms ! (?k + i))"
    by (auto simp: fun_eq_iff)
  have "map ((!) terms) (si_matches terms p) = takeWhile (\<lambda>(t, s). prefix p t) (drop ?k terms)"
    using takeWhile_map_enumerate [of terms ?k "\<lambda>(t, s). prefix p t"]
    by (simp add: si_matches_def Let_def lam)
  also have "\<dots> = filter (\<lambda>(t, s). prefix p t) terms"
    using dropWhile_less_sorted [OF assms, of p] takeWhile_prefix_sorted [of "drop ?k terms" p]
    by (simp add: drop_partition_point)
  finally show "map ((!) terms) (si_matches terms p) = filter (\<lambda>(t, s). prefix p t) terms" .
  show "\<forall>i \<in> set (si_matches terms p). i < length terms"
    by (auto simp: si_matches_def Let_def in_set_enumerate_eq dest!: set_takeWhileD)
qed

lemma si_new_sorted: "sorted (map fst (si_terms (si_new terms)))"
proof -
  let ?cmp = "\<lambda>a b :: string \<times> f32. cmp_of (fst a) (fst b)"
  have key: "not_after ?cmp a b \<longleftrightarrow> fst a \<le> fst b" for a b by (auto simp: not_after_def cmp_of_def)
  then have "sorted_by ?cmp (sort_by ?cmp terms)" by (intro sorted_sort_by total_preorder_key)
  moreover have "not_after ?cmp = (\<lambda>a b. fst a \<le> fst b)" using key by (intro ext)
  ultimately show ?thesis by (simp add: si_new_def sorted_by_def sorted_map)
qed

lemma si_new_mset [simp]: "mset (si_terms (si_new terms)) = mset terms"
  by (simp add: si_new_def)

section \<open>Counting\<close>

definition suggest_analyzer :: analyzer where
  "suggest_analyzer = \<lparr>an_tokenizer = UnicodeTokenizer, an_filters = [LowercaseFilter]\<rparr>"

definition field_terms :: "text_env \<Rightarrow> document \<Rightarrow> string \<Rightarrow> string set" where
  "field_terms env doc f =
     (if extract_field doc f = [] then {} else set (analyze_to_terms env suggest_analyzer (extract_field doc f)) - {[]})"

text \<open>In how many fields of how many documents a term occurs.\<close>

definition frequency :: "text_env \<Rightarrow> string list \<Rightarrow> document list \<Rightarrow> string \<Rightarrow> nat" where
  "frequency env fs docs t = length (filter (\<lambda>(doc, f). t \<in> field_terms env doc f) (List.product docs fs))"

definition holds_counts :: "(string \<times> u32) list \<Rightarrow> (string \<Rightarrow> nat) \<Rightarrow> bool" where
  "holds_counts cs n \<longleftrightarrow> distinct (map fst cs) \<and>
     map_of cs = (\<lambda>t. if n t = 0 then None else Some (word_of_nat (n t)))"

lemma count_term_holds:
  "holds_counts cs n \<Longrightarrow> holds_counts (count_term cs t) (\<lambda>u. n u + (if u = t \<and> t \<noteq> [] then 1 else 0))"
  by (auto simp: holds_counts_def count_term_def hm_entry_distinct hm_entry_lookup fun_eq_iff)

lemma count_terms_holds:
  "holds_counts cs n \<Longrightarrow> distinct ts \<Longrightarrow>
    holds_counts (foldl count_term cs ts) (\<lambda>u. n u + (if u \<in> set ts \<and> u \<noteq> [] then 1 else 0))"
proof (induction ts arbitrary: cs n)
  case (Cons t ts)
  have "holds_counts (foldl count_term (count_term cs t) ts)
      (\<lambda>u. (n u + (if u = t \<and> t \<noteq> [] then 1 else 0)) + (if u \<in> set ts \<and> u \<noteq> [] then 1 else 0))"
    using Cons.prems by (intro Cons.IH count_term_holds) simp_all
  moreover have "(\<lambda>u. (n u + (if u = t \<and> t \<noteq> [] then 1 else 0)) + (if u \<in> set ts \<and> u \<noteq> [] then 1 else 0)) =
      (\<lambda>u. n u + (if u \<in> set (t # ts) \<and> u \<noteq> [] then 1 else 0))"
    using Cons.prems(2) by auto
  ultimately show ?case by simp
qed simp

lemma distinct_remdups_adj: "sorted xs \<Longrightarrow> distinct (remdups_adj xs)" for xs :: "'a::linorder list"
  by (induction xs rule: remdups_adj.induct) auto

lemma add_field_holds:
  assumes "holds_counts (sb_counts b) n" "sb_analyzer b = suggest_analyzer"
  shows "holds_counts (sb_counts (add_field env doc b f)) (\<lambda>u. n u + (if u \<in> field_terms env doc f then 1 else 0)) \<and>
    sb_analyzer (add_field env doc b f) = suggest_analyzer"
proof (cases "extract_field doc f = []")
  case True
  then show ?thesis using assms by (simp add: add_field_def field_terms_def)
next
  case False
  let ?ts = "remdups_adj (sort (analyze_to_terms env suggest_analyzer (extract_field doc f)))"
  have "distinct ?ts" by (simp add: distinct_remdups_adj)
  from count_terms_holds [OF assms(1) this] show ?thesis
    using False assms(2) by (simp add: add_field_def Let_def field_terms_def)
qed

lemma add_fields_holds:
  assumes "holds_counts (sb_counts b) n" "sb_analyzer b = suggest_analyzer"
  shows "holds_counts (sb_counts (sb_add_document env fs b doc))
      (\<lambda>u. n u + length (filter (\<lambda>f. u \<in> field_terms env doc f) fs)) \<and>
    sb_analyzer (sb_add_document env fs b doc) = suggest_analyzer"
  using assms
proof (induction fs arbitrary: b n)
  case (Cons f fs)
  note a = add_field_holds [OF Cons.prems, of env doc f]
  have "(\<lambda>u. (n u + (if u \<in> field_terms env doc f then 1 else 0)) + length (filter (\<lambda>f. u \<in> field_terms env doc f) fs)) =
      (\<lambda>u. n u + length (filter (\<lambda>f. u \<in> field_terms env doc f) (f # fs)))" by auto
  with Cons.IH [OF a [THEN conjunct1] a [THEN conjunct2]] show ?case
    by (simp only: sb_add_document_def foldl_Cons)
qed (simp add: sb_add_document_def)

lemma add_documents_holds:
  assumes "holds_counts (sb_counts b) n" "sb_analyzer b = suggest_analyzer"
  shows "holds_counts (sb_counts (foldl (sb_add_document env fs) b docs)) (\<lambda>u. n u + frequency env fs docs u)"
  using assms
proof (induction docs arbitrary: b n)
  case (Cons doc docs)
  note a = add_fields_holds [OF Cons.prems, of env fs doc]
  have "frequency env fs (doc # docs) u =
      length (filter (\<lambda>f. u \<in> field_terms env doc f) fs) + frequency env fs docs u" for u
    by (simp add: frequency_def filter_map comp_def)
  then show ?case using Cons.IH [OF a [THEN conjunct1] a [THEN conjunct2]] by (simp add: add.assoc)
qed (simp add: frequency_def)

lemma sb_new_holds: "holds_counts (sb_counts sb_new) (\<lambda>t. 0)" "sb_analyzer sb_new = suggest_analyzer"
  by (simp_all add: holds_counts_def sb_new_def suggest_analyzer_def fun_eq_iff)

text \<open>What survives the two cuts.\<close>

lemma max_count_bounds: "(t, c) \<in> set cs \<Longrightarrow> c \<le> max_count cs" "1 \<le> max_count cs"
proof -
  have f: "\<forall>y \<in> set ys. y \<le> foldl max x ys" "x \<le> foldl max x ys" for x :: u32 and ys
    by (induction ys arbitrary: x) (auto intro: order_trans [OF max.cobounded1] order_trans [OF max.cobounded2])
  show "1 \<le> max_count cs" by (simp add: max_count_def)
  assume "(t, c) \<in> set cs"
  then have "c \<in> set (map snd cs)" by force
  then show "c \<le> max_count cs"
    using f(1) [of "tl (map snd cs)" "hd (map snd cs)"] f(2) [of "hd (map snd cs)" "tl (map snd cs)"]
    by (cases "map snd cs") (auto simp: max_count_def le_max_iff_disj)
qed

lemma kept_terms_sub:
  assumes "suggest_env_ok env"
  shows "mset (kept_terms env m k b) \<subseteq># mset (sb_counts b)"
    and "(t, c) \<in> set (kept_terms env m k b) \<Longrightarrow> m \<le> c"
    and "0 < k \<Longrightarrow> length (kept_terms env m k b) \<le> unat k"
    and "(t, c) \<in> set (sb_counts b) \<Longrightarrow> m \<le> c \<Longrightarrow> (t, c) \<notin> set (kept_terms env m k b) \<Longrightarrow>
      0 < k \<and> length (kept_terms env m k b) = unat k \<and> (\<forall>(u, e) \<in> set (kept_terms env m k b). c \<le> e)"
proof -
  let ?F = "filter (\<lambda>(t, c). m \<le> c) (sg_order env (sb_counts b))"
  let ?S = "sort_by (\<lambda>a b. cmp_of (snd b) (snd a)) ?F"
  have o: "mset (sg_order env (sb_counts b)) = mset (sb_counts b)" using assms by (simp add: suggest_env_ok_def)
  have F: "mset ?F \<subseteq># mset (sb_counts b)" by (metis o mset_filter multiset_filter_subset)
  have tk: "mset (take n ?S) \<subseteq># mset ?F" for n
    by (metis append_take_drop_id mset_append mset_sort_by mset_subset_eq_add_left)
  show "mset (kept_terms env m k b) \<subseteq># mset (sb_counts b)"
    using F subset_mset.order_trans [OF tk F] by (simp add: kept_terms_def Let_def)
  show "(t, c) \<in> set (kept_terms env m k b) \<Longrightarrow> m \<le> c" for t c
    by (auto simp: kept_terms_def Let_def split: if_splits dest: in_set_takeD)
  show "0 < k \<Longrightarrow> length (kept_terms env m k b) \<le> unat k"
    by (auto simp: kept_terms_def Let_def)
  assume t: "(t, c) \<in> set (sb_counts b)" "m \<le> c" "(t, c) \<notin> set (kept_terms env m k b)"
  have "(t, c) \<in> set ?F" using t(1,2) mset_eq_setD [OF o] by simp
  then have cut: "0 < k" "unat k < length ?F" "kept_terms env m k b = take (unat k) ?S" "(t, c) \<in> set ?S"
    using t(3) by (auto simp: kept_terms_def Let_def split: if_splits)
  have "(t, c) \<in> set (drop (unat k) ?S)"
    using cut(3,4) t(3) by (metis Un_iff append_take_drop_id set_append)
  moreover have "sorted_wrt (\<lambda>a b. snd b \<le> snd a) (take (unat k) ?S @ drop (unat k) ?S)"
    using sort_by_descending [of snd ?F] by simp
  ultimately have "\<forall>(u, e) \<in> set (kept_terms env m k b). c \<le> e"
    unfolding cut(3) sorted_wrt_append by fastforce
  then show "0 < k \<and> length (kept_terms env m k b) = unat k \<and> (\<forall>(u, e) \<in> set (kept_terms env m k b). c \<le> e)"
    using cut(1-3) by simp
qed

section \<open>Properties\<close>

lemma select_best:
  assumes "select_contract select" "total_preorder_on (set xs) cmp" "0 < n" "n < length xs"
    and "x \<in> set (take n (select cmp (n - 1) xs))" "y \<in> set (drop n (select cmp (n - 1) xs))"
  shows "not_after cmp x y"
proof -
  let ?s = "select cmp (n - 1) xs"
  have k: "n - 1 < length xs" using assms(4) by simp
  have ms: "mset ?s = mset xs" using assms(1) k unfolding select_contract_def by blast
  then have len: "length ?s = length xs" by (rule mset_eq_length)
  have mem: "?s ! i \<in> set xs" if "i < length xs" for i
    using mset_eq_setD [OF ms] len that by (metis nth_mem)
  obtain a where a: "a < n" "x = ?s ! a" using assms(4,5) len by (auto simp: in_set_conv_nth)
  obtain c where "c < length (drop n ?s)" "drop n ?s ! c = y" using assms(6) by (auto simp: in_set_conv_nth)
  then have b: "n \<le> n + c" "n + c < length xs" "y = ?s ! (n + c)" using assms(4) len by auto
  have "not_after cmp (?s ! a) (?s ! (n - 1))" "not_after cmp (?s ! (n - 1)) (?s ! (n + c))"
    using assms(1,2) k a(1) b(2) unfolding select_contract_def by auto
  then show ?thesis
    using assms(2) mem [of a] mem [of "n - 1"] mem [of "n + c"] a b k unfolding total_preorder_on_def
    by (metis less_trans assms(4))
qed

text \<open>The best \<open>n\<close> of a list: a selection, of which the front is sorted.\<close>

lemma best_of:
  fixes n :: nat
  assumes "select_contract select" "total_preorder_on (set xs) cmp"
  defines "sel \<equiv> if n < length xs then select cmp (n - 1) xs else xs"
  shows "mset sel = mset xs" "sorted_wrt (not_after cmp) (sort_by cmp (take n sel))"
    "set (sort_by cmp (take n sel)) = set (take n sel)" "set (take n sel) \<subseteq> set xs" "set (drop n sel) \<subseteq> set xs"
    "0 < n \<Longrightarrow> i \<in> set (take n sel) \<Longrightarrow> j \<in> set (drop n sel) \<Longrightarrow> not_after cmp i j"
proof -
  show sel: "mset sel = mset xs" using assms(1) by (auto simp: sel_def select_contract_def)
  show "set (sort_by cmp (take n sel)) = set (take n sel)" by simp
  show sub: "set (take n sel) \<subseteq> set xs" "set (drop n sel) \<subseteq> set xs"
    using mset_eq_setD [OF sel] by (auto dest: in_set_takeD in_set_dropD)
  show "sorted_wrt (not_after cmp) (sort_by cmp (take n sel))"
    using sorted_sort_by [OF total_preorder_on_subset [OF assms(2) sub(1)]] by (simp add: sorted_by_def)
  assume n: "0 < n" and ij: "i \<in> set (take n sel)" "j \<in> set (drop n sel)"
  then have lt: "n < length xs"
    using mset_eq_length [OF sel] by (metis drop_all empty_iff empty_set not_less)
  from select_best [OF assms(1,2) n lt] show "not_after cmp i j" using ij lt by (simp add: sel_def)
qed

text \<open>
  C35: a prefix query returns the best matches: as many of the terms that start with the lower-cased
  prefix as there are, up to the limit, in descending order of score, and no term that is left out
  has a higher score than one that is returned.
\<close>
theorem suggest_query_top:
  assumes "suggest_env_ok env" "\<forall>(t, s) \<in> set terms. \<not> f32_is_nan s" "pre \<noteq> []"
  shows "let hits = filter (\<lambda>(t, s). prefix (to_lowercase (sg_text env) pre) t) terms;
             res = si_query env pre limit (si_new terms)
         in length res = min limit (length hits) \<and>
            sorted_wrt (\<lambda>a b. f32_le (sg_score b) (sg_score a)) res \<and>
            (\<exists>rest. mset (map (\<lambda>r. (sg_term r, sg_score r)) res @ rest) = mset hits \<and>
               (limit = 0 \<or> (\<forall>(t, s) \<in> set rest. \<forall>r \<in> set res. f32_le s (sg_score r))))"
proof -
  let ?p = "to_lowercase (sg_text env) pre" and ?T = "si_terms (si_new terms)"
  let ?M = "filter (\<lambda>(t, s). prefix ?p t)" and ?m = "si_matches (si_terms (si_new terms)) ?p"
  let ?cmp = "\<lambda>a b. f32_cmp_or_equal (snd (?T ! b)) (snd (?T ! a))"
  let ?res = "si_query env pre limit (si_new terms)"
  have hits: "map ((!) ?T) ?m = ?M ?T" and bnd: "\<forall>i \<in> set ?m. i < length ?T"
    using si_matches_nth [OF si_new_sorted] by blast+
  have ms: "mset (?M ?T) = mset (?M terms)" by (simp add: mset_filter)
  have "set ?T = set terms" by (rule mset_eq_setD) simp
  then have nan: "\<not> f32_is_nan (snd (?T ! i))" if "i \<in> set ?m" for i
    using assms(2) bnd that nth_mem [of i ?T] by (fastforce simp: case_prod_beta)
  have key: "not_after ?cmp a b \<longleftrightarrow> - f32_key (snd (?T ! a)) \<le> - f32_key (snd (?T ! b))"
    if "a \<in> set ?m" "b \<in> set ?m" for a b
    using f32_cmp_or_equal_not_after [OF nan [OF that(2)] nan [OF that(1)]]
    by (simp add: not_after_def)
  have le: "f32_le (snd (?T ! a)) (snd (?T ! b)) \<longleftrightarrow> f32_key (snd (?T ! a)) \<le> f32_key (snd (?T ! b))"
    if "a \<in> set ?m" "b \<in> set ?m" for a b
    using that nan by (simp add: f32_le_key)
  have pre: "total_preorder_on (set ?m) ?cmp" by (rule total_preorder_key_on [OF key])
  define sel where "sel = (if limit < length ?m then sg_select env ?cmp (limit - 1) ?m else ?m)"
  have "select_contract (sg_select env)" using assms(1) by (simp add: suggest_env_ok_def)
  note top = best_of [OF this pre, of limit, folded sel_def]
  have len: "length sel = length ?m" by (rule mset_eq_length [OF top(1)])
  let ?sug = "\<lambda>i. \<lparr>sg_term = fst (?T ! i), sg_score = snd (?T ! i)\<rparr>"
  have res: "?res = map ?sug (sort_by ?cmp (take limit sel))" if "0 < limit"
    using assms(3) that by (auto simp: si_query_def Let_def sel_def sort_by_def)
  have best: "f32_key (snd (?T ! j)) \<le> f32_key (snd (?T ! i))"
    if "0 < limit" "i \<in> set (take limit sel)" "j \<in> set (drop limit sel)" for i j
    using top(6) [OF that] key [of i j] that(2,3) top(4,5) by auto
  show ?thesis
  proof (cases "limit = 0")
    case True
    then show ?thesis by (auto simp: si_query_def intro!: exI [of _ "?M terms"])
  next
    case False
    let ?r = "sort_by ?cmp (take limit sel)" and ?rest = "map ((!) ?T) (drop limit sel)"
    have r: "?res = map ?sug ?r" using res False by simp
    have "length ?m = length (?M terms)" using hits ms by (metis length_map mset_eq_length)
    then have 1: "length ?res = min limit (length (?M terms))" by (simp add: r len)
    have mem: "x \<in> set ?m" if "x \<in> set ?r" for x using that top(4) by auto
    have "sorted_wrt (\<lambda>a b. f32_le (snd (?T ! b)) (snd (?T ! a))) ?r"
    proof (rule sorted_wrt_mono_rel [OF _ top(2)])
      fix a b assume "a \<in> set ?r" "b \<in> set ?r" "not_after ?cmp a b"
      then show "f32_le (snd (?T ! b)) (snd (?T ! a))" using key [OF mem mem] le [OF mem mem] by simp
    qed
    then have 2: "sorted_wrt (\<lambda>a b. f32_le (sg_score b) (sg_score a)) ?res"
      unfolding r sorted_wrt_map by simp
    have td: "mset (take limit sel) + mset (drop limit sel) = mset ?m"
      by (metis append_take_drop_id mset_append top(1))
    have "mset (map (\<lambda>r. (sg_term r, sg_score r)) ?res @ ?rest) =
        image_mset ((!) ?T) (mset (take limit sel) + mset (drop limit sel))" by (simp add: r comp_def)
    also have "\<dots> = mset (map ((!) ?T) ?m)" unfolding td by simp
    finally have 3: "mset (map (\<lambda>r. (sg_term r, sg_score r)) ?res @ ?rest) = mset (?M terms)" by (simp add: hits ms)
    have 4: "f32_le s (sg_score x)" if m: "(t, s) \<in> set ?rest" "x \<in> set ?res" for t s x
    proof -
      obtain j where j: "j \<in> set (drop limit sel)" "(t, s) = ?T ! j" using m(1) by auto
      then have s: "s = snd (?T ! j)" by (metis snd_conv)
      obtain i where i: "i \<in> set (take limit sel)" "sg_score x = snd (?T ! i)" using m(2) by (auto simp: r)
      show ?thesis using best [OF _ i(1) j(1)] False le [of j i] i j(1) s top(4,5) by auto
    qed
    show ?thesis unfolding Let_def using 1 2 3 4 by blast
  qed
qed

text \<open>The score of a count among the kept ones.\<close>

definition count_score :: "(string \<times> u32) list \<Rightarrow> u32 \<Rightarrow> f32" where
  "count_score K c = f32_div (f32_of_nat (unat c)) (f32_of_nat (unat (max_count K)))"

lemma max_count_nat: "unat (max_count K) < 2 ^ 32" "0 < unat (max_count K)"
  using unsigned_less [of "max_count K", where 'a = nat] max_count_bounds(2) [of K] by (auto simp: word_le_nat_alt)

lemma count_score_range:
  assumes "(t, c) \<in> set K"
  shows "f32_nonneg (count_score K c)" and "f32_le (F32 0) (count_score K c)"
    and "f32_le (count_score K c) (f32_of_nat 1)"
proof -
  have sc: "f32_fin (count_score K c)" "f32_mag (count_score K c) \<le> 0x3f800000"
    using f32_ratio [of "unat c" "unat (max_count K)"] max_count_bounds(1) [OF assms] max_count_nat [of K]
    by (simp_all add: count_score_def word_le_nat_alt)
  show nn: "f32_nonneg (count_score K c)" by (rule f32_fin_nonneg [OF sc(1)])
  have lits: "f32_fin (F32 0) \<and> f32_mag (F32 0) = 0" "f32_fin (F32 0x3f800000) \<and> f32_mag (F32 0x3f800000) = 0x3f800000"
    using f32_lit [of 0] f32_lit [of "0x3f800000"] by simp_all
  show "f32_le (F32 0) (count_score K c)"
    using nn lits(1) by (simp add: f32_le_key f32_nonneg_key f32_fin_nonneg)
  have one: "f32_of_nat 1 = F32 0x3f800000" by (simp only: f32_consts)
  show "f32_le (count_score K c) (f32_of_nat 1)"
    unfolding one using nn lits(2) sc(2) by (simp add: f32_le_key f32_nonneg_key f32_fin_nonneg)
qed

lemma count_score_mono:
  assumes "(t, c) \<in> set K" "(u, e) \<in> set K" "c \<le> e"
  shows "f32_le (count_score K c) (count_score K e)"
proof -
  have small: "unat x < 2 ^ 32" for x :: u32 using unsigned_less [of x, where 'a = nat] by simp
  have "f32_mag (f32_of_nat (unat c)) \<le> f32_mag (f32_of_nat (unat e))"
    using assms(3) by (intro f32_of_count(3) [OF small]) (simp add: word_le_nat_alt)
  then have "f32_mag (count_score K c) \<le> f32_mag (count_score K e)"
    unfolding count_score_def using f32_of_count(1) [OF small] f32_of_count(2) [OF max_count_nat(1)] max_count_nat(2)
    by (intro f32_div_mono) simp_all
  then show ?thesis
    using count_score_range(1) [OF assms(1)] count_score_range(1) [OF assms(2)]
    by (simp add: f32_le_key f32_nonneg_key)
qed

lemma holds_counts_mem:
  assumes "holds_counts cs n" "\<forall>t. n t < 2 ^ 32"
  shows "(t, c) \<in> set cs \<longleftrightarrow> 0 < n t \<and> unat c = n t"
proof -
  have "(t, c) \<in> set cs \<longleftrightarrow> map_of cs t = Some c"
    using assms(1) by (metis holds_counts_def map_of_eq_Some_iff)
  also have "\<dots> \<longleftrightarrow> 0 < n t \<and> word_of_nat (n t) = c"
    using assms(1) by (simp add: holds_counts_def)
  also have "word_of_nat (n t) = c \<longleftrightarrow> unat c = n t"
  proof
    assume "word_of_nat (n t) = c"
    then have "unat c = unat (word_of_nat (n t) :: u32)" by simp
    then show "unat c = n t" using assms(2) by (simp add: unat_of_nat)
  next
    assume "unat c = n t"
    then have "word_of_nat (n t) = (word_of_nat (unat c) :: u32)" by simp
    then show "word_of_nat (n t) = c" by simp
  qed
  finally show ?thesis .
qed

lemma distinct_keys_sub:
  assumes "mset xs \<subseteq># mset ys" "distinct (map f ys)"
  shows "distinct (map f xs)"
proof -
  obtain R where "mset ys = mset xs + R" using assms(1) by (auto simp: mset_subset_eq_exists_conv)
  then have "mset (map f ys) = mset (map f xs) + image_mset f R" by simp
  moreover obtain rs where "mset rs = image_mset f R" using ex_mset by blast
  ultimately have "mset (map f ys) = mset (map f xs @ rs)" by simp
  then show ?thesis using assms(2) by (metis distinct_append mset_eq_imp_distinct_iff)
qed

lemma snapshot_terms: "si_terms (sb_snapshot env m k b) =
    si_terms (si_new (map (\<lambda>(t, c). (t, count_score (kept_terms env m k b) c)) (kept_terms env m k b)))"
  by (simp add: sb_snapshot_def Let_def count_score_def)

text \<open>
  C21: the suggestions are the frequent terms: after a batch of documents and a flush, the index of a
  suggest shard holds distinct terms in ascending order, at most the configured number, each one
  occurring in at least the configured number of fields; its score lies between 0 and 1 and grows
  with the frequency; and a frequent term is left out only when the index is full of terms that are
  at least as frequent.
\<close>
theorem suggest_snapshot_exact:
  fixes config env docs
  defines "terms \<equiv> si_terms (sn_current (snd (sn_flush env (sn_bulk env docs (sn_new config)))))"
    and "freq \<equiv> frequency (sg_text env) (ss_fields config) docs"
  assumes env: "suggest_env_ok env" and small: "\<forall>t. freq t < 2 ^ 32"
  shows "sorted (map fst terms) \<and> distinct (map fst terms) \<and>
    (ss_max_terms_per_shard config = 0 \<or> length terms \<le> unat (ss_max_terms_per_shard config)) \<and>
    (\<forall>(t, s) \<in> set terms. 0 < freq t \<and> unat (ss_min_doc_frequency config) \<le> freq t \<and>
       f32_le (F32 0) s \<and> f32_le s (f32_of_nat 1)) \<and>
    (\<forall>(t, s) \<in> set terms. \<forall>(u, r) \<in> set terms. freq t \<le> freq u \<longrightarrow> f32_le s r) \<and>
    (\<forall>t. 0 < freq t \<longrightarrow> unat (ss_min_doc_frequency config) \<le> freq t \<longrightarrow> t \<notin> fst ` set terms \<longrightarrow>
       length terms = unat (ss_max_terms_per_shard config) \<and> (\<forall>(u, r) \<in> set terms. freq t \<le> freq u))"
proof -
  let ?m = "ss_min_doc_frequency config" and ?k = "ss_max_terms_per_shard config"
  define b where "b = foldl (sb_add_document (sg_text env) (ss_fields config)) sb_new docs"
  define K where "K = kept_terms env ?m ?k b"
  have terms: "terms = si_terms (si_new (map (\<lambda>(t, c). (t, count_score K c)) K))"
    by (simp add: terms_def sn_flush_def sn_bulk_def sn_new_def snapshot_terms Let_def b_def K_def)
  have counts: "holds_counts (sb_counts b) freq"
    using add_documents_holds [OF sb_new_holds, of "sg_text env" "ss_fields config" docs] by (simp add: b_def freq_def)
  note mem = holds_counts_mem [OF counts small]
  note k = kept_terms_sub [OF env, where m = ?m and k = ?k and b = b, folded K_def]
  have sub: "set K \<subseteq> set (sb_counts b)" using set_mset_mono [OF k(1)] by simp
  have inK: "0 < freq t \<and> unat c = freq t \<and> unat ?m \<le> freq t" if "(t, c) \<in> set K" for t c
    using mem [of t c] sub k(2) [OF that] that by (auto simp: word_le_nat_alt)
  have ms: "mset terms = mset (map (\<lambda>(t, c). (t, count_score K c)) K)" by (simp add: terms)
  have inT: "(t, s) \<in> set terms \<longleftrightarrow> (\<exists>c. (t, c) \<in> set K \<and> s = count_score K c)" for t s
    using mset_eq_setD [OF ms] by force
  have len: "length terms = length K" using mset_eq_length [OF ms] by simp
  have 1: "sorted (map fst terms)" unfolding terms by (rule si_new_sorted)
  have "distinct (map fst K)" by (rule distinct_keys_sub [OF k(1)]) (use counts in \<open>simp add: holds_counts_def\<close>)
  moreover have "mset (map fst terms) = mset (map fst (map (\<lambda>(t, c). (t, count_score K c)) K))"
    using ms by (metis mset_map)
  then have "mset (map fst terms) = mset (map fst K)" by (simp add: comp_def case_prod_beta image_mset.compositionality)
  ultimately have 2: "distinct (map fst terms)" by (metis mset_eq_imp_distinct_iff)
  have 3: "?k = 0 \<or> length terms \<le> unat ?k" using k(3) by (auto simp: len word_gt_0)
  have 4: "\<forall>(t, s) \<in> set terms. 0 < freq t \<and> unat ?m \<le> freq t \<and> f32_le (F32 0) s \<and> f32_le s (f32_of_nat 1)"
  proof -
    have "0 < freq t \<and> unat ?m \<le> freq t \<and> f32_le (F32 0) s \<and> f32_le s (f32_of_nat 1)"
      if m: "(t, s) \<in> set terms" for t s
    proof -
      obtain c where "(t, c) \<in> set K" "s = count_score K c" using m inT by blast
      then show ?thesis using inK count_score_range(2,3) by simp
    qed
    then show ?thesis by blast
  qed
  have "f32_le s r" if "(t, s) \<in> set terms" "(u, r) \<in> set terms" "freq t \<le> freq u" for t s u r
    using that inK count_score_mono unfolding inT by (metis word_le_nat_alt)
  then have 5: "\<forall>(t, s) \<in> set terms. \<forall>(u, r) \<in> set terms. freq t \<le> freq u \<longrightarrow> f32_le s r" by blast
  have 6: "length terms = unat ?k \<and> (\<forall>(u, r) \<in> set terms. freq t \<le> freq u)"
    if t: "0 < freq t" "unat ?m \<le> freq t" "t \<notin> fst ` set terms" for t
  proof -
    let ?c = "word_of_nat (freq t) :: u32"
    have c: "unat ?c = freq t" using small by (simp add: unat_of_nat)
    then have "(t, ?c) \<in> set (sb_counts b)" "?m \<le> ?c" using mem t(1,2) by (simp_all add: word_le_nat_alt)
    moreover have "(t, ?c) \<notin> set K" using t(3) inT by force
    ultimately have *: "length K = unat ?k \<and> (\<forall>(u, e) \<in> set K. ?c \<le> e)" using k(4) by blast
    have "freq t \<le> freq u" if "(u, r) \<in> set terms" for u r
    proof -
      obtain e where "(u, e) \<in> set K" using inT \<open>(u, r) \<in> set terms\<close> by blast
      then show ?thesis using * inK c by (fastforce simp: word_le_nat_alt)
    qed
    then show ?thesis using * len by auto
  qed
  show ?thesis by (intro conjI 1 2 3 4 5 allI impI) (use 6 in blast)+
qed

text \<open>An engine with one document.\<close>

definition example_suggest_env :: suggest_env where
  "example_suggest_env =
     \<lparr>sg_text = ie_text example_env, sg_order = (\<lambda>xs. xs), sg_select = (\<lambda>cmp k xs. sort_by cmp xs)\<rparr>"

lemma example_suggest_env_ok: "suggest_env_ok example_suggest_env"
  using sort_by_selects by (simp add: suggest_env_ok_def example_suggest_env_def)

lemma frequency_le: "frequency env fs docs t \<le> length docs * length fs"
  unfolding frequency_def by (metis length_filter_le length_product)

theorem suggest_query_top_witness:
  "let res = si_query example_suggest_env ''t'' 5 (si_new [(''title'', F32 0), (''other'', F32 0)])
   in length res = 1 \<and> sorted_wrt (\<lambda>a b. f32_le (sg_score b) (sg_score a)) res"
proof -
  have "\<forall>(t, s) \<in> set [(''title'', F32 0), (''other'', F32 0)]. \<not> f32_is_nan s"
    by (simp add: f32_is_nan_def raw_nan_def raw32_def)
  from suggest_query_top [OF example_suggest_env_ok this, of "''t''" 5] show ?thesis
    by (simp add: Let_def example_suggest_env_def example_env_def)
qed

theorem suggest_snapshot_exact_witness:
  "let terms = si_terms (sn_current (snd (sn_flush example_suggest_env
         (sn_bulk example_suggest_env [example_doc 7] (sn_new default_suggest_shard_config)))))
   in sorted (map fst terms) \<and> distinct (map fst terms)"
proof -
  let ?config = default_suggest_shard_config
  have "frequency (sg_text example_suggest_env) (ss_fields ?config) [example_doc 7] t < 2 ^ 32" for t
    using frequency_le [of "sg_text example_suggest_env" "ss_fields ?config" "[example_doc 7]" t]
    by (simp add: default_suggest_shard_config_def default_suggest_fields_def)
  then show ?thesis
    using suggest_snapshot_exact [OF example_suggest_env_ok, of ?config "[example_doc 7]"] by (simp add: Let_def)
qed

end
