(* ===== verification/Meli.thy ===== *)
theory Meli
  imports Analysis
begin

text \<open>
  \<open>crates/meli/src/mapper.rs\<close> and \<open>types.rs\<close>: items of the MercadoLibre API become documents.  The
  identifiers \<open>MLA1234\<close> of the items lose the prefix of their site.
\<close>

section \<open>Items\<close>

record meli_attribute =
  ma_id :: string
  ma_name :: string
  ma_value_name :: "string option"

record meli_item =
  mi_id :: string
  mi_site_id :: string
  mi_title :: string
  mi_price :: f64
  mi_category_id :: string
  mi_condition :: string
  mi_attributes :: "meli_attribute list"
  mi_thumbnail :: string
  mi_status :: string

datatype mapping_error = InvalidId string | InvalidCategoryId string

definition quote :: "string \<Rightarrow> string" where
  "quote s = CHR 0x27 # s @ [CHR 0x27]"

fun mapping_error_display :: "mapping_error \<Rightarrow> string" where
  "mapping_error_display (InvalidId i) =
     ''invalid item id '' @ quote i @ '': expected site prefix + numeric id (e.g. MLA1234)''"
| "mapping_error_display (InvalidCategoryId i) =
     ''invalid category_id '' @ quote i @ '': expected site prefix + numeric id (e.g. MLA109027)''"

section \<open>The mapping\<close>

definition strip_prefix :: "string \<Rightarrow> string \<Rightarrow> u64 option" where
  "strip_prefix i site_id =
     (if prefix site_id i
      then map_option word_of_nat (parse_uint (2 ^ 64) (drop (length site_id) i)) else None)"

text \<open>An entry of the map of attributes, unless the value is empty.\<close>

definition set_nonempty :: "string \<Rightarrow> string \<Rightarrow> (string \<rightharpoonup> attr_value) \<Rightarrow> (string \<rightharpoonup> attr_value)" where
  "set_nonempty key value m = (if value \<noteq> [] then m(key \<mapsto> VString value) else m)"

definition item_attributes :: "text_env \<Rightarrow> meli_attribute list \<Rightarrow> (string \<rightharpoonup> attr_value)" where
  "item_attributes env attrs =
     foldl (\<lambda>m a. case ma_value_name a of None \<Rightarrow> m
       | Some val \<Rightarrow> m(to_lowercase env (ma_id a) \<mapsto> VString val)) Map.empty attrs"

definition meli_map :: "text_env \<Rightarrow> meli_item \<Rightarrow> mapping_error + document" where
  "meli_map env item =
     (case strip_prefix (mi_id item) (mi_site_id item) of
        None \<Rightarrow> Inl (InvalidId (mi_id item))
      | Some i \<Rightarrow>
          (case strip_prefix (mi_category_id item) (mi_site_id item) of
             None \<Rightarrow> Inl (InvalidCategoryId (mi_category_id item))
           | Some category \<Rightarrow>
               Inr \<lparr>d_id = i, d_title = mi_title item, d_description = [], d_price = mi_price item,
                 d_category = show_nat (unat category),
                 d_attributes = set_nonempty ''status'' (mi_status item)
                   (set_nonempty ''thumbnail'' (mi_thumbnail item)
                   (set_nonempty ''condition'' (mi_condition item)
                   (item_attributes env (mi_attributes item))))\<rparr>))"

fun map_batch :: "text_env \<Rightarrow> meli_item list \<Rightarrow> document list \<times> mapping_error list" where
  "map_batch env [] = ([], [])"
| "map_batch env (item # items) =
     (let (docs, errors) = map_batch env items
      in case meli_map env item of
           Inr doc \<Rightarrow> (doc # docs, errors)
         | Inl e \<Rightarrow> (docs, e # errors))"

section \<open>Properties\<close>

lemma strip_prefix_show [simp]: "strip_prefix (site @ show_nat (unat i)) site = Some i"
proof -
  have "unat i < 2 ^ 64" using unsigned_less [of i, where 'a = nat] by simp
  then show ?thesis by (simp add: strip_prefix_def parse_uint_show_nat)
qed

lemma item_attributes_snoc:
  "item_attributes env (attrs @ [a]) =
     (case ma_value_name a of None \<Rightarrow> item_attributes env attrs
      | Some val \<Rightarrow> (item_attributes env attrs)(to_lowercase env (ma_id a) \<mapsto> VString val))"
  by (simp add: item_attributes_def split: option.split)

lemma item_attributes_lookup:
  "item_attributes env attrs k =
     (case List.find (\<lambda>a. ma_value_name a \<noteq> None \<and> to_lowercase env (ma_id a) = k) (rev attrs) of
        None \<Rightarrow> None | Some a \<Rightarrow> map_option VString (ma_value_name a))"
proof (induction attrs rule: rev_induct)
  case Nil
  show ?case by (simp add: item_attributes_def)
next
  case (snoc a attrs)
  then show ?case by (cases "ma_value_name a") (auto simp: item_attributes_snoc)
qed

text \<open>
  What a document of a mapped item is: an item whose id and category are numbers after the prefix
  of its site becomes the document with these numbers, its title and its price; the attribute
  \<open>condition\<close>, \<open>thumbnail\<close> or \<open>status\<close> is the one of the item where that is not empty, and any other
  key has the value of the last attribute that has one and whose lowercase id it is.  An item whose id
  or category does not have the prefix of its site is refused.
\<close>
theorem meli_map_correct:
  "(\<exists>doc. meli_map env (item\<lparr>mi_id := mi_site_id item @ show_nat (unat i),
         mi_category_id := mi_site_id item @ show_nat (unat (c :: u64))\<rparr>) = Inr doc \<and>
     d_id doc = i \<and> d_category doc = show_nat (unat c) \<and> d_title doc = mi_title item \<and>
     d_price doc = mi_price item \<and>
     (\<forall>k. d_attributes doc k =
        (if k = ''status'' \<and> mi_status item \<noteq> [] then Some (VString (mi_status item))
         else if k = ''thumbnail'' \<and> mi_thumbnail item \<noteq> [] then Some (VString (mi_thumbnail item))
         else if k = ''condition'' \<and> mi_condition item \<noteq> [] then Some (VString (mi_condition item))
         else case List.find (\<lambda>a. ma_value_name a \<noteq> None \<and> to_lowercase env (ma_id a) = k)
                 (rev (mi_attributes item)) of
             None \<Rightarrow> None | Some a \<Rightarrow> map_option VString (ma_value_name a)))) \<and>
   (\<not> prefix (mi_site_id item) (mi_id item) \<longrightarrow> meli_map env item = Inl (InvalidId (mi_id item))) \<and>
   (prefix (mi_site_id item) (mi_id item) \<longrightarrow> \<not> prefix (mi_site_id item) (mi_category_id item) \<longrightarrow>
      (\<exists>e. meli_map env item = Inl e))"
proof (intro conjI impI)
  show "\<not> prefix (mi_site_id item) (mi_id item) \<Longrightarrow> meli_map env item = Inl (InvalidId (mi_id item))"
    by (simp add: meli_map_def strip_prefix_def)
  show "\<not> prefix (mi_site_id item) (mi_category_id item) \<Longrightarrow> \<exists>e. meli_map env item = Inl e"
    by (simp add: meli_map_def strip_prefix_def [of "mi_category_id item"] split: option.split)
qed (simp add: meli_map_def set_nonempty_def item_attributes_lookup)

theorem meli_map_correct_witness:
  "\<forall>env. meli_map env \<lparr>mi_id = ''MLB1'', mi_site_id = ''MLA'', mi_title = [], mi_price = F64 0,
     mi_category_id = [], mi_condition = [], mi_attributes = [], mi_thumbnail = [], mi_status = []\<rparr> =
   Inl (InvalidId ''MLB1'')"
proof
  fix env
  let ?item = "\<lparr>mi_id = ''MLB1'', mi_site_id = ''MLA'', mi_title = [], mi_price = F64 0,
     mi_category_id = [], mi_condition = [], mi_attributes = [], mi_thumbnail = [], mi_status = []\<rparr>"
  have "\<not> prefix (mi_site_id ?item) (mi_id ?item)" by simp
  with meli_map_correct [THEN conjunct2, THEN conjunct1, of ?item env]
  show "meli_map env ?item = Inl (InvalidId ''MLB1'')" by simp
qed

lemma map_batch_split:
  "map_batch env items =
     (List.map_filter (\<lambda>item. case meli_map env item of Inr doc \<Rightarrow> Some doc | Inl e \<Rightarrow> None) items,
      List.map_filter (\<lambda>item. case meli_map env item of Inr doc \<Rightarrow> None | Inl e \<Rightarrow> Some e) items)"
  by (induction items) (auto simp: List.map_filter_simps split: sum.split)

lemma map_batch_length: "map_batch env items = (docs, errors) \<Longrightarrow> length docs + length errors = length items"
  by (induction items arbitrary: docs errors) (auto split: prod.splits sum.splits)

end
