(* ===== verification/Remote.thy ===== *)
theory Remote
  imports Effects
begin

text \<open>
  What the router and the rankers use of their surroundings: calls to other processes (gRPC), calls
  with a deadline (\<open>tokio::time::timeout\<close>) and calls that are joined (\<open>join_all\<close>, \<open>tokio::spawn\<close>).
  The world \<open>'s\<close> is whatever the calls act on.

  Calls that are joined are run one after the other in the order in which they are started.
\<close>

section \<open>Remote calls\<close>

text \<open>The answer of a remote call is a message or the text of the error.\<close>

type_synonym ('s, 'a) rpc = "'s \<Rightarrow> (string + 'a) \<times> 's"

definition grpc_call :: "('s, 'a) rpc \<Rightarrow> ('s, 'a) op" where
  "grpc_call m s =
     (case m s of (Inl msg, s') \<Rightarrow> Some (Inl (Grpc msg), s') | (Inr x, s') \<Rightarrow> Some (Inr x, s'))"

lemma grpc_call_returns: "\<exists>r s'. grpc_call m s = Some (r, s')"
  by (cases "m s") (auto simp: grpc_call_def split: sum.split)

lemma op_bind_returns:
  assumes "\<exists>r s'. m s = Some (r, s')" "\<And>x s. \<exists>r s'. f x s = Some (r, s')"
  shows "\<exists>r s'. op_bind m f s = Some (r, s')"
proof -
  obtain r s1 where "m s = Some (r, s1)" using assms(1) by blast
  then show ?thesis using assms(2) by (cases r) (auto simp: op_bind_def)
qed

section \<open>Deadlines\<close>

text \<open>
  A deadline decides when a call that is started takes longer than the given number of milliseconds;
  the call is then abandoned, and \<open>Some s'\<close> is the world it leaves.
\<close>

type_synonym 's deadline = "u64 \<Rightarrow> 's \<Rightarrow> 's option"

definition with_timeout ::
  "'s deadline \<Rightarrow> u64 \<Rightarrow> ('s, 'a) op \<Rightarrow> 's \<Rightarrow> ((error + 'a) option \<times> 's) option" where
  "with_timeout deadline ms m s =
     (case deadline ms s of
        Some s' \<Rightarrow> Some (None, s')
      | None \<Rightarrow> map_option (\<lambda>(r, s'). (Some r, s')) (m s))"

lemma with_timeout_in_time [simp]:
  "with_timeout (\<lambda>_ _. None) ms m s = map_option (\<lambda>(r, s'). (Some r, s')) (m s)"
  by (simp add: with_timeout_def)

section \<open>Joined calls\<close>

fun join_calls :: "('a \<Rightarrow> 's \<Rightarrow> ('b \<times> 's) option) \<Rightarrow> 'a list \<Rightarrow> 's \<Rightarrow> ('b list \<times> 's) option" where
  "join_calls f [] s = Some ([], s)"
| "join_calls f (x # xs) s =
     (case f x s of None \<Rightarrow> None
      | Some (r, s') \<Rightarrow> map_option (\<lambda>(rs, s''). (r # rs, s'')) (join_calls f xs s'))"

text \<open>The first error of joined calls, or all their values.\<close>

fun first_error :: "(error + 'a) list \<Rightarrow> error + 'a list" where
  "first_error [] = Inr []"
| "first_error (r # rs) = res_bind r (\<lambda>x. res_bind (first_error rs) (\<lambda>xs. Inr (x # xs)))"

text \<open>Every call is made, also after one that fails.\<close>

definition join_all :: "('a \<Rightarrow> ('s, 'b) op) \<Rightarrow> 'a list \<Rightarrow> ('s, 'b list) op" where
  "join_all f xs s = map_option (\<lambda>(rs, s'). (first_error rs, s')) (join_calls f xs s)"

lemma join_calls_length: "join_calls f xs s = Some (rs, s') \<Longrightarrow> length rs = length xs"
  by (induction xs arbitrary: s rs) (auto split: option.splits)

lemma join_calls_append:
  "join_calls f (xs @ ys) s =
     (case join_calls f xs s of None \<Rightarrow> None
      | Some (rs, s') \<Rightarrow> map_option (\<lambda>(qs, s''). (rs @ qs, s'')) (join_calls f ys s'))"
proof (induction xs arbitrary: s)
  case Nil
  show ?case by (cases "join_calls f ys s") auto
next
  case (Cons x xs)
  show ?case
  proof (cases "f x s")
    case (Some out)
    obtain r s1 where out: "out = (r, s1)" by (cases out)
    show ?thesis
      using Some out Cons.IH [of s1]
      by (auto split: option.splits simp: option.map_comp comp_def split_def)
  qed simp
qed

text \<open>An invariant of the world that every call keeps is kept by all of them.\<close>

lemma join_calls_keeps:
  assumes "\<And>x s r s'. x \<in> set xs \<Longrightarrow> P s \<Longrightarrow> f x s = Some (r, s') \<Longrightarrow> P s' \<and> Q x r"
  shows "join_calls f xs s = Some (rs, s') \<Longrightarrow> P s \<Longrightarrow> P s' \<and> list_all2 Q xs rs"
  using assms
proof (induction xs arbitrary: s rs)
  case Nil
  then show ?case by simp
next
  case (Cons x xs)
  obtain r s1 rs' where run: "f x s = Some (r, s1)" "join_calls f xs s1 = Some (rs', s')" "rs = r # rs'"
    using Cons.prems(1) by (auto split: option.splits)
  have "P s1 \<and> Q x r" using Cons.prems(3) [OF _ Cons.prems(2) run(1)] by simp
  then show ?case using Cons.IH [OF run(2)] Cons.prems(3) run(3) by auto
qed

text \<open>The calls are made if each of them returns.\<close>

lemma join_calls_returns:
  assumes "\<And>x s. x \<in> set xs \<Longrightarrow> P s \<Longrightarrow> \<exists>r s'. f x s = Some (r, s') \<and> P s'" "P s"
  shows "\<exists>rs s'. join_calls f xs s = Some (rs, s') \<and> P s'"
  using assms
proof (induction xs arbitrary: s)
  case (Cons x xs)
  obtain r s1 where "f x s = Some (r, s1)" "P s1" using Cons.prems by (meson list.set_intros(1))
  moreover obtain rs s' where "join_calls f xs s1 = Some (rs, s') \<and> P s'"
    using Cons.IH [OF _ \<open>P s1\<close>] Cons.prems(1) by (meson list.set_intros(2))
  ultimately show ?case by auto
qed simp

lemma first_error_Inr: "first_error rs = Inr xs \<longleftrightarrow> rs = map Inr xs"
proof (induction rs arbitrary: xs)
  case (Cons r rs)
  show ?case by (cases r) (auto simp: res_bind_Inr Cons)
qed auto

section \<open>Parts of the world\<close>

text \<open>A part of the world: what is put there is found there, and nothing else changes.\<close>

locale cell =
  fixes get :: "'s \<Rightarrow> 't"
    and upd :: "('t \<Rightarrow> 't) \<Rightarrow> 's \<Rightarrow> 's"
  assumes get_upd: "get (upd f s) = f (get s)"
    and upd_upd: "upd f (upd g s) = upd (\<lambda>x. f (g x)) s"
    and upd_id: "upd (\<lambda>x. get s) s = s"
begin

lemma zoom_get: "op_zoom get upd (op_get g) = op_get (\<lambda>s. g (get s))"
  by (rule ext) (simp add: op_zoom_def upd_id)

lemma zoom_state: "op_zoom get upd m s = Some (r, s') \<Longrightarrow> m (get s) = Some (r, get s')"
  by (auto simp: op_zoom_def get_upd split: option.splits)

lemma zoom_put: "m (get s) = Some (r, t) \<Longrightarrow> op_zoom get upd m s = Some (r, upd (\<lambda>_. t) s)"
  by (simp add: op_zoom_def)

end

end
