(* ===== verification/Ranker.thy ===== *)
theory Ranker
  imports Breaker Remote
begin

text \<open>
  The crate \<open>search-ranker\<close> (\<open>crates/ranker/src\<close>): re-rankers of candidates.  A ranker is a function
  of the query and the candidates that acts on the world \<open>'s\<close> and may fail.  \<open>rerank_with_fallback\<close>
  answers with the order of the candidates where the ranker fails or is late.

  The gRPC service, the WASM runtime and a compiled guest module are arguments.
\<close>

type_synonym 's ranker = "string \<Rightarrow> rank_candidate list \<Rightarrow> ('s, ranked_result list) op"

section \<open>Fallback\<close>

text \<open>The order and the scores of the candidates.\<close>

definition bm25_order :: "rank_candidate list \<Rightarrow> ranked_result list" where
  "bm25_order candidates =
     map (\<lambda>c. \<lparr>rr_doc_id = rc_doc_id c, rr_score = rc_bm25_score c\<rparr>) candidates"

definition rerank_with_fallback ::
  "'s deadline \<Rightarrow> 's ranker \<Rightarrow> string \<Rightarrow> rank_candidate list \<Rightarrow> u64 \<Rightarrow> 's \<Rightarrow>
   ((ranked_result list \<times> bool) \<times> 's) option" where
  "rerank_with_fallback deadline ranker query candidates timeout s =
     (case with_timeout deadline timeout (ranker query candidates) s of
        None \<Rightarrow> None
      | Some (Some (Inr results), s') \<Rightarrow> Some ((results, True), s')
      | Some (_, s') \<Rightarrow> Some ((bm25_order candidates, False), s'))"

section \<open>The rankers\<close>

definition noop_rank :: "'s ranker" where
  "noop_rank query candidates = op_return (bm25_order candidates)"

subsection \<open>gRPC\<close>

record rank_candidate_proto =
  rcp_doc_id :: u64
  rcp_bm25_score :: f32
  rcp_title :: string
  rcp_category :: string
  rcp_price :: f64
  rcp_attributes :: "string \<rightharpoonup> string"

record rerank_request =
  rrq_query :: string
  rrq_candidates :: "rank_candidate_proto list"

record 's ranker_service =
  rks_connect :: "('s, unit) rpc"
  rks_rerank :: "rerank_request \<Rightarrow> ('s, ranked_result list) rpc"

definition candidate_to_proto :: "rank_candidate \<Rightarrow> rank_candidate_proto" where
  "candidate_to_proto c =
     \<lparr>rcp_doc_id = rc_doc_id c, rcp_bm25_score = rc_bm25_score c, rcp_title = rc_title c,
      rcp_category = rc_category c, rcp_price = rc_price c,
      rcp_attributes = (\<lambda>k. case rc_attributes c k of Some (VString s) \<Rightarrow> Some s | _ \<Rightarrow> None)\<rparr>"

definition grpc_rank :: "(string \<Rightarrow> 's ranker_service) \<Rightarrow> string \<Rightarrow> 's ranker" where
  "grpc_rank services endpoint query candidates =
     op_bind (grpc_call (rks_connect (services endpoint))) (\<lambda>_.
     grpc_call (rks_rerank (services endpoint)
       \<lparr>rrq_query = query, rrq_candidates = map candidate_to_proto candidates\<rparr>))"

subsection \<open>Circuit breaker\<close>

text \<open>\<open>get\<close> and \<open>upd\<close> are the breaker of the ranker in the world; \<open>clock\<close> is the time of a world.\<close>

definition breaker_rank ::
  "('s \<Rightarrow> u64) \<Rightarrow> ('s \<Rightarrow> circuit_breaker) \<Rightarrow>
   ((circuit_breaker \<Rightarrow> circuit_breaker) \<Rightarrow> 's \<Rightarrow> 's) \<Rightarrow> 's ranker \<Rightarrow> 's ranker" where
  "breaker_rank clock get upd inner query candidates s =
     (if is_open (clock s) (get s) then Some (Inl (Internal ''ranker circuit open''), s)
      else case inner query candidates s of
          None \<Rightarrow> None
        | Some (Inr r, s') \<Rightarrow> Some (Inr r, upd record_success s')
        | Some (Inl e, s') \<Rightarrow> Some (Inl e, upd (record_failure (clock s')) s'))"

subsection \<open>WASM\<close>

text \<open>
  A compiled module is what the runtime does with it: the calls act on the memory \<open>'m\<close> of an instance
  and fail with a message.  An \<open>i32\<close> is a word that is read with its sign.
\<close>

type_synonym i32 = "32 word"

record 'm wasm_guest =
  wg_store :: 'm
  wg_set_fuel :: "u64 \<Rightarrow> ('m, unit) rpc"
  wg_instantiate :: "('m, unit) rpc"
  wg_has_memory :: "'m \<Rightarrow> bool"
  wg_find_alloc :: "('m, unit) rpc"
  wg_find_rerank :: "('m, unit) rpc"
  wg_alloc :: "i32 \<Rightarrow> ('m, i32) rpc"
  wg_rerank :: "i32 \<Rightarrow> i32 \<Rightarrow> i32 \<Rightarrow> ('m, i32) rpc"
  wg_write :: "u64 \<Rightarrow> u8 list \<Rightarrow> ('m, unit) rpc"
  wg_read :: "u64 \<Rightarrow> nat \<Rightarrow> ('m, u8 list) rpc"

record 'm wasm_ranker =
  wr_module :: "'m wasm_guest"
  wr_max_fuel :: u64

definition wasm_call :: "('m, 'a) rpc \<Rightarrow> ('m, 'a) op" where
  "wasm_call m s =
     (case m s of (Inl msg, s') \<Rightarrow> Some (Inl (Internal msg), s') | (Inr x, s') \<Rightarrow> Some (Inr x, s'))"

definition wasm_from_bytes :: "(u8 list \<Rightarrow> string + 'm wasm_guest) \<Rightarrow> u8 list \<Rightarrow> 'm wasm_ranker result" where
  "wasm_from_bytes compile bs =
     (case compile bs of Inl msg \<Rightarrow> Inl (Internal msg)
      | Inr guest \<Rightarrow> Inr \<lparr>wr_module = guest, wr_max_fuel = 1000000000\<rparr>)"

definition wasm_from_file :: "(string \<Rightarrow> string + 'm wasm_guest) \<Rightarrow> string \<Rightarrow> 'm wasm_ranker result" where
  "wasm_from_file compile path =
     (case compile path of Inl msg \<Rightarrow> Inl (Internal msg)
      | Inr guest \<Rightarrow> Inr \<lparr>wr_module = guest, wr_max_fuel = 1000000000\<rparr>)"

definition with_max_fuel :: "u64 \<Rightarrow> 'm wasm_ranker \<Rightarrow> 'm wasm_ranker" where
  "with_max_fuel fuel wr = wr\<lparr>wr_max_fuel := fuel\<rparr>"

text \<open>\<open>slice::chunks(4)\<close>.\<close>

fun chunks4 :: "'a list \<Rightarrow> 'a list list" where
  "chunks4 (a # b # c # d # xs) = [a, b, c, d] # chunks4 xs"
| "chunks4 [] = []"
| "chunks4 xs = [xs]"

definition f32_from_chunk :: "u8 list \<Rightarrow> f32" where
  "f32_from_chunk chunk = F32 (u32_from_le (if length chunk = 4 then chunk else [0, 0, 0, 0]))"

text \<open>A buffer of a negative length, read as \<open>usize\<close>, exceeds the capacity of a vector: a panic.\<close>

definition wasm_rerank :: "'m wasm_ranker \<Rightarrow> rank_candidate list \<Rightarrow> ('m, ranked_result list) op" where
  "wasm_rerank wr candidates =
     (let g = wr_module wr;
          n = (word_of_nat (length candidates) :: i32);
          input_bytes = concat (map (\<lambda>c. u32_le (to_bits (rc_bm25_score c))) candidates)
      in op_bind (wasm_call (wg_set_fuel g (wr_max_fuel wr))) (\<lambda>_.
         op_bind (wasm_call (wg_instantiate g)) (\<lambda>_.
         op_bind (op_get (wg_has_memory g)) (\<lambda>has_memory.
         if \<not> has_memory then op_result (Inl (Internal ''WASM module has no memory export''))
         else
           op_bind (wasm_call (wg_find_alloc g)) (\<lambda>_.
           op_bind (wasm_call (wg_find_rerank g)) (\<lambda>_.
           op_bind (wasm_call (wg_alloc g (word_of_nat (length input_bytes)))) (\<lambda>input_ptr.
           op_bind (wasm_call (wg_write g (scast input_ptr) input_bytes)) (\<lambda>_.
           op_bind (wasm_call (wg_alloc g (n * 4))) (\<lambda>output_ptr.
           op_bind (wasm_call (wg_rerank g input_ptr n output_ptr)) (\<lambda>written.
           if sint (written * 4) < 0 then op_option None
           else
             op_bind (wasm_call (wg_read g (scast output_ptr) (nat (sint (written * 4))))) (\<lambda>out_bytes.
             op_return (map (\<lambda>(c, chunk). \<lparr>rr_doc_id = rc_doc_id c, rr_score = f32_from_chunk chunk\<rparr>)
               (zip candidates (chunks4 out_bytes))))))))))))))"

text \<open>Every call has a store of its own, so the world does not change.\<close>

definition do_rerank :: "'m wasm_ranker \<Rightarrow> string \<Rightarrow> rank_candidate list \<Rightarrow> ranked_result list result option" where
  "do_rerank wr query candidates =
     map_option fst (wasm_rerank wr candidates (wg_store (wr_module wr)))"

definition wasm_rank :: "'m wasm_ranker \<Rightarrow> 's ranker" where
  "wasm_rank wr query candidates s = map_option (\<lambda>r. (r, s)) (do_rerank wr query candidates)"

section \<open>Factory\<close>

record ('s, 'm) ranker_libs =
  rl_services :: "string \<Rightarrow> 's ranker_service"
  rl_compile :: "string \<Rightarrow> string + 'm wasm_guest"
  rl_clock :: "'s \<Rightarrow> u64"
  rl_get_breaker :: "'s \<Rightarrow> circuit_breaker"
  rl_upd_breaker :: "(circuit_breaker \<Rightarrow> circuit_breaker) \<Rightarrow> 's \<Rightarrow> 's"

definition build_inner :: "('s, 'm) ranker_libs \<Rightarrow> ranker_config \<Rightarrow> 's ranker result" where
  "build_inner libs config =
     (case rk_type config of
        NoRanker \<Rightarrow> Inr noop_rank
      | GrpcRankerType \<Rightarrow>
          (case rk_grpc_endpoint config of
             None \<Rightarrow> Inl (ConfigError ''grpc ranker requires grpc_endpoint to be set'')
           | Some endpoint \<Rightarrow> Inr (grpc_rank (rl_services libs) endpoint))
      | WasmRankerType \<Rightarrow>
          (case rk_wasm_module config of
             None \<Rightarrow> Inl (ConfigError ''wasm ranker requires wasm_module path to be set'')
           | Some path \<Rightarrow> res_bind (wasm_from_file (rl_compile libs) path) (\<lambda>wr. Inr (wasm_rank wr))))"

text \<open>The breaker in the world is new when the ranker is built.\<close>

definition ranker_build :: "('s, 'm) ranker_libs \<Rightarrow> ranker_config \<Rightarrow> 's ranker result" where
  "ranker_build libs config =
     res_bind (build_inner libs config) (\<lambda>inner.
     if cb_enabled (rk_circuit_breaker config) \<and> rk_type config = GrpcRankerType
     then Inr (breaker_rank (rl_clock libs) (rl_get_breaker libs) (rl_upd_breaker libs) inner)
     else Inr inner)"

section \<open>Lemmas\<close>

lemma bm25_order_ids [simp]: "map rr_doc_id (bm25_order cs) = map rc_doc_id cs"
  by (simp add: bm25_order_def comp_def)

lemma rerank_with_fallback_cases:
  "rerank_with_fallback deadline ranker query cs timeout s = Some ((results, reranked), s') \<Longrightarrow>
   (reranked \<and> ranker query cs s = Some (Inr results, s')) \<or> (\<not> reranked \<and> results = bm25_order cs)"
  by (auto simp: rerank_with_fallback_def with_timeout_def split: option.splits sum.splits)

lemma rerank_noop [simp]:
  "deadline timeout s = None \<Longrightarrow>
   rerank_with_fallback deadline noop_rank query cs timeout s = Some ((bm25_order cs, True), s)"
  by (simp add: rerank_with_fallback_def with_timeout_def noop_rank_def)

text \<open>The law of a ranker the search relies on: it returns, in every world.\<close>

locale reranker =
  fixes rank :: "'s ranker"
  assumes rank_returns: "\<exists>r s'. rank query cs s = Some (r, s')"
begin

lemma fallback_returns:
  "\<exists>results reranked s'. rerank_with_fallback deadline rank query cs timeout s = Some ((results, reranked), s')"
proof (cases "deadline timeout s")
  case None
  obtain r s' where "rank query cs s = Some (r, s')" using rank_returns by blast
  then show ?thesis using None by (cases r) (auto simp: rerank_with_fallback_def with_timeout_def)
qed (auto simp: rerank_with_fallback_def with_timeout_def)

lemma breaker_returns: "reranker (breaker_rank clock get upd rank)"
proof
  fix query cs s
  obtain r s' where "rank query cs s = Some (r, s')" using rank_returns by blast
  then show "\<exists>r s'. breaker_rank clock get upd rank query cs s = Some (r, s')"
    by (cases r) (auto simp: breaker_rank_def)
qed

end

interpretation noop: reranker noop_rank
  by unfold_locales (simp add: noop_rank_def)

interpretation remote: reranker "grpc_rank services endpoint"
  by unfold_locales (simp add: grpc_rank_def op_bind_returns grpc_call_returns)

end
