(* ===== verification/Availability.thy ===== *)
theory Availability
  imports Config
begin

text \<open>
  \<open>crates/router/src/availability.rs\<close>: the strategies that remove the candidates which are not
  available in the zone of a request.  A strategy acts on the world \<open>'s\<close>, since one of them asks a
  service over HTTP; the service and the parser of floating point numbers are arguments.
\<close>

type_synonym candidate = "u64 \<times> f32"

record 's availability =
  as_apply :: "candidate list \<Rightarrow> (u64 \<rightharpoonup> document) \<Rightarrow> string \<Rightarrow> 's \<Rightarrow> candidate list \<times> 's"
  as_candidate_multiplier :: nat

section \<open>Strategies\<close>

definition noop_strategy :: "'s availability" where
  "noop_strategy = \<lparr>as_apply = (\<lambda>candidates docs zone s. (candidates, s)), as_candidate_multiplier = 1\<rparr>"

record static_strategy =
  st_stock_attribute_prefix :: string
  st_default_available :: bool
  st_min_stock :: f64

definition static_strategy_new :: "static_availability_config \<Rightarrow> static_strategy" where
  "static_strategy_new cfg =
     \<lparr>st_stock_attribute_prefix = sa_stock_attribute_prefix cfg,
      st_default_available = sa_default_available cfg, st_min_stock = sa_min_stock cfg\<rparr>"

definition in_stock ::
  "(string \<Rightarrow> f64 option) \<Rightarrow> static_strategy \<Rightarrow> string \<Rightarrow> document option \<Rightarrow> bool" where
  "in_stock parse_f64 st attr_key doc =
     (case doc of
        None \<Rightarrow> st_default_available st
      | Some doc \<Rightarrow>
          (case d_attributes doc attr_key of
             None \<Rightarrow> st_default_available st
           | Some (VNumber n) \<Rightarrow> f64_le (st_min_stock st) n
           | Some (VString s) \<Rightarrow>
               (case parse_f64 s of None \<Rightarrow> st_default_available st | Some n \<Rightarrow> f64_le (st_min_stock st) n)
           | Some _ \<Rightarrow> st_default_available st))"

definition static_availability :: "(string \<Rightarrow> f64 option) \<Rightarrow> static_strategy \<Rightarrow> 's availability" where
  "static_availability parse_f64 st =
     \<lparr>as_apply = (\<lambda>candidates docs zone s.
        let attr_key = st_stock_attribute_prefix st @ zone
        in (filter (\<lambda>(i, _). in_stock parse_f64 st attr_key (docs i)) candidates, s)),
      as_candidate_multiplier = 3\<rparr>"

text \<open>What the stock service answers: a parsed body, a body that is not understood, another status
  than success, no answer in time.\<close>

datatype stock_answer = StockIds "u64 list" | StockParseError string | StockStatus u16 | StockError string

record region_stock_strategy =
  rg_base_url :: string
  rg_timeout :: u64

definition region_stock_new :: "region_stock_config \<Rightarrow> region_stock_strategy" where
  "region_stock_new cfg = \<lparr>rg_base_url = rs_base_url cfg, rg_timeout = rs_timeout_ms cfg\<rparr>"

fun join_ids :: "u64 list \<Rightarrow> string" where
  "join_ids [] = []"
| "join_ids [i] = show_nat (unat i)"
| "join_ids (i # is) = show_nat (unat i) @ '','' @ join_ids is"

text \<open>The service gets the address, the parameters \<open>zone\<close> and \<open>doc_ids\<close> and the time limit.\<close>

type_synonym 's stock_service = "string \<Rightarrow> string \<Rightarrow> string \<Rightarrow> u64 \<Rightarrow> 's \<Rightarrow> stock_answer \<times> 's"

definition region_stock_availability ::
  "'s stock_service \<Rightarrow> region_stock_strategy \<Rightarrow> 's availability" where
  "region_stock_availability service st =
     \<lparr>as_apply = (\<lambda>candidates docs zone s.
        if candidates = [] then (candidates, s)
        else
          case service (rg_base_url st @ ''/availability'') zone (join_ids (map fst candidates)) (rg_timeout st) s of
            (StockIds available_ids, s') \<Rightarrow> (filter (\<lambda>(i, _). i \<in> set available_ids) candidates, s')
          | (_, s') \<Rightarrow> (candidates, s')),
      as_candidate_multiplier = 3\<rparr>"

text \<open>A missing configuration of the stock service is a panic.\<close>

definition build_strategy ::
  "(string \<Rightarrow> f64 option) \<Rightarrow> 's stock_service \<Rightarrow> availability_config \<Rightarrow> 's availability option" where
  "build_strategy parse_f64 service config =
     (case av_strategy config of
        NoopAvail \<Rightarrow> Some noop_strategy
      | StaticAvail \<Rightarrow>
          let cfg = (case av_static config of Some cfg \<Rightarrow> cfg | None \<Rightarrow> default_static_availability_config)
          in Some (static_availability parse_f64 (static_strategy_new cfg))
      | RegionStockAvail \<Rightarrow>
          (case av_region_stock config of None \<Rightarrow> None
           | Some cfg \<Rightarrow> Some (region_stock_availability service (region_stock_new cfg))))"

section \<open>The law of a strategy\<close>

lemma subseq_mem: "subseq xs ys \<Longrightarrow> set xs \<subseteq> set ys"
  using list_emb_set [of "(=)" xs ys] by blast

lemma subseq_sorted_wrt: "subseq xs ys \<Longrightarrow> sorted_wrt r ys \<Longrightarrow> sorted_wrt r xs"
  by (induction rule: list_emb.induct) (auto dest: subseq_mem)

lemma subseq_distinct: "subseq xs ys \<Longrightarrow> distinct ys \<Longrightarrow> distinct xs"
  by (induction rule: list_emb.induct) (auto dest: subseq_mem)

text \<open>A strategy only removes candidates: it neither adds one, nor reorders them, nor changes a score.\<close>

locale availability_law =
  fixes strategy :: "'s availability"
  assumes apply_subseq: "as_apply strategy candidates docs zone s = (kept, s') \<Longrightarrow> subseq kept candidates"
    and multiplier_pos: "0 < as_candidate_multiplier strategy"
begin

lemma apply_mem:
  "as_apply strategy candidates docs zone s = (kept, s') \<Longrightarrow> set kept \<subseteq> set candidates"
  using apply_subseq subseq_mem by blast

lemma apply_length:
  "as_apply strategy candidates docs zone s = (kept, s') \<Longrightarrow> length kept \<le> length candidates"
  using apply_subseq list_emb_length by blast

lemma apply_sorted:
  assumes "as_apply strategy candidates docs zone s = (kept, s')" "sorted_wrt r candidates"
  shows "sorted_wrt r kept"
  using apply_subseq [OF assms(1)] assms(2) by (rule subseq_sorted_wrt)

lemma apply_distinct:
  assumes "as_apply strategy candidates docs zone s = (kept, s')" "distinct (map fst candidates)"
  shows "distinct (map fst kept)"
  using apply_subseq [OF assms(1)] assms(2) by (metis subseq_map subseq_distinct)

end

interpretation noop_av: availability_law noop_strategy
  by unfold_locales (auto simp: noop_strategy_def)

interpretation static_av: availability_law "static_availability parse_f64 st"
  by unfold_locales (auto simp: static_availability_def Let_def)

lemma region_stock_apply:
  "as_apply (region_stock_availability service st) candidates docs zone s = (kept, s') \<Longrightarrow>
   \<exists>P. kept = filter P candidates"
  by (auto simp: region_stock_availability_def split: if_splits prod.splits stock_answer.splits
      intro: exI [of _ "\<lambda>_. True"])

interpretation region_av: availability_law "region_stock_availability service st"
  by unfold_locales (auto dest!: region_stock_apply, simp add: region_stock_availability_def)

lemma build_strategy_law: "build_strategy parse_f64 service config = Some strategy \<Longrightarrow> availability_law strategy"
  by (auto simp: build_strategy_def Let_def noop_av.availability_law_axioms static_av.availability_law_axioms
      region_av.availability_law_axioms split: availability_strategy_type.splits option.splits)

section \<open>Properties\<close>

text \<open>
  Every strategy that can be configured only removes candidates, and fails open: the stock service
  is asked only about the candidates, and an error, a late answer or a body that is not understood
  keeps all of them; the static strategy keeps exactly the candidates whose stock in the zone reaches
  the minimum, and those whose stock is not known if they count as available.
\<close>
theorem availability_filters:
  assumes "build_strategy parse_f64 service config = Some strategy"
    and "as_apply strategy candidates docs zone s = (kept, s')"
  shows "subseq kept candidates \<and>
    (av_strategy config = NoopAvail \<longrightarrow> kept = candidates) \<and>
    (\<forall>cfg. av_strategy config = StaticAvail \<longrightarrow> av_static config = Some cfg \<longrightarrow>
       kept = filter (\<lambda>(i, _).
         case docs i of None \<Rightarrow> sa_default_available cfg
         | Some doc \<Rightarrow>
             (case d_attributes doc (sa_stock_attribute_prefix cfg @ zone) of
                Some (VNumber n) \<Rightarrow> f64_le (sa_min_stock cfg) n
              | Some (VString t) \<Rightarrow> (case parse_f64 t of Some n \<Rightarrow> f64_le (sa_min_stock cfg) n
                                        | None \<Rightarrow> sa_default_available cfg)
              | _ \<Rightarrow> sa_default_available cfg)) candidates) \<and>
    (\<forall>cfg answer. av_strategy config = RegionStockAvail \<longrightarrow> av_region_stock config = Some cfg \<longrightarrow>
       candidates \<noteq> [] \<longrightarrow>
       fst (service (rs_base_url cfg @ ''/availability'') zone (join_ids (map fst candidates)) (rs_timeout_ms cfg) s)
         = answer \<longrightarrow>
       kept = (case answer of StockIds ids \<Rightarrow> filter (\<lambda>(i, _). i \<in> set ids) candidates | _ \<Rightarrow> candidates))"
proof (intro conjI allI impI)
  show "subseq kept candidates"
    by (rule availability_law.apply_subseq [OF build_strategy_law [OF assms(1)] assms(2)])
  show "kept = candidates" if "av_strategy config = NoopAvail"
    using assms that by (auto simp: build_strategy_def noop_strategy_def)
next
  fix cfg assume "av_strategy config = StaticAvail" "av_static config = Some cfg"
  then show "kept = filter (\<lambda>(i, _).
         case docs i of None \<Rightarrow> sa_default_available cfg
         | Some doc \<Rightarrow>
             (case d_attributes doc (sa_stock_attribute_prefix cfg @ zone) of
                Some (VNumber n) \<Rightarrow> f64_le (sa_min_stock cfg) n
              | Some (VString t) \<Rightarrow> (case parse_f64 t of Some n \<Rightarrow> f64_le (sa_min_stock cfg) n
                                        | None \<Rightarrow> sa_default_available cfg)
              | _ \<Rightarrow> sa_default_available cfg)) candidates"
    using assms
    by (simp add: build_strategy_def static_availability_def static_strategy_new_def Let_def in_stock_def)
      (auto intro!: filter_cong split: option.split attr_value.split)
next
  fix cfg answer
  assume cfg: "av_strategy config = RegionStockAvail" "av_region_stock config = Some cfg" "candidates \<noteq> []"
    and answer: "fst (service (rs_base_url cfg @ ''/availability'') zone (join_ids (map fst candidates))
      (rs_timeout_ms cfg) s) = answer"
  have "strategy = region_stock_availability service (region_stock_new cfg)"
    using assms(1) cfg(1,2) by (simp add: build_strategy_def)
  then show "kept = (case answer of StockIds ids \<Rightarrow> filter (\<lambda>(i, _). i \<in> set ids) candidates | _ \<Rightarrow> candidates)"
    using assms(2) cfg(3) answer
    by (auto simp: region_stock_availability_def region_stock_new_def split: prod.splits stock_answer.splits)
qed

text \<open>Two candidates, one of which is out of stock.\<close>

definition stocked_doc :: "u64 \<Rightarrow> f64 \<Rightarrow> document" where
  "stocked_doc i n =
     \<lparr>d_id = i, d_title = ''lamp'', d_description = [], d_price = F64 0, d_category = [],
      d_attributes = [''stock_ba'' \<mapsto> VNumber n]\<rparr>"

definition example_stock_config :: static_availability_config where
  "example_stock_config = \<lparr>sa_stock_attribute_prefix = ''stock_'', sa_default_available = True,
     sa_min_stock = F64 0x3FF0000000000000\<rparr>"

theorem availability_filters_witness:
  "fst (as_apply (static_availability (\<lambda>_. None) (static_strategy_new example_stock_config))
     [(1, F32 0), (2, F32 0)] [1 \<mapsto> stocked_doc 1 (F64 0x4014000000000000), 2 \<mapsto> stocked_doc 2 (F64 0)] ''ba'' ()) =
   [(1, F32 0)]"
proof -
  let ?config = "\<lparr>av_strategy = StaticAvail, av_static = Some example_stock_config,
    av_region_stock = None\<rparr>"
  let ?strategy = "static_availability (\<lambda>_. None) (static_strategy_new example_stock_config)"
  let ?docs = "[1 \<mapsto> stocked_doc 1 (F64 0x4014000000000000), 2 \<mapsto> stocked_doc 2 (F64 0)]"
  have build: "build_strategy (\<lambda>_. None) service ?config = Some ?strategy" for service :: "unit stock_service"
    by (simp add: build_strategy_def)
  have le: "f64_le (F64 0x3FF0000000000000) (F64 0x4014000000000000)" "\<not> f64_le (F64 0x3FF0000000000000) (F64 0)"
    by (simp_all add: f64_le_def f64_partial_cmp_def raw_cmp_def raw64_def raw_nan_def raw_key_def cmp_of_def)
  obtain kept s' where run: "as_apply ?strategy [(1, F32 0), (2, F32 0)] ?docs ''ba'' () = (kept, s')"
    by (cases "as_apply ?strategy [(1, F32 0), (2, F32 0)] ?docs ''ba'' ()")
  from availability_filters [OF build run, THEN conjunct2, THEN conjunct2, THEN conjunct1, rule_format,
      OF availability_config.select_convs(1) availability_config.select_convs(2)]
  have "kept = filter (\<lambda>(i, _). i = 1) [(1, F32 0), (2, F32 0)]"
    by (simp add: example_stock_config_def stocked_doc_def le)
  then show ?thesis by (simp add: run)
qed

end
