(* ===== verification/Cache.thy ===== *)
theory Cache
  imports Config Remote "HOL-Library.List_Lexorder" "HOL-Library.Char_ord"
begin

text \<open>
  \<open>crates/router/src/cache.rs\<close>: the cache of the router.  Its key is made from a request, so that
  requests that must have the same candidates share an entry: the order of the filters and of the
  values of one filter does not matter, and neither does whether the documents are to be included.

  The cache library (moka) may drop an entry at any time: \<open>keep\<close>, an argument, says whether an entry
  that is looked up is still there.  The \<open>Debug\<close> format of a floating point number is an argument.
\<close>

section \<open>Keys\<close>

record query_cache_key =
  ck_query :: string
  ck_filters :: "(string \<times> string) list"
  ck_aggregations :: "string list"
  ck_sort :: "(string \<times> bool) option"
  ck_offset :: nat
  ck_limit :: nat
  ck_typo_tolerance :: bool
  ck_language :: "string option"
  ck_destination_zone :: "string option"

definition debug_option :: "(f64 \<Rightarrow> string) \<Rightarrow> f64 option \<Rightarrow> string" where
  "debug_option debug_f64 v =
     (case v of None \<Rightarrow> ''None'' | Some x \<Rightarrow> ''Some('' @ debug_f64 x @ '')'')"

definition filter_text :: "(f64 \<Rightarrow> string) \<Rightarrow> filter_value \<Rightarrow> string" where
  "filter_text debug_f64 v =
     (case v of
        Equality e \<Rightarrow> ''eq:'' @ e
      | Range gte lte \<Rightarrow> ''range:'' @ debug_option debug_f64 gte @ '':'' @ debug_option debug_f64 lte
      | MultiValue vals \<Rightarrow> ''in:'' @ join '','' (sort vals))"

definition key_from_request :: "(f64 \<Rightarrow> string) \<Rightarrow> search_request \<Rightarrow> query_cache_key" where
  "key_from_request debug_f64 req =
     \<lparr>ck_query = q_query req,
      ck_filters = sort_by (\<lambda>a b. cmp_of (fst a) (fst b))
        (map (\<lambda>(k, v). (k, filter_text debug_f64 v)) (q_filters req)),
      ck_aggregations = q_aggregations req,
      ck_sort = map_option (\<lambda>s. (sort_field s, sort_order s = Asc)) (q_sort req),
      ck_offset = q_offset req, ck_limit = q_limit req, ck_typo_tolerance = q_typo_tolerance req,
      ck_language = q_language req, ck_destination_zone = q_destination_zone req\<rparr>"

section \<open>The cache\<close>

record cached_response =
  cr_hits :: "(u64 \<times> f32) list"
  cr_total_hits :: u64
  cr_aggregations :: "(string \<times> aggregation_bucket list) list"
  cr_reranked :: bool
  cr_retrieval_mode :: retrieval_mode

type_synonym query_cache = "query_cache_key \<rightharpoonup> cached_response"

definition cache_build :: "query_cache_config \<Rightarrow> query_cache option" where
  "cache_build config = (if qc_enabled config then Some Map.empty else None)"

definition cache_get :: "(query_cache_key \<Rightarrow> bool) \<Rightarrow> query_cache_key \<Rightarrow> query_cache \<Rightarrow>
    cached_response option \<times> query_cache" where
  "cache_get keep key cache = (if keep key then (cache key, cache) else (None, cache(key := None)))"

definition cache_insert :: "query_cache_key \<Rightarrow> cached_response \<Rightarrow> query_cache \<Rightarrow> query_cache" where
  "cache_insert key resp cache = cache(key \<mapsto> resp)"

text \<open>The law of a cache: a lookup finds what was last inserted under the key, or nothing.\<close>

locale cache_law =
  fixes get :: "'c \<Rightarrow> 'k \<Rightarrow> 'v option"
    and lookup :: "'k \<Rightarrow> 'c \<Rightarrow> 'v option \<times> 'c"
    and insert :: "'k \<Rightarrow> 'v \<Rightarrow> 'c \<Rightarrow> 'c"
  assumes lookup_sound: "lookup k c = (r, c') \<Longrightarrow> (r = None \<or> r = get c k) \<and> (\<forall>k'. get c' k' = None \<or> get c' k' = get c k')"
    and insert_get: "get (insert k v c) k' = (if k' = k then Some v else get c k')"
begin

lemma lookup_inserted:
  assumes "lookup k (insert k v c) = (Some r, c')"
  shows "r = v"
  using lookup_sound [OF assms] insert_get by simp

lemma lookup_holds:
  assumes "\<forall>k v. get c k = Some v \<longrightarrow> P k v" "lookup k c = (r, c')"
  shows "(\<forall>v. r = Some v \<longrightarrow> P k v) \<and> (\<forall>k v. get c' k = Some v \<longrightarrow> P k v)"
  using lookup_sound [OF assms(2)] assms(1) by (metis option.distinct(1))

lemma insert_holds:
  "\<forall>k v. get c k = Some v \<longrightarrow> P k v \<Longrightarrow> P k v \<Longrightarrow> \<forall>k' v'. get (insert k v c) k' = Some v' \<longrightarrow> P k' v'"
  by (simp add: insert_get)

end

interpretation router_cache: cache_law "\<lambda>c. c" "cache_get keep" cache_insert
  by unfold_locales (auto simp: cache_get_def cache_insert_def split: if_splits)

section \<open>When keys are equal\<close>

lemma sort_Nil_iff: "sort xs = [] \<longleftrightarrow> xs = []" for xs :: "'a::linorder list"
  by (metis mset_sort mset_zero_iff)

lemma sort_eq_mset: "sort xs = sort ys \<longleftrightarrow> mset xs = mset ys" for xs ys :: "'a::linorder list"
  by (metis mset_sort properties_for_sort sorted_sort)

text \<open>Two filters the search treats alike.\<close>

fun same_filter :: "filter_value \<Rightarrow> filter_value \<Rightarrow> bool" where
  "same_filter (MultiValue xs) (MultiValue ys) \<longleftrightarrow> mset xs = mset ys"
| "same_filter v w \<longleftrightarrow> v = w"

text \<open>The filters for which the text is exact: no comma in a list of values, at least one value, and
  bounds that are numbers.\<close>

fun plain_filter :: "filter_value \<Rightarrow> bool" where
  "plain_filter (MultiValue xs) \<longleftrightarrow> xs \<noteq> [] \<and> (\<forall>x \<in> set xs. CHR '','' \<notin> set x)"
| "plain_filter (Range gte lte) \<longleftrightarrow> (\<forall>x. gte = Some x \<or> lte = Some x \<longrightarrow> \<not> f64_is_nan x)"
| "plain_filter (Equality x) \<longleftrightarrow> True"

text \<open>The \<open>Debug\<close> text of a number determines it and has no colon.\<close>

definition debug_exact :: "(f64 \<Rightarrow> string) \<Rightarrow> bool" where
  "debug_exact debug_f64 \<longleftrightarrow>
     inj_on debug_f64 {x. \<not> f64_is_nan x} \<and> (\<forall>x. CHR '':'' \<notin> set (debug_f64 x))"

lemma debug_option_exact:
  assumes "debug_exact debug_f64"
  shows "CHR '':'' \<notin> set (debug_option debug_f64 v)"
    and "(\<forall>x. v = Some x \<or> w = Some x \<longrightarrow> \<not> f64_is_nan x) \<Longrightarrow>
      debug_option debug_f64 v = debug_option debug_f64 w \<longleftrightarrow> v = w"
  using assms by (auto simp: debug_exact_def debug_option_def inj_on_def split: option.splits)

lemma filter_text_exact:
  assumes "debug_exact debug_f64" "plain_filter v" "plain_filter w"
  shows "filter_text debug_f64 v = filter_text debug_f64 w \<longleftrightarrow> same_filter v w"
proof -
  have range: "a @ '':'' @ b = c @ '':'' @ d \<longleftrightarrow> a = c \<and> b = d"
    if "CHR '':'' \<notin> set a" "CHR '':'' \<notin> set c" for a b c d :: string
    using append_marker_inj [OF that] by simp
  show ?thesis
  proof (cases v)
    case v: (Equality e)
    then show ?thesis by (cases w) (auto simp: filter_text_def)
  next
    case v: (Range g l)
    show ?thesis
    proof (cases w)
      case w: (Range g' l')
      have "filter_text debug_f64 v = filter_text debug_f64 w \<longleftrightarrow>
          debug_option debug_f64 g = debug_option debug_f64 g' \<and> debug_option debug_f64 l = debug_option debug_f64 l'"
        using range [OF debug_option_exact(1) [OF assms(1), of g] debug_option_exact(1) [OF assms(1), of g']]
        by (simp add: filter_text_def v w)
      then show ?thesis
        using debug_option_exact(2) [OF assms(1)] assms(2,3) by (auto simp: v w)
    qed (auto simp: v filter_text_def)
  next
    case v: (MultiValue xs)
    show ?thesis
    proof (cases w)
      case w: (MultiValue ys)
      have "join '','' (sort xs) = join '','' (sort ys) \<longleftrightarrow> sort xs = sort ys"
        using assms(2,3) by (intro join_inj) (auto simp: v w sort_Nil_iff)
      then show ?thesis by (simp add: filter_text_def v w sort_eq_mset)
    qed (auto simp: v filter_text_def)
  qed
qed

definition filters_ok :: "search_request \<Rightarrow> bool" where
  "filters_ok req \<longleftrightarrow> distinct (map fst (q_filters req)) \<and> (\<forall>(k, v) \<in> set (q_filters req). plain_filter v)"

lemma sort_entries_unique:
  fixes xs ys :: "('k::linorder \<times> 'v) list"
  assumes "distinct (map fst xs)" "distinct (map fst ys)"
  shows "sort_by (\<lambda>a b. cmp_of (fst a) (fst b)) xs = sort_by (\<lambda>a b. cmp_of (fst a) (fst b)) ys \<longleftrightarrow>
    map_of xs = map_of ys"
proof
  let ?sort = "sort_by (\<lambda>a b. cmp_of (fst a) (fst b))"
  assume "?sort xs = ?sort ys"
  then have "set xs = set ys" by (metis set_sort_by)
  then show "map_of xs = map_of ys" by (simp add: assms map_of_inject_set)
next
  let ?sort = "sort_by (\<lambda>a b. cmp_of (fst a) (fst b))"
  assume "map_of xs = map_of ys"
  then have set: "set xs = set ys" by (simp add: assms map_of_inject_set)
  have sorted: "sorted (map fst (?sort zs))" for zs :: "('k \<times> 'v) list"
  proof -
    have "sorted_wrt (\<lambda>a b. fst a \<le> fst b) (?sort zs)"
      by (rule sort_contract_key [OF sort_by_contract]) (auto simp: not_after_def cmp_of_def)
    then show ?thesis by (simp add: sorted_map)
  qed
  have distinct: "distinct (map fst (?sort zs))" if "distinct (map fst zs)" for zs :: "('k \<times> 'v) list"
    using that by (metis mset_map mset_sort_by mset_eq_imp_distinct_iff)
  have "inj_on fst (set xs)" using assms(1) by (simp add: distinct_map)
  then show "?sort xs = ?sort ys"
    by (intro map_sorted_distinct_set_unique [of fst]) (simp_all add: sorted distinct assms set)
qed

text \<open>
  C20: the key of the cache is exact: two requests have the same key if and only if they agree on
  everything but \<open>include_docs\<close>, where the filters may be in any order and the values of a list of
  values too, provided that lists of values are not empty and no value has a comma in it.
\<close>
theorem cache_key_exact:
  assumes "debug_exact debug_f64" "filters_ok r1" "filters_ok r2"
  shows "key_from_request debug_f64 r1 = key_from_request debug_f64 r2 \<longleftrightarrow>
    q_query r1 = q_query r2 \<and> q_aggregations r1 = q_aggregations r2 \<and> q_sort r1 = q_sort r2 \<and>
    q_offset r1 = q_offset r2 \<and> q_limit r1 = q_limit r2 \<and> q_typo_tolerance r1 = q_typo_tolerance r2 \<and>
    q_language r1 = q_language r2 \<and> q_destination_zone r1 = q_destination_zone r2 \<and>
    (\<forall>k. rel_option same_filter (map_of (q_filters r1) k) (map_of (q_filters r2) k))"
proof -
  let ?texts = "\<lambda>r. map (\<lambda>(k, v). (k, filter_text debug_f64 v)) (q_filters r)"
  have sort_field: "map_option (\<lambda>s. (sort_field s, sort_order s = Asc)) a =
      map_option (\<lambda>s. (sort_field s, sort_order s = Asc)) b \<longleftrightarrow> a = b" for a b :: "sort_spec option"
    by (cases a; cases b) (auto intro!: sort_spec.equality, (metis sort_order.exhaust)+)
  have keys: "distinct (map fst (?texts r1))" "distinct (map fst (?texts r2))"
    using assms(2,3) by (simp_all add: filters_ok_def comp_def case_prod_beta)
  have plain: "plain_filter v" if "filters_ok r" "map_of (q_filters r) k = Some v" for r k v
    using that by (auto simp: filters_ok_def dest: map_of_SomeD)
  have "map_of (?texts r1) = map_of (?texts r2) \<longleftrightarrow>
      (\<forall>k. map_option (filter_text debug_f64) (map_of (q_filters r1) k) =
           map_option (filter_text debug_f64) (map_of (q_filters r2) k))"
    by (simp add: fun_eq_iff map_of_map)
  also have "\<dots> \<longleftrightarrow> (\<forall>k. rel_option same_filter (map_of (q_filters r1) k) (map_of (q_filters r2) k))"
  proof (rule all_cong1)
    fix k
    show "(map_option (filter_text debug_f64) (map_of (q_filters r1) k) =
           map_option (filter_text debug_f64) (map_of (q_filters r2) k)) \<longleftrightarrow>
         rel_option same_filter (map_of (q_filters r1) k) (map_of (q_filters r2) k)"
      using plain [OF assms(2), of k] plain [OF assms(3), of k] filter_text_exact [OF assms(1)]
      by (cases "map_of (q_filters r1) k"; cases "map_of (q_filters r2) k") auto
  qed
  finally show ?thesis
    using sort_entries_unique [OF keys] by (auto simp: key_from_request_def sort_field)
qed

text \<open>With commas the key is not exact: a list of two values has the key of one value.\<close>

definition colour_request :: "string list \<Rightarrow> search_request" where
  "colour_request vals = default_request\<lparr>q_filters := [(''colour'', MultiValue vals)]\<rparr>"

lemma cache_key_collision:
  "key_from_request debug_f64 (colour_request [''a'', ''b'']) =
   key_from_request debug_f64 (colour_request [''a,b''])"
  by (simp add: key_from_request_def colour_request_def filter_text_def)

text \<open>A printer of numbers that determines them: the decimal digits of the bits.\<close>

definition bits_text :: "f64 \<Rightarrow> string" where
  "bits_text x = show_nat (unat (to_bits64 x))"

lemma show_nat_digits: "c \<in> set (show_nat n) \<Longrightarrow> dec_digit c \<noteq> None"
proof (induction n rule: show_nat.induct)
  case (1 n)
  then show ?case by (subst (asm) show_nat.simps) (auto simp: dec_digit_char split: if_splits)
qed

lemma bits_text_exact: "debug_exact bits_text"
proof -
  have "inj bits_text"
  proof (rule injI)
    fix x y assume "bits_text x = bits_text y"
    then have "unat (to_bits64 x) = unat (to_bits64 y)"
      unfolding bits_text_def by (metis option.inject parse_digits_show_nat)
    then show "x = y" by (metis f64.expand unsigned_word_eqI)
  qed
  moreover have "CHR '':'' \<notin> set (bits_text x)" for x
    using show_nat_digits [of "CHR '':''" "unat (to_bits64 x)"] by (auto simp: bits_text_def dec_digit_def)
  ultimately show ?thesis by (auto simp: debug_exact_def intro: inj_on_subset)
qed

theorem cache_key_exact_witness:
  "key_from_request bits_text (colour_request [''a'', ''b'']) =
     key_from_request bits_text (colour_request [''b'', ''a'']) \<and>
   key_from_request bits_text (colour_request [''a'']) \<noteq> key_from_request bits_text (colour_request [''b''])"
proof -
  have ok: "filters_ok (colour_request vals)" if "vals \<noteq> []" "\<forall>x \<in> set vals. CHR '','' \<notin> set x" for vals
    using that by (simp add: filters_ok_def colour_request_def)
  have "filters_ok (colour_request [''a'', ''b''])" "filters_ok (colour_request [''b'', ''a''])"
    "filters_ok (colour_request [''a''])" "filters_ok (colour_request [''b''])"
    by (rule ok; simp)+
  with cache_key_exact [OF bits_text_exact] show ?thesis by (simp add: colour_request_def)
qed

end
