(* ===== verification/Client.thy ===== *)
theory Client
  imports Breaker Remote ShardGrpc Suggest
begin

text \<open>
  \<open>crates/router/src/client.rs\<close> and \<open>breaker.rs\<close>: the clients through which the router uses the
  shards, and the groups of a primary and its replicas.  A \<open>dyn ShardClient\<close> is the record of its
  methods; they act on the world \<open>'s\<close>, in which the shards live.  A client of a part of the world gets
  the part by \<open>get\<close> and \<open>upd\<close>.
\<close>

section \<open>The interface\<close>

record shard_search_result =
  sres_hits :: "(u64 \<times> f32) list"
  sres_total_hits :: u64
  sres_aggregations :: "(string \<times> counts) list"
  sres_used_or_fallback :: bool

text \<open>The time a reindexing takes is left out.\<close>

record reindex_stats =
  ri_shard_id :: u32
  ri_docs_reindexed :: u64

record 's shard_client =
  is_circuit_open :: "'s \<Rightarrow> bool"
  c_search :: "search_request \<Rightarrow> ('s, shard_search_result) op"
  c_index :: "document \<Rightarrow> ('s, unit) op"
  c_bulk :: "document list \<Rightarrow> ('s, u32) op"
  c_delete :: "u64 \<Rightarrow> ('s, unit) op"
  c_get_docs :: "u64 list \<Rightarrow> ('s, document list) op"
  c_stats :: "('s, shard_stats) op"
  c_flush :: "('s, unit) op"
  c_reindex :: "('s, reindex_stats) op"
  c_health :: "('s, bool) op"
  c_suggest :: "string \<Rightarrow> string \<Rightarrow> nat \<Rightarrow> ('s, suggest_term list) op"

text \<open>The default methods of the trait.\<close>

definition default_is_circuit_open :: "'s \<Rightarrow> bool" where
  "default_is_circuit_open s = False"

definition default_suggest :: "string \<Rightarrow> string \<Rightarrow> nat \<Rightarrow> ('s, suggest_term list) op" where
  "default_suggest pre field limit = op_return []"

section \<open>Groups\<close>

text \<open>The counter of a group, an atomic \<open>usize\<close>, is kept by the router.\<close>

record 's shard_group =
  gr_primary :: "'s shard_client"
  gr_replicas :: "'s shard_client list"

definition primary_only :: "'s shard_client \<Rightarrow> 's shard_group" where
  "primary_only primary = \<lparr>gr_primary = primary, gr_replicas = []\<rparr>"

definition write_target :: "'s shard_group \<Rightarrow> 's shard_client" where
  "write_target grp = gr_primary grp"

definition endpoint_at :: "'s shard_group \<Rightarrow> nat \<Rightarrow> 's shard_client" where
  "endpoint_at grp idx = (if idx = 0 then gr_primary grp else gr_replicas grp ! (idx - 1))"

text \<open>\<open>start\<close> is the value of the counter, which every call increments.\<close>

definition read_target :: "'s shard_group \<Rightarrow> u64 \<Rightarrow> 's \<Rightarrow> 's shard_client" where
  "read_target grp start s =
     (let total = 1 + length (gr_replicas grp)
      in case List.find (\<lambda>client. \<not> is_circuit_open client s)
             (map (\<lambda>i. endpoint_at grp (unat (start + word_of_nat i) mod total)) [0..<total]) of
           Some client \<Rightarrow> client
         | None \<Rightarrow> gr_primary grp)"

definition group_replica_count :: "'s shard_group \<Rightarrow> nat" where
  "group_replica_count grp = length (gr_replicas grp)"

definition replica_clients :: "'s shard_group \<Rightarrow> 's shard_client list" where
  "replica_clients grp = gr_replicas grp"

section \<open>A shard in the same process\<close>

definition local_result :: "search_response \<Rightarrow> shard_search_result" where
  "local_result resp =
     \<lparr>sres_hits = map (\<lambda>h. (hit_id h, hit_score h)) (r_hits resp), sres_total_hits = r_total_hits resp,
      sres_aggregations = map (\<lambda>(field, buckets).
        (field, map (\<lambda>b. (bucket_value b, bucket_count b)) buckets)) (r_aggregations resp),
      sres_used_or_fallback = (r_retrieval_mode resp = OrFallback)\<rparr>"

definition local_shard_client ::
  "shard_env \<Rightarrow> ('s \<Rightarrow> shard) \<Rightarrow> ((shard \<Rightarrow> shard) \<Rightarrow> 's \<Rightarrow> 's) \<Rightarrow> 's shard_client" where
  "local_shard_client sv get upd =
     \<lparr>is_circuit_open = default_is_circuit_open,
      c_search = (\<lambda>request. op_bind (op_zoom get upd (shard_search sv request)) (\<lambda>resp.
        op_return (local_result resp))),
      c_index = (\<lambda>doc. op_zoom get upd (shard_index sv doc)),
      c_bulk = (\<lambda>docs. op_bind (op_zoom get upd (shard_index_batch sv docs)) (\<lambda>_.
        op_return (word_of_nat (length docs)))),
      c_delete = (\<lambda>doc_id. op_zoom get upd (shard_delete sv doc_id)),
      c_get_docs = (\<lambda>doc_ids. op_zoom get upd (op_get (shard_get_docs sv doc_ids))),
      c_stats = op_zoom get upd (op_get (shard_stats_of sv)),
      c_flush = op_zoom get upd (flush sv),
      c_reindex = op_bind (op_zoom get upd (reindex_self sv)) (\<lambda>n.
        op_return \<lparr>ri_shard_id = sc_shard_id (sv_config sv), ri_docs_reindexed = n\<rparr>),
      c_health = op_return True,
      c_suggest = default_suggest\<rparr>"

definition local_suggest_client ::
  "suggest_env \<Rightarrow> ('s \<Rightarrow> suggest_engine) \<Rightarrow> ((suggest_engine \<Rightarrow> suggest_engine) \<Rightarrow> 's \<Rightarrow> 's) \<Rightarrow>
   's shard_client" where
  "local_suggest_client env get upd =
     \<lparr>is_circuit_open = default_is_circuit_open,
      c_search = (\<lambda>request. op_result (Inl (ConfigError ''suggest shard does not implement search''))),
      c_index = (\<lambda>doc. op_modify (upd (sn_index env doc))),
      c_bulk = (\<lambda>docs. op_bind (op_modify (upd (sn_bulk env docs))) (\<lambda>_.
        op_return (word_of_nat (length docs)))),
      c_delete = (\<lambda>doc_id. op_return ()),
      c_get_docs = (\<lambda>doc_ids. op_return []),
      c_stats = op_get (\<lambda>s. \<lparr>ss_doc_count = word_of_nat (sn_term_count (get s)), ss_segment_count = 0,
        ss_buffer_doc_count = 0, ss_buffer_size_bytes = 0,
        ss_stats_shard_id = ss_shard_id (sn_config (get s))\<rparr>),
      c_flush = op_modify (upd (\<lambda>e. snd (sn_flush env e))),
      c_reindex = op_get (\<lambda>s. \<lparr>ri_shard_id = ss_shard_id (sn_config (get s)), ri_docs_reindexed = 0\<rparr>),
      c_health = op_return True,
      c_suggest = (\<lambda>pre field limit. op_get (\<lambda>s. sn_suggest env pre field limit (get s)))\<rparr>"

section \<open>A shard in another process\<close>

text \<open>The calls of the gRPC service behind an endpoint.\<close>

record 's shard_service =
  svc_connect :: "('s, unit) rpc"
  svc_search :: "search_request_proto \<Rightarrow> ('s, search_response_proto) rpc"
  svc_index :: "document_proto option \<Rightarrow> ('s, bool) rpc"
  svc_bulk_index :: "document_proto list \<Rightarrow> ('s, u32) rpc"
  svc_delete :: "u64 \<Rightarrow> ('s, bool) rpc"
  svc_get_docs :: "u64 list \<Rightarrow> ('s, document_proto list) rpc"
  svc_stats :: "('s, stats_response) rpc"
  svc_flush :: "('s, u32) rpc"
  svc_reindex :: "('s, u32 \<times> u64) rpc"
  svc_health :: "('s, health_response) rpc"
  svc_suggest :: "string \<Rightarrow> string \<Rightarrow> u32 \<Rightarrow> ('s, suggest_term list) rpc"

definition filter_to_proto :: "filter_value \<Rightarrow> filter_proto" where
  "filter_to_proto fv =
     (case fv of Equality e \<Rightarrow> EqFilter e | Range gte lte \<Rightarrow> RangeFilter gte lte | MultiValue vals \<Rightarrow> MultiFilter vals)"

definition search_request_to_proto :: "search_request \<Rightarrow> search_request_proto" where
  "search_request_to_proto req =
     \<lparr>qp_query = q_query req,
      qp_filters = map (\<lambda>(field, fv). (field, Some (filter_to_proto fv))) (q_filters req),
      qp_aggregations = q_aggregations req,
      qp_sort = map_option (\<lambda>s. \<lparr>sp_field = sort_field s,
        sp_order = (case sort_order s of Asc \<Rightarrow> PROTO_ASC | Desc \<Rightarrow> 0)\<rparr>) (q_sort req),
      qp_offset = word_of_nat (q_offset req), qp_limit = word_of_nat (q_limit req),
      qp_typo_tolerance = q_typo_tolerance req, qp_language = q_language req\<rparr>"

definition agg_result_to_counts :: "aggregation_bucket list \<Rightarrow> counts" where
  "agg_result_to_counts buckets = map (\<lambda>b. (bucket_value b, bucket_count b)) buckets"

definition remote_result :: "search_response_proto \<Rightarrow> shard_search_result" where
  "remote_result resp =
     \<lparr>sres_hits = map (\<lambda>h. (sdoc_id h, sdoc_score h)) (rp_hits resp),
      sres_total_hits = rp_total_hits resp,
      sres_aggregations = map (\<lambda>(field, agg). (field, agg_result_to_counts agg)) (rp_aggregations resp),
      sres_used_or_fallback = (rp_retrieval_mode resp = ''or_fallback'')\<rparr>"

text \<open>Every call connects first.\<close>

definition remote_call :: "'s shard_service \<Rightarrow> ('s, 'a) rpc \<Rightarrow> ('s, 'a) op" where
  "remote_call svc m = op_bind (grpc_call (svc_connect svc)) (\<lambda>_. grpc_call m)"

definition remote_health :: "'s shard_service \<Rightarrow> ('s, bool) op" where
  "remote_health svc s =
     (case remote_call svc (svc_health svc) s of
        None \<Rightarrow> None
      | Some (r, s') \<Rightarrow> Some (Inr (is_ok r), s'))"

definition remote_shard_client :: "(string \<Rightarrow> 's shard_service) \<Rightarrow> string \<Rightarrow> 's shard_client" where
  "remote_shard_client services endpoint =
     (let svc = services endpoint
      in \<lparr>is_circuit_open = default_is_circuit_open,
          c_search = (\<lambda>request. op_bind (remote_call svc (svc_search svc (search_request_to_proto request)))
            (\<lambda>resp. op_return (remote_result resp))),
          c_index = (\<lambda>doc. op_bind (remote_call svc (svc_index svc (Some (doc_to_proto doc)))) (\<lambda>_. op_return ())),
          c_bulk = (\<lambda>docs. remote_call svc (svc_bulk_index svc (map doc_to_proto docs))),
          c_delete = (\<lambda>doc_id. op_bind (remote_call svc (svc_delete svc doc_id)) (\<lambda>_. op_return ())),
          c_get_docs = (\<lambda>doc_ids. op_bind (remote_call svc (svc_get_docs svc doc_ids)) (\<lambda>documents.
            op_return (map proto_to_doc documents))),
          c_stats = op_bind (remote_call svc (svc_stats svc)) (\<lambda>resp.
            op_return \<lparr>ss_doc_count = sr_doc_count resp, ss_segment_count = sr_segment_count resp,
              ss_buffer_doc_count = 0, ss_buffer_size_bytes = 0, ss_stats_shard_id = sr_shard_id resp\<rparr>),
          c_flush = op_bind (remote_call svc (svc_flush svc)) (\<lambda>_. op_return ()),
          c_reindex = op_bind (remote_call svc (svc_reindex svc)) (\<lambda>(shard_id, n).
            op_return \<lparr>ri_shard_id = shard_id, ri_docs_reindexed = n\<rparr>),
          c_health = remote_health svc,
          c_suggest = (\<lambda>pre field limit. remote_call svc (svc_suggest svc pre field (word_of_nat limit)))\<rparr>)"

section \<open>A client with a circuit breaker\<close>

definition record_outcome ::
  "('s \<Rightarrow> u64) \<Rightarrow> ((circuit_breaker \<Rightarrow> circuit_breaker) \<Rightarrow> 's \<Rightarrow> 's) \<Rightarrow> ('s, 'a) op \<Rightarrow> ('s, 'a) op" where
  "record_outcome clock upd m s =
     (case m s of
        None \<Rightarrow> None
      | Some (r, s') \<Rightarrow> Some (r, upd (if is_ok r then record_success else record_failure (clock s')) s'))"

text \<open>\<open>clock\<close> is the time of a world.\<close>

definition breaker_shard_client ::
  "('s \<Rightarrow> u64) \<Rightarrow> ('s \<Rightarrow> circuit_breaker) \<Rightarrow> ((circuit_breaker \<Rightarrow> circuit_breaker) \<Rightarrow> 's \<Rightarrow> 's) \<Rightarrow>
   's shard_client \<Rightarrow> 's shard_client" where
  "breaker_shard_client clock get upd inner =
     \<lparr>is_circuit_open = (\<lambda>s. is_open (clock s) (get s)),
      c_search = (\<lambda>request. record_outcome clock upd (c_search inner request)),
      c_index = c_index inner, c_bulk = c_bulk inner, c_delete = c_delete inner,
      c_get_docs = (\<lambda>doc_ids. record_outcome clock upd (c_get_docs inner doc_ids)),
      c_stats = c_stats inner, c_flush = c_flush inner, c_reindex = c_reindex inner,
      c_health = c_health inner, c_suggest = default_suggest\<rparr>"

section \<open>Reads of a group\<close>

definition endpoints :: "'s shard_group \<Rightarrow> 's shard_client list" where
  "endpoints grp = gr_primary grp # gr_replicas grp"

lemma endpoint_at_nth: "i < length (endpoints grp) \<Longrightarrow> endpoint_at grp i = endpoints grp ! i"
  by (cases i) (simp_all add: endpoint_at_def endpoints_def)

lemma read_order:
  fixes start :: u64
  assumes "unat start + length (endpoints grp) \<le> 2 ^ 64"
  shows "map (\<lambda>i. endpoint_at grp (unat (start + word_of_nat i) mod (1 + length (gr_replicas grp))))
      [0..<1 + length (gr_replicas grp)] = rotate (unat start) (endpoints grp)"
proof (rule nth_equalityI)
  show "length (map (\<lambda>i. endpoint_at grp (unat (start + word_of_nat i) mod (1 + length (gr_replicas grp))))
      [0..<1 + length (gr_replicas grp)]) = length (rotate (unat start) (endpoints grp))"
    by (simp add: endpoints_def)
  fix i assume "i < length (map (\<lambda>i. endpoint_at grp (unat (start + word_of_nat i) mod (1 + length (gr_replicas grp))))
      [0..<1 + length (gr_replicas grp)])"
  then have i: "i < length (endpoints grp)" by (simp add: endpoints_def)
  then have "unat start + i < 2 ^ 64" using assms by simp
  then have sum: "unat (start + word_of_nat i) = unat start + i"
    by (simp add: unat_word_ariths unat_of_nat)
  have n: "1 + length (gr_replicas grp) = length (endpoints grp)" by (simp add: endpoints_def)
  have "0 < length (endpoints grp)" by (simp add: endpoints_def)
  then show "map (\<lambda>i. endpoint_at grp (unat (start + word_of_nat i) mod (1 + length (gr_replicas grp))))
      [0..<1 + length (gr_replicas grp)] ! i = rotate (unat start) (endpoints grp) ! i"
    unfolding n using i by (simp add: sum nth_rotate endpoint_at_nth del: upt_Suc)
qed

lemma read_target_find:
  assumes "unat start + length (endpoints grp) \<le> 2 ^ 64"
  shows "read_target grp start s =
    (case List.find (\<lambda>client. \<not> is_circuit_open client s) (rotate (unat start) (endpoints grp)) of
       Some client \<Rightarrow> client | None \<Rightarrow> gr_primary grp)"
  unfolding read_target_def Let_def read_order [OF assms] by (rule refl)

lemma mset_rotate_list [simp]: "mset (rotate n xs) = mset xs"
  by (metis append_take_drop_id mset_append rotate_drop_take union_commute)

lemma find_first: "List.find P xs = Some x \<Longrightarrow> x \<in> set xs \<and> P x"
  by (auto simp: find_Some_iff)

lemma read_target_mem:
  assumes "unat start + length (endpoints grp) \<le> 2 ^ 64"
  shows "read_target grp start s \<in> set (endpoints grp)"
  using find_first [of "\<lambda>client. \<not> is_circuit_open client s" "rotate (unat start) (endpoints grp)"]
  by (auto simp: read_target_find [OF assms] endpoints_def split: option.split)

lemma read_target_closed:
  assumes "unat start + length (endpoints grp) \<le> 2 ^ 64"
    and "client \<in> set (endpoints grp)" "\<not> is_circuit_open client s"
  shows "\<not> is_circuit_open (read_target grp start s) s"
proof -
  have "List.find (\<lambda>c. \<not> is_circuit_open c s) (rotate (unat start) (endpoints grp)) \<noteq> None"
    using assms(2,3) by (auto simp: find_None_iff)
  then show ?thesis
    using find_first [of "\<lambda>client. \<not> is_circuit_open client s" "rotate (unat start) (endpoints grp)"]
    by (auto simp: read_target_find [OF assms(1)])
qed

lemma read_target_all_closed:
  assumes "unat start + length (endpoints grp) \<le> 2 ^ 64" "\<forall>c \<in> set (endpoints grp). \<not> is_circuit_open c s"
  shows "read_target grp start s = endpoints grp ! (unat start mod length (endpoints grp))"
proof -
  have ne: "endpoints grp \<noteq> []" by (simp add: endpoints_def)
  then have hd: "hd (rotate (unat start) (endpoints grp)) = endpoints grp ! (unat start mod length (endpoints grp))"
    by (simp add: hd_rotate_conv_nth)
  have "rotate (unat start) (endpoints grp) \<noteq> []" using ne by simp
  then obtain c cs where rot: "rotate (unat start) (endpoints grp) = c # cs" by (meson neq_Nil_conv)
  moreover have "c \<in> set (endpoints grp)" using rot by (metis list.set_intros(1) set_rotate)
  ultimately show ?thesis
    using hd assms(2) by (simp add: read_target_find [OF assms(1)])
qed

text \<open>
  C36: reads are spread over the endpoints of a group: while no circuit is open, as many consecutive
  reads as the group has endpoints go to each of them once; an endpoint whose circuit is open is
  chosen only when all circuits of the group are open, and then it is the primary.
\<close>
theorem reads_are_balanced:
  assumes "unat start + 2 * length (endpoints grp) \<le> 2 ^ 64"
  shows "((\<forall>c \<in> set (endpoints grp). \<not> is_circuit_open c s) \<longrightarrow>
      mset (map (\<lambda>i. read_target grp (start + word_of_nat i) s) [0..<length (endpoints grp)])
        = mset (endpoints grp)) \<and>
    (is_circuit_open (read_target grp start s) s \<longrightarrow>
      read_target grp start s = gr_primary grp \<and> (\<forall>c \<in> set (endpoints grp). is_circuit_open c s))"
proof (intro conjI impI)
  let ?n = "length (endpoints grp)"
  assume closed: "\<forall>c \<in> set (endpoints grp). \<not> is_circuit_open c s"
  have "read_target grp (start + word_of_nat i) s = rotate (unat start) (endpoints grp) ! i" if i: "i < ?n" for i
  proof -
    have "unat start + i < 2 ^ 64" using assms i by simp
    then have sum: "unat (start + word_of_nat i) = unat start + i" by (simp add: unat_word_ariths unat_of_nat)
    have "unat (start + word_of_nat i) + ?n \<le> 2 ^ 64" using assms i by (simp add: sum)
    from read_target_all_closed [OF this closed] show ?thesis using i by (simp add: sum nth_rotate)
  qed
  then have "map (\<lambda>i. read_target grp (start + word_of_nat i) s) [0..<?n] = rotate (unat start) (endpoints grp)"
    by (intro nth_equalityI) simp_all
  then show "mset (map (\<lambda>i. read_target grp (start + word_of_nat i) s) [0..<?n]) = mset (endpoints grp)"
    by simp
next
  assume o: "is_circuit_open (read_target grp start s) s"
  have small: "unat start + length (endpoints grp) \<le> 2 ^ 64" using assms by simp
  show all: "\<forall>c \<in> set (endpoints grp). is_circuit_open c s"
    using read_target_closed [OF small] o by blast
  then have "List.find (\<lambda>c. \<not> is_circuit_open c s) (rotate (unat start) (endpoints grp)) = None"
    by (simp add: find_None_iff)
  then show "read_target grp start s = gr_primary grp"
    by (simp add: read_target_find [OF small])
qed

text \<open>Two engines of suggestions as primary and replica.\<close>

definition example_group :: "suggest_env \<Rightarrow> (suggest_engine \<times> suggest_engine) shard_group" where
  "example_group env =
     \<lparr>gr_primary = local_suggest_client env fst apfst, gr_replicas = [local_suggest_client env snd apsnd]\<rparr>"

theorem reads_are_balanced_witness:
  "\<forall>env s. mset (map (\<lambda>i. read_target (example_group env) (5 + word_of_nat i) s) [0..<2]) =
     mset [local_suggest_client env fst apfst, local_suggest_client env snd apsnd]"
proof (intro allI)
  fix env s
  have "unat (5 :: u64) + 2 * length (endpoints (example_group env)) \<le> 2 ^ 64"
    by (simp add: endpoints_def example_group_def)
  from reads_are_balanced [OF this, of s, THEN conjunct1]
  show "mset (map (\<lambda>i. read_target (example_group env) (5 + word_of_nat i) s) [0..<2]) =
     mset [local_suggest_client env fst apfst, local_suggest_client env snd apsnd]"
    by (simp add: endpoints_def example_group_def local_suggest_client_def default_is_circuit_open_def
        numeral_2_eq_2)
qed

end
