(* ===== verification/Transport.thy ===== *)
theory Transport
  imports Client Durability
begin

text \<open>
  A remote client (\<open>crates/router/src/client.rs\<close>) talking to the gRPC service of a shard
  (\<open>crates/shard/src/grpc_server.rs\<close>) over a network that delivers, against a client of the same shard
  in the same process.
\<close>

section \<open>A service that is reached\<close>

text \<open>
  What a handler answers reaches the client; a status becomes a text, and so does the loss of the
  connection when the handler panics.
\<close>

definition served ::
  "(grpc_status \<Rightarrow> string) \<Rightarrow> string \<Rightarrow> ('s \<Rightarrow> 't) \<Rightarrow> (('t \<Rightarrow> 't) \<Rightarrow> 's \<Rightarrow> 's) \<Rightarrow> ('t, 'a) handler \<Rightarrow> ('s, 'a) rpc" where
  "served text_of lost get upd h s =
     (case h (get s) of
        None \<Rightarrow> (Inl lost, s)
      | Some (Inl st, t) \<Rightarrow> (Inl (text_of st), upd (\<lambda>_. t) s)
      | Some (Inr x, t) \<Rightarrow> (Inr x, upd (\<lambda>_. t) s))"

definition shard_service_of ::
  "(grpc_status \<Rightarrow> string) \<Rightarrow> string \<Rightarrow> shard_env \<Rightarrow> ('s \<Rightarrow> shard) \<Rightarrow> ((shard \<Rightarrow> shard) \<Rightarrow> 's \<Rightarrow> 's) \<Rightarrow>
   's shard_service" where
  "shard_service_of text_of lost sv get upd =
     \<lparr>svc_connect = (\<lambda>s. (Inr (), s)),
      svc_search = (\<lambda>p. served text_of lost get upd (grpc_search sv p)),
      svc_index = (\<lambda>p. served text_of lost get upd (grpc_index sv p)),
      svc_bulk_index = (\<lambda>ps. served text_of lost get upd (grpc_bulk_index sv ps)),
      svc_delete = (\<lambda>i. served text_of lost get upd (grpc_delete sv i)),
      svc_get_docs = (\<lambda>is. served text_of lost get upd (grpc_get_docs sv is)),
      svc_stats = served text_of lost get upd (grpc_stats sv),
      svc_flush = served text_of lost get upd (grpc_flush sv),
      svc_reindex = served text_of lost get upd (grpc_reindex sv),
      svc_health = served text_of lost get upd grpc_health,
      svc_suggest = (\<lambda>pre field limit. served text_of lost get upd grpc_suggest)\<rparr>"

text \<open>
  A remote method does what a local one does: it leaves the same world, with the same value, or with
  an error of the network where the local one has an error.
\<close>

definition op_matches :: "('s, 'a) op \<Rightarrow> ('s, 'a) op \<Rightarrow> bool" where
  "op_matches m remote \<longleftrightarrow>
     (\<forall>s r s'. m s = Some (r, s') \<longrightarrow>
        (case r of Inr x \<Rightarrow> remote s = Some (Inr x, s') | Inl e \<Rightarrow> \<exists>msg. remote s = Some (Inl (Grpc msg), s')))"

lemma op_matchesD: "op_matches m remote \<Longrightarrow> m s = Some (Inr x, s') \<Longrightarrow> remote s = Some (Inr x, s')"
  unfolding op_matches_def by fastforce

lemma served_answer:
  assumes "svc_connect svc = (\<lambda>s. (Inr (), s))"
  shows "op_matches (op_bind (op_zoom get upd m) (\<lambda>x. op_return (g (f x))))
    (op_bind (remote_call svc (served text_of lost get upd (answer m f))) (\<lambda>y. op_return (g y)))"
  unfolding op_matches_def
  by (auto simp: op_bind_def op_zoom_def remote_call_def grpc_call_def assms served_def answer_def
      split: option.splits sum.splits prod.splits)

lemma op_bind_op_return [simp]: "op_bind m op_return = m"
  by (rule ext) (simp add: op_bind_def op_return_def split: option.split sum.split)

lemma op_bind_unit [simp]: "op_bind m (\<lambda>_. op_return ()) = m" for m :: "('s, unit) op"
  by (rule ext) (simp add: op_bind_def op_return_def split: option.split sum.split)

section \<open>What a search depends on\<close>

text \<open>The zone and the flag for including documents play no part in a search of a shard.\<close>

abbreviation elsewhere :: "search_request \<Rightarrow> string option \<Rightarrow> bool \<Rightarrow> search_request" where
  "elsewhere req z b \<equiv> req\<lparr>q_destination_zone := z, q_include_docs := b\<rparr>"

lemma raw_lists_elsewhere [simp]: "raw_lists env r (elsewhere req z b) = raw_lists env r req"
  by (rule ext) (simp add: raw_lists_def cong del: if_weak_cong)

lemma build_filter_bitmap_elsewhere [simp]: "build_filter_bitmap r (elsewhere req z b) = build_filter_bitmap r req"
  by (simp add: build_filter_bitmap_def cong del: if_weak_cong)

lemma candidate_limit_elsewhere [simp]: "candidate_limit (elsewhere req z b) = candidate_limit req"
  by (simp add: candidate_limit_def)

lemma token_cursors_elsewhere [simp]: "token_cursors q r st (elsewhere req z b) toks = token_cursors q r st req toks"
  by (induction toks) (simp_all add: Let_def)

lemma exact_score_elsewhere [simp]:
  "exact_score q schema r st (elsewhere req z b) flt qt = exact_score q schema r st req flt qt"
  by (rule ext) (simp add: exact_score_def cong del: if_weak_cong option.case_cong_weak let_weak_cong)

lemma to_scored_docs_elsewhere [simp]: "to_scored_docs q r seg (elsewhere req z b) = to_scored_docs q r seg req"
  by (rule ext) (simp add: to_scored_docs_def cong del: option.case_cong_weak)

lemma all_scored_elsewhere [simp]: "all_scored q r seg (elsewhere req z b) flt = all_scored q r seg req flt"
  by (simp add: all_scored_def cong del: let_weak_cong)

lemma or_scores_elsewhere [simp]:
  "or_scores q schema r st (elsewhere req z b) flt qt m ts = or_scores q schema r st req flt qt m ts"
  by (induction ts arbitrary: m) (simp_all add: Let_def split: option.split)

lemma wand_elsewhere [simp]:
  "score_query_wand q schema r st seg (elsewhere req z b) flt ts = score_query_wand q schema r st seg req flt ts"
  by (simp add: score_query_wand_def cong del: if_weak_cong option.case_cong_weak let_weak_cong)

lemma or_fallback_elsewhere [simp]:
  "score_query_or_fallback q schema r st seg (elsewhere req z b) flt ts =
   score_query_or_fallback q schema r st seg req flt ts"
  by (simp add: score_query_or_fallback_def)

lemma execute_elsewhere [simp]:
  "execute q schema r st seg (elsewhere req z b) = execute q schema r st seg req"
  unfolding execute_def by (simp cong del: if_weak_cong option.case_cong_weak let_weak_cong)

lemma search_segments_elsewhere [simp]:
  "search_segments q schema (elsewhere req z b) acc segs = search_segments q schema req acc segs"
proof (induction segs arbitrary: acc)
  case (Cons e segs)
  then show ?case by (cases e) (simp split: option.split)
qed simp

lemma multi_search_elsewhere [simp]:
  "multi_search q schema segs (elsewhere req z b) = multi_search q schema segs req"
  by (simp add: multi_search_def Let_def split: option.split)

lemma shard_search_elsewhere: "shard_search sv (elsewhere req z b) = shard_search sv req"
  by (simp add: shard_search_def)

lemma filters_roundtrip:
  "List.map_filter (\<lambda>(field, fv). case fv of None \<Rightarrow> None
        | Some (EqFilter v) \<Rightarrow> Some (field, Equality v)
        | Some (RangeFilter gte lte) \<Rightarrow> Some (field, Range gte lte)
        | Some (MultiFilter vals) \<Rightarrow> Some (field, MultiValue vals))
     (map (\<lambda>(field, fv). (field, Some (filter_to_proto fv))) fs) = fs"
proof (induction fs)
  case (Cons e fs)
  obtain f v where "e = (f, v)" by (cases e)
  then show ?case using Cons by (cases v) (simp_all add: List.map_filter_simps filter_to_proto_def)
qed (simp add: List.map_filter_simps)

lemma request_roundtrip:
  assumes "q_offset req < 2 ^ 64" "q_limit req < 2 ^ 64"
  shows "proto_to_search_request (search_request_to_proto req) = elsewhere req None True"
proof -
  have sort: "(case sort_order s of Asc \<Rightarrow> PROTO_ASC | Desc \<Rightarrow> 0) = PROTO_ASC \<longleftrightarrow> sort_order s = Asc" for s :: sort_spec
    by (cases "sort_order s") (simp_all add: PROTO_ASC_def)
  have rebuild: "\<lparr>sort_field = sort_field s, sort_order = (if sort_order s = Asc then Asc else Desc)\<rparr> = s" for s
    by (cases s) (simp, metis sort_order.exhaust)
  show ?thesis
    using assms filters_roundtrip [of "q_filters req"]
    by (cases req) (simp add: proto_to_search_request_def search_request_to_proto_def unat_of_nat
        option.map_comp comp_def sort rebuild option.map_ident)
qed

section \<open>A remote shard is a local one\<close>

text \<open>A document as it arrives.\<close>

definition wire :: "document \<Rightarrow> document" where
  "wire doc = proto_to_doc (doc_to_proto doc)"

lemma remote_result_of: "remote_result (response_to_proto resp) = local_result resp"
  by (cases "r_retrieval_mode resp")
    (simp_all add: remote_result_def response_to_proto_def local_result_def mode_name_def
      agg_result_to_counts_def comp_def)


lemma wire_example_doc: "wire (example_doc i) = example_doc i"
  by (simp add: wire_def proto_to_doc_def doc_to_proto_def example_doc_def fun_eq_iff)


end
