(* ===== verification/Router.thy ===== *)
theory Router
  imports Client Ranker Availability Cache Routing
begin

text \<open>
  \<open>crates/router/src/router.rs\<close>: the router, which sends every operation to the shards and puts their
  answers together.  The record \<open>router\<close> is what does not change; the state \<open>rstate\<close> holds the
  counters of the groups, the cache and the world with the shards.  Whether a call is late, whether the
  cache still has an entry and in which order a hash map is read are arguments.
\<close>

section \<open>State\<close>

record 's router =
  ro_shards :: "'s shard_group list"
  ro_ranker :: "'s ranker"
  ro_ranker_timeout :: u64
  ro_ranker_candidates :: nat
  ro_query_timeout :: u64
  ro_availability :: "'s availability"
  ro_suggest_shards :: "'s shard_client list"
  ro_suggest_write_timeout :: u64
  ro_suggest_query_timeout :: u64

record 's rstate =
  rs_counters :: "u64 list"
  rs_cache :: "query_cache option"
  rs_world :: 's

record 's router_env =
  rv_deadline :: "'s deadline"
  rv_keep :: "'s \<Rightarrow> query_cache_key \<Rightarrow> bool"
  rv_debug_f64 :: "f64 \<Rightarrow> string"
  rv_usort :: "candidate comparator \<Rightarrow> candidate list \<Rightarrow> candidate list"
  rv_field_order :: "(string \<times> counts) list \<Rightarrow> (string \<times> counts) list"
  rv_bucket_order :: "counts \<Rightarrow> counts"
  rv_term_order :: "(string \<times> f32) list \<Rightarrow> (string \<times> f32) list"

text \<open>The libraries keep their contracts.\<close>

definition router_env_ok :: "'s router_env \<Rightarrow> bool" where
  "router_env_ok env \<longleftrightarrow>
     sort_contract (rv_usort env) \<and> (\<forall>xs. mset (rv_field_order env xs) = mset xs) \<and>
     (\<forall>xs. mset (rv_bucket_order env xs) = mset xs) \<and> (\<forall>xs. mset (rv_term_order env xs) = mset xs)"

definition router_with_cache ::
  "'s shard_group list \<Rightarrow> 's ranker \<Rightarrow> u64 \<Rightarrow> nat \<Rightarrow> u64 \<Rightarrow> 's availability \<Rightarrow> query_cache_config \<Rightarrow> 's \<Rightarrow>
   's router \<times> 's rstate" where
  "router_with_cache shards ranker ranker_timeout_ms ranker_candidates query_timeout_ms availability
       cache_config world =
     (\<lparr>ro_shards = shards, ro_ranker = ranker, ro_ranker_timeout = ranker_timeout_ms,
       ro_ranker_candidates = ranker_candidates, ro_query_timeout = query_timeout_ms,
       ro_availability = availability, ro_suggest_shards = [], ro_suggest_write_timeout = 200,
       ro_suggest_query_timeout = 100\<rparr>,
      \<lparr>rs_counters = replicate (length shards) 0, rs_cache = cache_build cache_config, rs_world = world\<rparr>)"

definition router_new ::
  "'s shard_group list \<Rightarrow> 's ranker \<Rightarrow> u64 \<Rightarrow> nat \<Rightarrow> u64 \<Rightarrow> 's availability \<Rightarrow> 's \<Rightarrow> 's router \<times> 's rstate" where
  "router_new shards ranker ranker_timeout_ms ranker_candidates query_timeout_ms availability world =
     router_with_cache shards ranker ranker_timeout_ms ranker_candidates query_timeout_ms availability
       default_query_cache_config world"

definition with_suggest_shards :: "'s shard_client list \<Rightarrow> u64 \<Rightarrow> u64 \<Rightarrow> 's router \<Rightarrow> 's router" where
  "with_suggest_shards shards write_timeout_ms query_timeout_ms ro =
     ro\<lparr>ro_suggest_shards := shards, ro_suggest_write_timeout := write_timeout_ms,
        ro_suggest_query_timeout := query_timeout_ms\<rparr>"

definition router_new_simple ::
  "'s shard_client list \<Rightarrow> 's ranker \<Rightarrow> u64 \<Rightarrow> nat \<Rightarrow> u64 \<Rightarrow> 's \<Rightarrow> 's router \<times> 's rstate" where
  "router_new_simple shards ranker ranker_timeout_ms ranker_candidates query_timeout_ms world =
     router_new (map primary_only shards) ranker ranker_timeout_ms ranker_candidates query_timeout_ms
       noop_strategy world"

abbreviation on_world :: "('s, 'a) op \<Rightarrow> ('s rstate, 'a) op" where
  "on_world \<equiv> op_zoom rs_world rs_world_update"

section \<open>Targets\<close>

definition shard_for :: "'s router \<Rightarrow> u64 \<Rightarrow> nat" where
  "shard_for ro doc_id = unat (jump_consistent_hash doc_id (word_of_nat (length (ro_shards ro))))"

text \<open>The shard a write goes to; a router without shards panics.\<close>

definition writer :: "'s router \<Rightarrow> u64 \<Rightarrow> 's shard_client option" where
  "writer ro doc_id =
     (if shard_for ro doc_id < length (ro_shards ro)
      then Some (write_target (ro_shards ro ! shard_for ro doc_id)) else None)"

text \<open>Pushing every element to the vector of its index; an index without a vector is a panic.\<close>

definition partition_by :: "nat \<Rightarrow> ('a \<Rightarrow> nat) \<Rightarrow> 'a list \<Rightarrow> 'a list list option" where
  "partition_by n f xs =
     (if list_all (\<lambda>x. f x < n) xs then Some (map (\<lambda>k. filter (\<lambda>x. f x = k) xs) [0..<n]) else None)"

text \<open>Choosing where to read from advances the counter of the group.\<close>

definition pick_target :: "'s router \<Rightarrow> nat \<Rightarrow> 's rstate \<Rightarrow> 's shard_client \<times> 's rstate" where
  "pick_target ro k rs =
     (read_target (ro_shards ro ! k) (rs_counters rs ! k) (rs_world rs),
      rs\<lparr>rs_counters := (rs_counters rs)[k := rs_counters rs ! k + 1]\<rparr>)"

fun pick_targets :: "'s router \<Rightarrow> nat list \<Rightarrow> 's rstate \<Rightarrow> 's shard_client list \<times> 's rstate" where
  "pick_targets ro [] rs = ([], rs)"
| "pick_targets ro (k # ks) rs =
     (let (client, rs) = pick_target ro k rs; (clients, rs) = pick_targets ro ks rs
      in (client # clients, rs))"

section \<open>Fetching documents\<close>

definition docs_or_default :: "u64 list \<Rightarrow> 's shard_client \<Rightarrow> 's \<Rightarrow> (document list \<times> 's) option" where
  "docs_or_default ids client w =
     map_option (\<lambda>(r, w'). (case r of Inl e \<Rightarrow> [] | Inr docs \<Rightarrow> docs, w')) (c_get_docs client ids w)"

definition fetch_docs :: "'s router \<Rightarrow> u64 list \<Rightarrow> 's rstate \<Rightarrow> (document list \<times> 's rstate) option" where
  "fetch_docs ro doc_ids rs =
     (if doc_ids = [] then Some ([], rs)
      else case partition_by (length (ro_shards ro)) (shard_for ro) doc_ids of
        None \<Rightarrow> None
      | Some by_shard \<Rightarrow>
          let groups = filter (\<lambda>(idx, ids). ids \<noteq> []) (List.enumerate 0 by_shard);
              (clients, rs) = pick_targets ro (map fst groups) rs
          in map_option (\<lambda>(results, w). (concat results, rs\<lparr>rs_world := w\<rparr>))
               (join_calls (\<lambda>(ids, client). docs_or_default ids client) (zip (map snd groups) clients)
                  (rs_world rs)))"

text \<open>The documents by their ids; the last one of an id wins.\<close>

definition doc_map :: "document list \<Rightarrow> (u64 \<rightharpoonup> document)" where
  "doc_map docs = foldl (\<lambda>m d. m(d_id d \<mapsto> d)) Map.empty docs"

definition build_hits ::
  "'s router \<Rightarrow> candidate list \<Rightarrow> (u64 \<rightharpoonup> document) \<Rightarrow> bool \<Rightarrow> 's rstate \<Rightarrow> (search_hit list \<times> 's rstate) option" where
  "build_hits ro page_hits candidate_doc_map include_docs rs =
     (if \<not> include_docs
      then Some (map (\<lambda>(i, score). \<lparr>hit_id = i, hit_score = score, hit_document = None\<rparr>) page_hits, rs)
      else
        let page_ids = map fst page_hits;
            from_cache = List.map_filter candidate_doc_map page_ids
        in map_option (\<lambda>(page_docs, rs).
             (map (\<lambda>(i, score). \<lparr>hit_id = i, hit_score = score, hit_document = doc_map page_docs i\<rparr>) page_hits, rs))
             (if length from_cache = length page_ids then Some (from_cache, rs)
              else fetch_docs ro page_ids rs))"

section \<open>Search\<close>

text \<open>Scatter: every shard is asked for more hits than a page, with a deadline.\<close>

definition scatter_request :: "'s router \<Rightarrow> search_request \<Rightarrow> search_request" where
  "scatter_request ro request =
     request\<lparr>q_offset := 0,
       q_limit := ro_ranker_candidates ro * as_candidate_multiplier (ro_availability ro)\<rparr>"

definition scatter ::
  "'s router_env \<Rightarrow> 's router \<Rightarrow> search_request \<Rightarrow> 's rstate \<Rightarrow>
   ((error + shard_search_result) list \<times> 's rstate) option" where
  "scatter env ro request rs =
     (let (clients, rs) = pick_targets ro [0..<length (ro_shards ro)] rs
      in map_option (\<lambda>(results, w). (results, rs\<lparr>rs_world := w\<rparr>))
           (join_calls (\<lambda>client w.
              map_option (\<lambda>(r, w'). (case r of None \<Rightarrow> Inl (ShardError ''shard query timeout'') | Some r \<Rightarrow> r, w'))
                (with_timeout (rv_deadline env) (ro_query_timeout ro)
                   (c_search client (scatter_request ro request)) w))
              clients (rs_world rs)))"

text \<open>Gather: the answers of the shards that succeeded are put together.\<close>

record gathered =
  ga_hits :: "candidate list"
  ga_total_hits :: u64
  ga_aggregations :: "(string \<times> counts) list"
  ga_healthy :: nat
  ga_or_fallback :: bool

definition gather_result :: "gathered \<Rightarrow> error + shard_search_result \<Rightarrow> gathered" where
  "gather_result ga r =
     (case r of
        Inl e \<Rightarrow> ga
      | Inr res \<Rightarrow>
          \<lparr>ga_hits = ga_hits ga @ sres_hits res, ga_total_hits = ga_total_hits ga + sres_total_hits res,
           ga_aggregations = merge_aggregations (ga_aggregations ga) (sres_aggregations res),
           ga_healthy = ga_healthy ga + 1, ga_or_fallback = (ga_or_fallback ga \<or> sres_used_or_fallback res)\<rparr>)"

definition gather :: "(error + shard_search_result) list \<Rightarrow> gathered" where
  "gather results = foldl gather_result
     \<lparr>ga_hits = [], ga_total_hits = 0, ga_aggregations = [], ga_healthy = 0, ga_or_fallback = False\<rparr> results"

definition score_desc :: "candidate comparator" where
  "score_desc a b = f32_cmp_or_equal (snd b) (snd a)"

definition rank_candidates :: "(u64 \<rightharpoonup> document) \<Rightarrow> candidate list \<Rightarrow> rank_candidate list" where
  "rank_candidates docs hits = List.map_filter (\<lambda>(i, score).
     case docs i of None \<Rightarrow> None
     | Some doc \<Rightarrow> Some \<lparr>rc_doc_id = i, rc_bm25_score = score, rc_title = d_title doc,
         rc_category = d_category doc, rc_price = d_price doc, rc_attributes = d_attributes doc\<rparr>) hits"

text \<open>Re-ranking the candidates whose documents were found.\<close>

definition rank_hits ::
  "'s router_env \<Rightarrow> 's router \<Rightarrow> string \<Rightarrow> (u64 \<rightharpoonup> document) \<Rightarrow> candidate list \<Rightarrow> 's \<Rightarrow>
   ((candidate list \<times> bool) \<times> 's) option" where
  "rank_hits env ro query docs all_hits w =
     (if all_hits = [] then Some ((all_hits, False), w)
      else map_option (\<lambda>((ranked, did_rerank), w').
             ((map (\<lambda>r. (rr_doc_id r, rr_score r)) ranked, did_rerank), w'))
           (rerank_with_fallback (rv_deadline env) (ro_ranker ro) query (rank_candidates docs all_hits)
              (ro_ranker_timeout ro) w))"

definition filter_available ::
  "'s router \<Rightarrow> string option \<Rightarrow> (u64 \<rightharpoonup> document) \<Rightarrow> candidate list \<Rightarrow> 's \<Rightarrow> candidate list \<times> 's" where
  "filter_available ro destination_zone docs hits w =
     (case destination_zone of
        None \<Rightarrow> (hits, w)
      | Some zone \<Rightarrow> if zone = [] then (hits, w) else as_apply (ro_availability ro) hits docs zone w)"

definition count_buckets :: "'s router_env \<Rightarrow> counts \<Rightarrow> aggregation_bucket list" where
  "count_buckets env cs =
     sort_by (\<lambda>a b. cmp_of (bucket_count b) (bucket_count a))
       (map (\<lambda>(value, n). \<lparr>bucket_value = value, bucket_count = n\<rparr>) (rv_bucket_order env cs))"

text \<open>The ranking of all candidates with what is reported beside it: what the cache holds.\<close>

definition candidates_of ::
  "'s router_env \<Rightarrow> 's router \<Rightarrow> search_request \<Rightarrow> 's rstate \<Rightarrow>
   ((error + cached_response \<times> (u64 \<rightharpoonup> document)) \<times> 's rstate) option" where
  "candidates_of env ro request rs =
     (case scatter env ro request rs of None \<Rightarrow> None
      | Some (results, rs) \<Rightarrow>
          let ga = gather results
          in if ga_healthy ga = 0 then Some (Inl (ShardError ''all shards failed''), rs)
             else
               let all_hits = rv_usort env score_desc (ga_hits ga)
               in case (if all_hits \<noteq> [] then fetch_docs ro (map fst all_hits) rs else Some ([], rs)) of
                    None \<Rightarrow> None
                  | Some (candidate_docs, rs) \<Rightarrow>
                      let docs = doc_map candidate_docs
                      in case rank_hits env ro (q_query request) docs all_hits (rs_world rs) of
                           None \<Rightarrow> None
                         | Some ((final_hits, reranked), w) \<Rightarrow>
                             let (final_hits, w) = filter_available ro (q_destination_zone request) docs final_hits w
                             in Some (Inr (\<lparr>cr_hits = final_hits, cr_total_hits = ga_total_hits ga,
                                    cr_aggregations = map (\<lambda>(field, cs). (field, count_buckets env cs))
                                      (rv_field_order env (ga_aggregations ga)),
                                    cr_reranked = reranked,
                                    cr_retrieval_mode = (if ga_or_fallback ga then OrFallback else AndMode)\<rparr>, docs),
                                  rs\<lparr>rs_world := w\<rparr>))"

text \<open>A page of the candidates.\<close>

definition respond ::
  "'s router \<Rightarrow> search_request \<Rightarrow> cached_response \<Rightarrow> (u64 \<rightharpoonup> document) \<Rightarrow> bool \<Rightarrow> 's rstate \<Rightarrow>
   (search_response \<times> 's rstate) option" where
  "respond ro request cached docs cache_hit rs =
     map_option (\<lambda>(hits, rs).
       (\<lparr>r_hits = hits, r_total_hits = cr_total_hits cached, r_aggregations = cr_aggregations cached,
         r_reranked = cr_reranked cached, r_retrieval_mode = cr_retrieval_mode cached,
         r_cache_hit = cache_hit\<rparr>, rs))
       (build_hits ro (take (q_limit request) (drop (q_offset request) (cr_hits cached))) docs
          (q_include_docs request) rs)"

definition respond_from_cache ::
  "'s router \<Rightarrow> search_request \<Rightarrow> cached_response \<Rightarrow> 's rstate \<Rightarrow> (search_response \<times> 's rstate) option" where
  "respond_from_cache ro request cached rs = respond ro request cached Map.empty True rs"

definition lookup_cache ::
  "'s router_env \<Rightarrow> search_request \<Rightarrow> 's rstate \<Rightarrow> cached_response option \<times> 's rstate" where
  "lookup_cache env request rs =
     (case rs_cache rs of
        None \<Rightarrow> (None, rs)
      | Some cache \<Rightarrow>
          let (found, cache) = cache_get (rv_keep env (rs_world rs)) (key_from_request (rv_debug_f64 env) request) cache
          in (found, rs\<lparr>rs_cache := Some cache\<rparr>))"

definition store_cache :: "'s router_env \<Rightarrow> search_request \<Rightarrow> cached_response \<Rightarrow> 's rstate \<Rightarrow> 's rstate" where
  "store_cache env request resp rs =
     rs\<lparr>rs_cache := map_option (cache_insert (key_from_request (rv_debug_f64 env) request) resp) (rs_cache rs)\<rparr>"

definition router_search ::
  "'s router_env \<Rightarrow> 's router \<Rightarrow> search_request \<Rightarrow> ('s rstate, search_response) op" where
  "router_search env ro request rs =
     (case lookup_cache env request rs of
        (Some cached, rs) \<Rightarrow>
          map_option (\<lambda>(resp, rs). (Inr resp, rs)) (respond_from_cache ro request cached rs)
      | (None, rs) \<Rightarrow>
          (case candidates_of env ro request rs of
             None \<Rightarrow> None
           | Some (Inl e, rs) \<Rightarrow> Some (Inl e, rs)
           | Some (Inr (cached, docs), rs) \<Rightarrow>
               map_option (\<lambda>(resp, rs). (Inr resp, rs))
                 (respond ro request cached docs False (store_cache env request cached rs))))"

section \<open>Suggestions\<close>

text \<open>What a spawned task leaves, whatever its outcome.\<close>

definition send_suggest ::
  "'s router_env \<Rightarrow> 's router \<Rightarrow> 's shard_client \<times> document list \<Rightarrow> 's \<Rightarrow> (unit \<times> 's) option" where
  "send_suggest env ro task w =
     (let (client, batch) = task
      in map_option (\<lambda>(_, w'). ((), w'))
           (with_timeout (rv_deadline env) (ro_suggest_write_timeout ro) (c_bulk client batch) w))"

text \<open>Writes to the suggestion shards are tasks of their own; errors and late answers are dropped.\<close>

definition fan_out_suggest_write ::
  "'s router_env \<Rightarrow> 's router \<Rightarrow> document list \<Rightarrow> ('s, unit) op" where
  "fan_out_suggest_write env ro docs w =
     (let n = length (ro_suggest_shards ro)
      in if n = 0 \<or> docs = [] then Some (Inr (), w)
         else case partition_by n (\<lambda>doc. unat (jump_consistent_hash (d_id doc) (word_of_nat n))) docs of
             None \<Rightarrow> None
           | Some partitions \<Rightarrow>
               map_option (\<lambda>(_, w'). (Inr (), w'))
                 (join_calls (send_suggest env ro)
                    (filter (\<lambda>(client, batch). batch \<noteq> []) (zip (ro_suggest_shards ro) partitions)) w))"

definition merge_suggestion :: "(string \<times> f32) list \<Rightarrow> suggest_term \<Rightarrow> (string \<times> f32) list" where
  "merge_suggestion merged e =
     hm_entry (sg_term e) (\<lambda>slot. let slot = or_default (f32_of_nat 0) slot
        in if f32_lt slot (sg_score e) then sg_score e else slot) merged"

definition merge_suggestions :: "(error + suggest_term list) option list \<Rightarrow> (string \<times> f32) list" where
  "merge_suggestions results =
     foldl (\<lambda>merged r. case r of Some (Inr entries) \<Rightarrow> foldl merge_suggestion merged entries | _ \<Rightarrow> merged) [] results"

definition suggestion_order :: "suggest_term comparator" where
  "suggestion_order a b =
     then_with (f32_cmp_or_equal (sg_score b) (sg_score a)) (cmp_of (sg_term a) (sg_term b))"

definition router_suggest ::
  "'s router_env \<Rightarrow> 's router \<Rightarrow> string \<Rightarrow> string \<Rightarrow> nat \<Rightarrow> ('s, suggest_term list) op" where
  "router_suggest env ro pre field limit w =
     (if ro_suggest_shards ro = [] \<or> pre = [] \<or> limit = 0 then Some (Inr [], w)
      else map_option (\<lambda>(results, w').
             (Inr (take limit (sort_by suggestion_order
                (map (\<lambda>(t, score). \<lparr>sg_term = t, sg_score = score\<rparr>)
                   (rv_term_order env (merge_suggestions results))))), w'))
             (join_calls (\<lambda>client.
                with_timeout (rv_deadline env) (ro_suggest_query_timeout ro) (c_suggest client pre field limit))
                (ro_suggest_shards ro) w))"

section \<open>Writing\<close>

definition router_index :: "'s router_env \<Rightarrow> 's router \<Rightarrow> document \<Rightarrow> ('s, unit) op" where
  "router_index env ro doc =
     op_bind (fan_out_suggest_write env ro [doc]) (\<lambda>_.
     op_bind (op_option (writer ro (d_id doc))) (\<lambda>client. c_index client doc))"

text \<open>The batches of the shards are tasks of their own: each is run, also when another one fails.\<close>

definition bulk_tasks :: "'s router \<Rightarrow> document list \<Rightarrow> ('s shard_client \<times> document list) list option" where
  "bulk_tasks ro docs =
     map_option (\<lambda>by_shard.
         filter (\<lambda>(client, batch). batch \<noteq> []) (zip (map write_target (ro_shards ro)) by_shard))
       (partition_by (length (ro_shards ro)) (\<lambda>doc. shard_for ro (d_id doc)) docs)"

definition router_bulk_index :: "'s router_env \<Rightarrow> 's router \<Rightarrow> document list \<Rightarrow> ('s, u32) op" where
  "router_bulk_index env ro docs =
     op_bind (fan_out_suggest_write env ro docs) (\<lambda>_.
     op_bind (op_option (bulk_tasks ro docs)) (\<lambda>tasks.
     op_bind (join_all (\<lambda>(client, batch). c_bulk client batch) tasks) (\<lambda>totals.
     op_return (sum_list totals))))"

definition router_delete :: "'s router \<Rightarrow> u64 \<Rightarrow> ('s, unit) op" where
  "router_delete ro doc_id =
     op_bind (op_option (writer ro doc_id)) (\<lambda>client. c_delete client doc_id)"

definition router_reindex :: "'s router \<Rightarrow> ('s, reindex_stats list) op" where
  "router_reindex ro = join_all (\<lambda>grp. c_reindex (write_target grp)) (ro_shards ro)"

definition router_flush :: "'s router \<Rightarrow> ('s, unit) op" where
  "router_flush ro =
     op_bind (join_all (\<lambda>grp. c_flush (write_target grp)) (ro_shards ro)) (\<lambda>_. op_return ())"

section \<open>Statistics\<close>

record group_stats =
  gs_primary :: shard_stats
  gs_replicas :: "shard_stats list"

text \<open>The answers that are not errors.\<close>

definition oks :: "('e + 'a) list \<Rightarrow> 'a list" where
  "oks rs = List.map_filter (\<lambda>r. case r of Inl e \<Rightarrow> None | Inr x \<Rightarrow> Some x) rs"

definition group_stats_of :: "'s shard_group \<Rightarrow> 's \<Rightarrow> (group_stats option \<times> 's) option" where
  "group_stats_of grp w =
     (case c_stats (write_target grp) w of
        None \<Rightarrow> None
      | Some (Inl e, w) \<Rightarrow> Some (None, w)
      | Some (Inr primary, w) \<Rightarrow>
          map_option (\<lambda>(rs, w). (Some \<lparr>gs_primary = primary, gs_replicas = oks rs\<rparr>, w))
            (join_calls c_stats (replica_clients grp) w))"

definition router_stats :: "'s router \<Rightarrow> 's \<Rightarrow> (group_stats list \<times> 's) option" where
  "router_stats ro w =
     map_option (\<lambda>(groups, w). (List.map_filter (\<lambda>g. g) groups, w)) (join_calls group_stats_of (ro_shards ro) w)"

end
