(* ===== verification/RouterSearch.thy ===== *)
theory RouterSearch
  imports Router
begin

text \<open>
  What a search through the router (\<open>crates/router/src/router.rs\<close>) answers: the merged answers of the
  shards, the effect of the cache, and the merged suggestions.
\<close>

section \<open>Gathering\<close>

lemma oks_simps [simp]:
  "oks [] = []" "oks (Inl e # rs) = oks rs" "oks (Inr x # rs) = x # oks rs" "oks (rs @ rs') = oks rs @ oks rs'"
  by (simp_all add: oks_def List.map_filter_def)

lemma gather_snoc: "gather (rs @ [r]) = gather_result (gather rs) r"
  by (simp add: gather_def)

lemma gather_props:
  "ga_hits (gather rs) = concat (map sres_hits (oks rs))"
  "ga_total_hits (gather rs) = sum_list (map sres_total_hits (oks rs))"
  "ga_healthy (gather rs) = length (oks rs)"
  "ga_or_fallback (gather rs) \<longleftrightarrow> (\<exists>res \<in> set (oks rs). sres_used_or_fallback res)"
proof (induction rs rule: rev_induct)
  case (snoc r rs)
  {
    case 1
    then show ?case using snoc by (cases r) (simp_all add: gather_snoc gather_result_def)
  next
    case 2
    then show ?case using snoc by (cases r) (simp_all add: gather_snoc gather_result_def)
  next
    case 3
    then show ?case using snoc by (cases r) (simp_all add: gather_snoc gather_result_def)
  next
    case 4
    then show ?case using snoc by (cases r) (auto simp: gather_snoc gather_result_def)
  }
qed (simp_all add: gather_def)

lemma gather_aggregations:
  "field_total (ga_aggregations (gather rs)) f v =
     sum_list (map (\<lambda>res. field_total (sres_aggregations res) f v) (oks rs))"
  "counts_wf (ga_aggregations (gather rs))"
proof (induction rs rule: rev_induct)
  case (snoc r rs)
  {
    case 1
    then show ?case
      using snoc by (cases r) (simp_all add: gather_snoc gather_result_def merge_aggregations_total)
  next
    case 2
    then show ?case
      using snoc by (cases r) (simp_all add: gather_snoc gather_result_def merge_aggregations_wf)
  }
qed (simp_all add: gather_def field_total_def counts_wf_def)

lemma router_env_okD:
  assumes "router_env_ok env"
  shows "set (rv_bucket_order env cs) = set cs" "set (rv_field_order env fs) = set fs"
    "mset (rv_term_order env ts) = mset ts" "sort_contract (rv_usort env)"
  using assms by (auto simp: router_env_ok_def intro!: mset_eq_setD)

lemma count_buckets_exact:
  assumes "router_env_ok env" "distinct (map fst cs)" "b \<in> set (count_buckets env cs)"
  shows "bucket_count b = count_total cs (bucket_value b)"
proof -
  have "(bucket_value b, bucket_count b) \<in> set cs"
    using assms(3) by (auto simp: count_buckets_def router_env_okD [OF assms(1)])
  then show ?thesis using count_total_mem [OF assms(2)] by simp
qed

lemma gathered_buckets:
  assumes env: "router_env_ok env" and b: "b \<in> set buckets"
    and m: "(f, buckets) \<in> set (map (\<lambda>(field, cs). (field, count_buckets env cs))
      (rv_field_order env (ga_aggregations (gather results))))"
  shows "bucket_count b = sum_list (map (\<lambda>res. field_total (sres_aggregations res) f (bucket_value b)) (oks results))"
proof -
  let ?m = "ga_aggregations (gather results)"
  obtain cs where cs: "(f, cs) \<in> set ?m" "buckets = count_buckets env cs"
    using m by (auto simp: router_env_okD [OF env])
  have wf: "distinct (map fst ?m)" "distinct (map fst cs)"
    using gather_aggregations(2) [of results] cs(1) by (auto simp: counts_wf_def)
  show ?thesis
    using count_buckets_exact [OF env wf(2)] field_total_mem [OF wf(1) cs(1)] b cs(2)
    by (simp add: gather_aggregations(1) [symmetric])
qed

section \<open>Ranking\<close>

lemma bm25_order_candidates:
  "map (\<lambda>r. (rr_doc_id r, rr_score r)) (bm25_order (rank_candidates docs hits)) =
     filter (\<lambda>(i, _). docs i \<noteq> None) hits"
proof (induction hits)
  case (Cons h hits)
  obtain i s where "h = (i, s)" by (cases h)
  then show ?case
    using Cons by (cases "docs i") (simp_all add: rank_candidates_def bm25_order_def List.map_filter_simps)
qed (simp add: rank_candidates_def bm25_order_def List.map_filter_simps)

lemma rank_hits_order:
  assumes "rank_hits env ro query docs hits w = Some ((final, reranked), w')"
    and "\<not> reranked \<or> ro_ranker ro = noop_rank"
  shows "\<exists>P. final = filter P hits"
proof (cases "hits = []")
  case True
  then show ?thesis using assms(1) by (auto simp: rank_hits_def)
next
  case False
  then obtain ranked where run: "rerank_with_fallback (rv_deadline env) (ro_ranker ro) query
      (rank_candidates docs hits) (ro_ranker_timeout ro) w = Some ((ranked, reranked), w')"
    and final: "final = map (\<lambda>r. (rr_doc_id r, rr_score r)) ranked"
    using assms(1) by (auto simp: rank_hits_def)
  have "ranked = bm25_order (rank_candidates docs hits)"
    using rerank_with_fallback_cases [OF run] assms(2) by (auto simp: noop_rank_def)
  then show ?thesis using final by (auto simp only: bm25_order_candidates)
qed

lemma score_desc_sorted:
  assumes "sort_contract usort" "\<forall>(i, s) \<in> set hits. \<not> f32_is_nan s"
  shows "sorted_wrt (\<lambda>a b. f32_le (snd b) (snd a)) (usort score_desc hits)"
proof -
  have nan: "\<not> f32_is_nan (snd a)" if "a \<in> set hits" for a using assms(2) that by (cases a) auto
  have key: "not_after score_desc a b \<longleftrightarrow> - f32_key (snd a) \<le> - f32_key (snd b)"
    if "a \<in> set hits" "b \<in> set hits" for a b
    using f32_cmp_or_equal_not_after [OF nan [OF that(2)] nan [OF that(1)]]
    by (simp add: not_after_def score_desc_def)
  have "total_preorder_on (set hits) score_desc" by (rule total_preorder_key_on [OF key])
  then have "sorted_wrt (not_after score_desc) (usort score_desc hits)"
    using sort_contract_sorted [OF assms(1)] by (simp add: sorted_by_def)
  then show ?thesis
  proof (rule sorted_wrt_mono_rel [rotated])
    fix a b
    assume "a \<in> set (usort score_desc hits)" "b \<in> set (usort score_desc hits)"
    then have "a \<in> set hits" "b \<in> set hits" by (simp_all add: sort_contract_set [OF assms(1)])
    then show "not_after score_desc a b \<Longrightarrow> f32_le (snd b) (snd a)"
      using key nan by (simp add: f32_le_key)
  qed
qed

text \<open>The candidates of a search, by the answers of the shards.\<close>

lemma candidates_of_gathered:
  assumes "scatter env ro request rs = Some (results, rs1)"
    and "candidates_of env ro request rs = Some (r, rs2)"
  shows "case r of
      Inl e \<Rightarrow> e = ShardError ''all shards failed'' \<and> oks results = []
    | Inr (c, docs) \<Rightarrow> oks results \<noteq> [] \<and> cr_total_hits c = ga_total_hits (gather results) \<and>
        cr_aggregations c = map (\<lambda>(field, cs). (field, count_buckets env cs))
          (rv_field_order env (ga_aggregations (gather results))) \<and>
        cr_retrieval_mode c = (if ga_or_fallback (gather results) then OrFallback else AndMode) \<and>
        (\<exists>final w w' w''. rank_hits env ro (q_query request) docs (rv_usort env score_desc (ga_hits (gather results))) w
             = Some ((final, cr_reranked c), w') \<and>
           filter_available ro (q_destination_zone request) docs final w' = (cr_hits c, w''))"
proof (cases "ga_healthy (gather results) = 0")
  case True
  then show ?thesis using assms by (auto simp: candidates_of_def Let_def gather_props)
next
  case False
  let ?all = "rv_usort env score_desc (ga_hits (gather results))"
  obtain fetched rs3 where f: "(if ?all \<noteq> [] then fetch_docs ro (map fst ?all) rs1 else Some ([], rs1)) = Some (fetched, rs3)"
    using assms False by (auto simp: candidates_of_def Let_def split: option.splits if_splits)
  have "oks results \<noteq> []" using False by (simp add: gather_props)
  then show ?thesis
    using assms(2) False unfolding candidates_of_def assms(1) Let_def option.case prod.case f
    by (auto split: option.splits prod.splits if_splits) blast+
qed

lemma build_hits_pairs:
  "build_hits ro page docs b rs = Some (hits, rs') \<Longrightarrow> map (\<lambda>h. (hit_id h, hit_score h)) hits = page"
  by (auto simp: build_hits_def Let_def comp_def case_prod_beta split: if_splits)

lemma respond_fields:
  assumes "respond ro request c docs hit rs = Some (resp, rs')"
  shows "map (\<lambda>h. (hit_id h, hit_score h)) (r_hits resp) = take (q_limit request) (drop (q_offset request) (cr_hits c))"
    and "r_total_hits resp = cr_total_hits c" "r_aggregations resp = cr_aggregations c"
    and "r_reranked resp = cr_reranked c" "r_retrieval_mode resp = cr_retrieval_mode c" "r_cache_hit resp = hit"
  using assms build_hits_pairs by (auto simp: respond_def)

lemma filter_available_subseq:
  assumes "availability_law (ro_availability ro)" "filter_available ro zone docs hits w = (kept, w')"
  shows "subseq kept hits"
  using assms(2) availability_law.apply_subseq [OF assms(1)]
  by (auto simp: filter_available_def split: option.splits if_splits)

lemma subseq_mset: "subseq xs ys \<Longrightarrow> mset xs \<subseteq># mset ys"
  by (induction rule: list_emb.induct) (auto intro: subset_mset.order_trans)

text \<open>
  C5: a search through the router is the merge of what the shards answered, without those that
  failed: the total and the count of every value are the sums over the answering shards; the hits are
  a page of one ranking, which, unless a ranker reordered it, is in descending order of the scores and
  made of hits of the shards, each at most as often as they sent it; and the search fails exactly when
  no shard answered.  The order asked for in the request plays no part in it.
\<close>
theorem search_merges_shards:
  assumes env: "router_env_ok env" and law: "availability_law (ro_availability ro)"
    and miss: "lookup_cache env request rs = (None, rs0)"
    and scatter: "scatter env ro request rs0 = Some (results, rs1)"
    and nan: "\<forall>res \<in> set (oks results). \<forall>(i, s) \<in> set (sres_hits res). \<not> f32_is_nan s"
    and run: "router_search env ro request rs = Some (r, rs')"
  shows "case r of
      Inl e \<Rightarrow> e = ShardError ''all shards failed'' \<and> oks results = []
    | Inr resp \<Rightarrow> oks results \<noteq> [] \<and> \<not> r_cache_hit resp \<and>
        r_total_hits resp = sum_list (map sres_total_hits (oks results)) \<and>
        (\<forall>(f, buckets) \<in> set (r_aggregations resp). \<forall>b \<in> set buckets. bucket_count b =
           sum_list (map (\<lambda>res. field_total (sres_aggregations res) f (bucket_value b)) (oks results))) \<and>
        (r_retrieval_mode resp = OrFallback \<longleftrightarrow> (\<exists>res \<in> set (oks results). sres_used_or_fallback res)) \<and>
        (\<exists>ranking. map (\<lambda>h. (hit_id h, hit_score h)) (r_hits resp) =
             take (q_limit request) (drop (q_offset request) ranking) \<and>
           (\<not> r_reranked resp \<or> ro_ranker ro = noop_rank \<longrightarrow>
              sorted_wrt (\<lambda>a b. f32_le (snd b) (snd a)) ranking \<and>
              mset ranking \<subseteq># mset (concat (map sres_hits (oks results)))))"
proof -
  obtain rc rs2 where cand: "candidates_of env ro request rs0 = Some (rc, rs2)"
    using run by (auto simp: router_search_def miss split: option.splits)
  note facts = candidates_of_gathered [OF scatter cand]
  show ?thesis
  proof (cases rc)
    case (Inl e)
    then show ?thesis using run facts by (auto simp: router_search_def miss cand)
  next
    case (Inr cd)
    obtain c docs where cd: "cd = (c, docs)" by (cases cd)
    obtain resp where r: "r = Inr resp"
      and resp: "respond ro request c docs False (store_cache env request c rs2) = Some (resp, rs')"
      using run by (auto simp: router_search_def miss cand Inr cd)
    note resp = respond_fields [OF resp]
    let ?all = "rv_usort env score_desc (ga_hits (gather results))"
    have sort: "sort_contract (rv_usort env)" by (rule router_env_okD [OF env])
    obtain final w w' w'' where
      rank: "rank_hits env ro (q_query request) docs ?all w = Some ((final, cr_reranked c), w')" and
      filter: "filter_available ro (q_destination_zone request) docs final w' = (cr_hits c, w'')"
      using facts by (auto simp: Inr cd)
    have order: "sorted_wrt (\<lambda>a b. f32_le (snd b) (snd a)) (cr_hits c) \<and>
        mset (cr_hits c) \<subseteq># mset (concat (map sres_hits (oks results)))"
      if plain: "\<not> cr_reranked c \<or> ro_ranker ro = noop_rank"
    proof -
      have sub: "subseq (cr_hits c) ?all"
        using filter_available_subseq [OF law filter] rank_hits_order [OF rank plain] subseq_order.trans by fastforce
      have "\<forall>(i, s) \<in> set (ga_hits (gather results)). \<not> f32_is_nan s"
        using nan by (auto simp: gather_props)
      note sorted = score_desc_sorted [OF sort this]
      show ?thesis
        using subseq_sorted_wrt [OF sub sorted] subseq_mset [OF sub]
        by (simp add: sort_contract_mset [OF sort] gather_props)
    qed
    have "r_aggregations resp = map (\<lambda>(field, cs). (field, count_buckets env cs))
        (rv_field_order env (ga_aggregations (gather results)))"
      using facts resp(3) by (simp add: Inr cd)
    then have aggs: "\<forall>(f, buckets) \<in> set (r_aggregations resp). \<forall>b \<in> set buckets. bucket_count b =
        sum_list (map (\<lambda>res. field_total (sres_aggregations res) f (bucket_value b)) (oks results))"
      using gathered_buckets [OF env] by fastforce
    have total: "oks results \<noteq> []" "cr_total_hits c = sum_list (map sres_total_hits (oks results))"
      "cr_retrieval_mode c = OrFallback \<longleftrightarrow> (\<exists>res \<in> set (oks results). sres_used_or_fallback res)"
      using facts by (auto simp: Inr cd gather_props)
    have ranking: "\<exists>ranking. map (\<lambda>h. (hit_id h, hit_score h)) (r_hits resp) =
             take (q_limit request) (drop (q_offset request) ranking) \<and>
           (\<not> r_reranked resp \<or> ro_ranker ro = noop_rank \<longrightarrow>
              sorted_wrt (\<lambda>a b. f32_le (snd b) (snd a)) ranking \<and>
              mset ranking \<subseteq># mset (concat (map sres_hits (oks results))))"
      using resp(1,4) order by (intro exI [of _ "cr_hits c"]) simp
    show ?thesis
      unfolding r sum.case using resp(2,5,6) total by (intro conjI aggs ranking) simp_all
  qed
qed

section \<open>The cache\<close>

lemma lookup_cache_hit:
  assumes "lookup_cache env request rs = (Some c, rs')"
  shows "\<exists>cache. rs_cache rs = Some cache \<and> cache (key_from_request (rv_debug_f64 env) request) = Some c \<and> rs' = rs"
  using assms by (auto simp: lookup_cache_def cache_get_def Let_def split: option.splits if_splits)

lemma pick_targets_cache [simp]: "rs_cache (snd (pick_targets ro ks rs)) = rs_cache rs"
  by (induction ks arbitrary: rs) (auto simp: pick_target_def Let_def case_prod_beta)

lemma pick_targets_cacheD: "pick_targets ro ks rs = (clients, rs') \<Longrightarrow> rs_cache rs' = rs_cache rs"
  using pick_targets_cache [of ro ks rs] by simp

lemma fetch_docs_cache: "fetch_docs ro ids rs = Some (docs, rs') \<Longrightarrow> rs_cache rs' = rs_cache rs"
  by (auto simp: fetch_docs_def Let_def dest: pick_targets_cacheD split: if_splits option.splits prod.splits)

lemma respond_cache: "respond ro request c docs hit rs = Some (resp, rs') \<Longrightarrow> rs_cache rs' = rs_cache rs"
  by (auto simp: respond_def build_hits_def Let_def dest: fetch_docs_cache split: if_splits)

lemma scatter_cache: "scatter env ro request rs = Some (results, rs') \<Longrightarrow> rs_cache rs' = rs_cache rs"
  by (auto simp: scatter_def Let_def dest: pick_targets_cacheD split: prod.splits)

lemma candidates_of_cache: "candidates_of env ro request rs = Some (r, rs') \<Longrightarrow> rs_cache rs' = rs_cache rs"
  by (auto simp: candidates_of_def Let_def dest!: scatter_cache fetch_docs_cache
      split: option.splits if_splits prod.splits)

text \<open>After a successful search the cache has its candidates under the key of the request.\<close>

lemma search_fills_cache:
  assumes "router_search env ro request rs = Some (Inr resp, rs')" "rs_cache rs = Some cache"
  shows "\<exists>cache' c. rs_cache rs' = Some cache' \<and> cache' (key_from_request (rv_debug_f64 env) request) = Some c \<and>
    (\<exists>docs hit rs1 rs2. respond ro request c docs hit rs1 = Some (resp, rs2))"
proof (cases "lookup_cache env request rs")
  case (Pair found rs0)
  have some: "\<exists>cache'. rs_cache rs0 = Some cache'"
    using Pair assms(2) by (auto simp: lookup_cache_def Let_def split: prod.splits)
  show ?thesis
  proof (cases found)
    case (Some c)
    have "respond ro request c Map.empty True rs0 = Some (resp, rs')"
      using assms(1) Pair Some by (auto simp: router_search_def respond_from_cache_def)
    moreover note respond_cache [OF this]
    ultimately show ?thesis using lookup_cache_hit [of env request rs c rs0] Pair Some by fastforce
  next
    case None
    then obtain c docs rs2 where cand: "candidates_of env ro request rs0 = Some (Inr (c, docs), rs2)"
      and resp: "respond ro request c docs False (store_cache env request c rs2) = Some (resp, rs')"
      using assms(1) Pair by (auto simp: router_search_def split: option.splits sum.splits)
    have "rs_cache rs' = map_option (cache_insert (key_from_request (rv_debug_f64 env) request) c) (rs_cache rs0)"
      using respond_cache [OF resp] candidates_of_cache [OF cand] by (simp add: store_cache_def)
    then show ?thesis using some resp by (fastforce simp: cache_insert_def)
  qed
qed

text \<open>
  C15: a cached search answers like the search that filled the cache: a request with the same key, made
  while the cache still has the entry, gets the same hits with the same scores, the same total, counts
  and mode, and is marked as answered from the cache; no shard is searched for it, and when it wants no
  documents nothing in the world is touched.
\<close>
theorem search_cached_same:
  assumes first: "router_search env ro req1 rs = Some (Inr resp1, rs1)" "rs_cache rs = Some cache"
    and key: "key_from_request (rv_debug_f64 env) req2 = key_from_request (rv_debug_f64 env) req1"
    and later: "rs_cache rs2 = rs_cache rs1" "rv_keep env (rs_world rs2) (key_from_request (rv_debug_f64 env) req1)"
    and second: "router_search env ro req2 rs2 = Some (r, rs3)"
  shows "\<exists>resp2. r = Inr resp2 \<and> r_cache_hit resp2 \<and>
    map (\<lambda>h. (hit_id h, hit_score h)) (r_hits resp2) = map (\<lambda>h. (hit_id h, hit_score h)) (r_hits resp1) \<and>
    r_total_hits resp2 = r_total_hits resp1 \<and> r_aggregations resp2 = r_aggregations resp1 \<and>
    r_reranked resp2 = r_reranked resp1 \<and> r_retrieval_mode resp2 = r_retrieval_mode resp1 \<and>
    (\<not> q_include_docs req2 \<longrightarrow> rs_world rs3 = rs_world rs2 \<and> rs_counters rs3 = rs_counters rs2)"
proof -
  obtain cache1 c docs hit rsa rsb where
    c: "rs_cache rs1 = Some cache1" "cache1 (key_from_request (rv_debug_f64 env) req1) = Some c"
    and resp1: "respond ro req1 c docs hit rsa = Some (resp1, rsb)"
    using search_fills_cache [OF first] by blast
  have "lookup_cache env req2 rs2 = (Some c, rs2\<lparr>rs_cache := Some cache1\<rparr>)"
    using c later key by (simp add: lookup_cache_def cache_get_def)
  then obtain resp2 where r: "r = Inr resp2"
    and resp2: "respond ro req2 c Map.empty True (rs2\<lparr>rs_cache := Some cache1\<rparr>) = Some (resp2, rs3)"
    using second by (auto simp: router_search_def respond_from_cache_def)
  have page: "q_limit req2 = q_limit req1" "q_offset req2 = q_offset req1"
    using key by (simp_all add: key_from_request_def)
  have "rs_world rs3 = rs_world rs2 \<and> rs_counters rs3 = rs_counters rs2" if "\<not> q_include_docs req2"
    using resp2 that by (auto simp: respond_def build_hits_def)
  then show ?thesis
    using respond_fields [OF resp1] respond_fields [OF resp2] page r by simp
qed

section \<open>An example\<close>

text \<open>A router with one shard, of which only the answers matter.\<close>

definition stub_client :: "shard_search_result \<Rightarrow> unit shard_client" where
  "stub_client res =
     \<lparr>is_circuit_open = default_is_circuit_open, c_search = (\<lambda>request. op_return res),
      c_index = (\<lambda>doc. op_return ()), c_bulk = (\<lambda>docs. op_return (word_of_nat (length docs))),
      c_delete = (\<lambda>i. op_return ()), c_get_docs = (\<lambda>ids. op_return (map example_doc ids)),
      c_stats = op_result (Inl (Internal ''none'')), c_flush = op_return (),
      c_reindex = op_return \<lparr>ri_shard_id = 0, ri_docs_reindexed = 0\<rparr>, c_health = op_return True,
      c_suggest = default_suggest\<rparr>"

definition example_result :: shard_search_result where
  "example_result =
     \<lparr>sres_hits = [(7, F32 0)], sres_total_hits = 1, sres_aggregations = [], sres_used_or_fallback = False\<rparr>"

definition example_router_env :: "unit router_env" where
  "example_router_env =
     \<lparr>rv_deadline = (\<lambda>ms w. None), rv_keep = (\<lambda>w key. True), rv_debug_f64 = bits_text, rv_usort = sort_by,
      rv_field_order = (\<lambda>xs. xs), rv_bucket_order = (\<lambda>xs. xs), rv_term_order = (\<lambda>xs. xs)\<rparr>"

definition example_router :: "unit router" where
  "example_router = fst (router_with_cache [primary_only (stub_client example_result)] noop_rank 30 200 5000
     noop_strategy \<lparr>qc_enabled = True, qc_max_entries = 10, qc_ttl_seconds = 60\<rparr> ())"

definition example_rstate :: "unit rstate" where
  "example_rstate = \<lparr>rs_counters = [0], rs_cache = Some Map.empty, rs_world = ()\<rparr>"

lemma example_router_env_ok: "router_env_ok example_router_env"
  by (simp add: router_env_ok_def example_router_env_def)

lemma example_router_shards:
  "ro_shards example_router = [primary_only (stub_client example_result)]"
  "ro_availability example_router = noop_strategy" "ro_ranker example_router = noop_rank"
  by (simp_all add: example_router_def router_with_cache_def)

lemma example_shard_for: "shard_for example_router i = 0"
  using jump_hash_nat(2) [of 1 i] by (simp add: shard_for_def example_router_shards)

lemma example_read_target: "read_target (primary_only (stub_client res)) start s = stub_client res"
  by (simp add: read_target_def primary_only_def endpoint_at_def stub_client_def default_is_circuit_open_def)

lemma example_scatter:
  "scatter example_router_env example_router request rs =
     Some ([Inr example_result], rs\<lparr>rs_counters := (rs_counters rs)[0 := rs_counters rs ! 0 + 1]\<rparr>)"
  by (simp add: scatter_def example_router_shards pick_target_def example_read_target Let_def
      example_router_env_def, simp add: stub_client_def)

lemma example_fetch: "\<exists>rs'. fetch_docs example_router [7] rs = Some ([example_doc 7], rs')"
  by (simp add: fetch_docs_def partition_by_def example_shard_for example_router_shards pick_target_def
      example_read_target docs_or_default_def enumerate_eq_zip, simp add: stub_client_def)

lemma example_search:
  "\<exists>resp rs'. router_search example_router_env example_router default_request example_rstate = Some (Inr resp, rs')"
proof -
  have sort: "rv_usort example_router_env score_desc (ga_hits (gather [Inr example_result])) = [(7, F32 0)]"
    by (simp add: gather_props example_router_env_def example_result_def sort_by_def)
  have healthy: "ga_healthy (gather [Inr example_result]) \<noteq> 0" by (simp add: gather_props)
  have dl: "rv_deadline example_router_env ms w = None" for ms w by (simp add: example_router_env_def)
  obtain rs1 where "fetch_docs example_router [7] (example_rstate\<lparr>rs_counters := [1]\<rparr>) = Some ([example_doc 7], rs1)"
    using example_fetch by blast
  then show ?thesis
    using healthy
    by (simp add: router_search_def lookup_cache_def example_rstate_def cache_get_def candidates_of_def
        example_scatter Let_def sort rank_hits_def example_router_shards dl filter_available_def
        default_request_def respond_def build_hits_def)
qed

theorem search_merges_shards_witness:
  "\<exists>resp rs'. router_search example_router_env example_router default_request example_rstate = Some (Inr resp, rs') \<and>
     r_total_hits resp = 1 \<and> \<not> r_cache_hit resp"
proof -
  obtain resp rs' where run:
    "router_search example_router_env example_router default_request example_rstate = Some (Inr resp, rs')"
    using example_search by blast
  have law: "availability_law (ro_availability example_router)"
    unfolding example_router_shards by (rule noop_av.availability_law_axioms)
  have miss: "lookup_cache example_router_env default_request example_rstate = (None, example_rstate)"
    by (simp add: lookup_cache_def example_rstate_def cache_get_def example_router_env_def)
  have nan: "\<forall>res \<in> set (oks [Inr example_result :: error + shard_search_result]).
      \<forall>(i, s) \<in> set (sres_hits res). \<not> f32_is_nan s"
    by (simp add: example_result_def f32_is_nan_def raw_nan_def raw32_def)
  from search_merges_shards [OF example_router_env_ok law miss example_scatter nan run] run
  show ?thesis by (auto simp: example_result_def)
qed

theorem search_cached_same_witness:
  "\<exists>resp1 rs1 resp2 rs2.
     router_search example_router_env example_router default_request example_rstate = Some (Inr resp1, rs1) \<and>
     router_search example_router_env example_router default_request rs1 = Some (Inr resp2, rs2) \<and>
     r_cache_hit resp2 \<and> map hit_id (r_hits resp2) = map hit_id (r_hits resp1)"
proof -
  obtain resp1 rs1 where run1:
    "router_search example_router_env example_router default_request example_rstate = Some (Inr resp1, rs1)"
    using example_search by blast
  have cache: "rs_cache example_rstate = Some Map.empty" by (simp add: example_rstate_def)
  have keep: "rv_keep example_router_env w key" for w key by (simp add: example_router_env_def)
  obtain cache1 c where "rs_cache rs1 = Some cache1"
    "cache1 (key_from_request (rv_debug_f64 example_router_env) default_request) = Some c"
    using search_fills_cache [OF run1 cache] by blast
  then have "\<exists>r rs2. router_search example_router_env example_router default_request rs1 = Some (r, rs2)"
    by (simp add: router_search_def lookup_cache_def cache_get_def keep respond_from_cache_def respond_def
        build_hits_def default_request_def)
  then obtain r rs2 where run2: "router_search example_router_env example_router default_request rs1 = Some (r, rs2)"
    by blast
  from search_cached_same [OF run1 cache refl refl keep run2] obtain resp2 where
    "r = Inr resp2" "r_cache_hit resp2"
    "map (\<lambda>h. (hit_id h, hit_score h)) (r_hits resp2) = map (\<lambda>h. (hit_id h, hit_score h)) (r_hits resp1)" by blast
  moreover from this(3) have "map hit_id (r_hits resp2) = map hit_id (r_hits resp1)"
    by (metis (no_types, lifting) comp_apply fst_conv list.map_comp map_cong)
  ultimately show ?thesis using run1 run2 by blast
qed

end
