(* ===== verification/RouterSuggest.thy ===== *)
theory RouterSuggest
  imports RouterSearch
begin

text \<open>
  The suggestions of the router (\<open>suggest\<close> in \<open>crates/router/src/router.rs\<close>): the answers of the
  suggestion shards are merged by the greatest score of a term.
\<close>

section \<open>Merging\<close>

text \<open>The suggestions that arrived in time.\<close>

definition arrived :: "(error + suggest_term list) option list \<Rightarrow> suggest_term list" where
  "arrived results = concat (List.map_filter (\<lambda>r. case r of Some (Inr es) \<Rightarrow> Some es | _ \<Rightarrow> None) results)"

lemma merge_suggestions_arrived: "merge_suggestions results = foldl merge_suggestion [] (arrived results)"
proof -
  have "foldl (\<lambda>merged r. case r of Some (Inr entries) \<Rightarrow> foldl merge_suggestion merged entries | _ \<Rightarrow> merged) m results =
      foldl merge_suggestion m (arrived results)" for m
  proof (induction results arbitrary: m)
    case (Cons r results)
    then show ?case
      by (cases r) (auto simp: arrived_def List.map_filter_simps split: sum.split)
  qed (simp add: arrived_def List.map_filter_simps)
  then show ?thesis by (simp add: merge_suggestions_def)
qed

text \<open>The score of a term is its greatest one.\<close>

definition greatest_score :: "suggest_term list \<Rightarrow> string \<Rightarrow> f32 \<Rightarrow> bool" where
  "greatest_score es t s \<longleftrightarrow>
     (\<exists>e \<in> set es. sg_term e = t \<and> sg_score e = s) \<and> (\<forall>e \<in> set es. sg_term e = t \<longrightarrow> f32_le (sg_score e) s)"

definition merged_from :: "suggest_term list \<Rightarrow> (string \<times> f32) list \<Rightarrow> bool" where
  "merged_from es m \<longleftrightarrow>
     distinct (map fst m) \<and> fst ` set m = sg_term ` set es \<and> (\<forall>(t, s) \<in> set m. greatest_score es t s)"

lemma f32_nonneg_zero: "f32_nonneg s \<Longrightarrow> \<not> f32_lt (f32_of_nat 0) s \<Longrightarrow> s = f32_of_nat 0"
  using f32_lt_bits [of "F32 0" s]
  by (cases s) (auto simp: f32_consts(1) f32_nonneg_def raw32_def word_gt_0 simp del: One_nat_def)

lemma merge_suggestion_step:
  assumes m: "merged_from es m" and s: "f32_nonneg (sg_score e)" "\<forall>e \<in> set es. f32_nonneg (sg_score e)"
  shows "merged_from (es @ [e]) (merge_suggestion m e)"
proof -
  let ?m = "merge_suggestion m e"
  have d: "distinct (map fst m)" using m by (simp add: merged_from_def)
  have d': "distinct (map fst ?m)" using d by (simp add: merge_suggestion_def hm_entry_distinct)
  have keys: "fst ` set ?m = sg_term ` set (es @ [e])"
    using m by (auto simp: merge_suggestion_def hm_entry_keys merged_from_def)
  have "greatest_score (es @ [e]) t s" if ts: "(t, s) \<in> set ?m" for t s
  proof (cases "t = sg_term e")
    case False
    have "map_of ?m t = Some s" using ts d' by simp
    then have "(t, s) \<in> set m"
      using False d by (simp add: merge_suggestion_def hm_entry_lookup)
    then show ?thesis using m False by (auto simp: merged_from_def greatest_score_def)
  next
    case True
    have s': "s = (let slot = or_default (f32_of_nat 0) (map_of m t)
        in if f32_lt slot (sg_score e) then sg_score e else slot)"
    proof -
      have "map_of ?m t = Some s" using ts d' by simp
      then show ?thesis by (simp add: merge_suggestion_def hm_entry_lookup True)
    qed
    show ?thesis
    proof (cases "map_of m t")
      case None
      then have "t \<notin> sg_term ` set es" using m by (auto simp: merged_from_def map_of_eq_None_iff)
      then have "\<forall>ea \<in> set es. sg_term ea \<noteq> sg_term e" using True by (metis imageI)
      moreover have "s = sg_score e" using s' None f32_nonneg_zero [OF s(1)] by (auto simp: Let_def)
      moreover have "f32_le (sg_score e) (sg_score e)" using s(1) by (simp add: f32_le_key)
      ultimately show ?thesis using True by (auto simp: greatest_score_def)
    next
      case (Some v)
      then have v: "greatest_score es t v" using m by (auto simp: merged_from_def dest: map_of_SomeD)
      then have "f32_nonneg v" using s(2) by (auto simp: greatest_score_def)
      then show ?thesis
        using v s(1) s' Some True f32_le_trans [of _ v "sg_score e"]
        by (auto simp: greatest_score_def Let_def f32_lt_key f32_le_key)
    qed
  qed
  then show ?thesis using d' keys by (auto simp: merged_from_def)
qed

lemma merge_suggestions_from:
  "\<forall>e \<in> set es. f32_nonneg (sg_score e) \<Longrightarrow> merged_from es (foldl merge_suggestion [] es)"
proof (induction es rule: rev_induct)
  case Nil
  show ?case by (simp add: merged_from_def)
next
  case (snoc e es)
  then show ?case using merge_suggestion_step [of es "foldl merge_suggestion [] es" e] by simp
qed

section \<open>The order of the suggestions\<close>

lemma suggestion_order_sorted:
  assumes "\<forall>e \<in> set es. \<not> f32_is_nan (sg_score e)"
  shows "sorted_wrt (not_after suggestion_order) (sort_by suggestion_order es)"
    and "a \<in> set es \<Longrightarrow> b \<in> set es \<Longrightarrow> not_after suggestion_order a b \<Longrightarrow> f32_le (sg_score b) (sg_score a)"
proof -
  have key: "not_after suggestion_order a b \<longleftrightarrow> (- f32_key (sg_score a), sg_term a) \<le> (- f32_key (sg_score b), sg_term b)"
    if "a \<in> set es" "b \<in> set es" for a b
    using assms that
    by (auto simp: not_after_def suggestion_order_def f32_cmp_or_equal_def unwrap_or_equal_def f32_partial_cmp_key
        cmp_of_def less_eq_prod_def)
  have "total_preorder_on (set es) suggestion_order" by (rule total_preorder_key_on [OF key])
  then show "sorted_wrt (not_after suggestion_order) (sort_by suggestion_order es)"
    using sorted_sort_by by (auto simp: sorted_by_def)
  show "a \<in> set es \<Longrightarrow> b \<in> set es \<Longrightarrow> not_after suggestion_order a b \<Longrightarrow> f32_le (sg_score b) (sg_score a)"
    using key assms by (auto simp: f32_le_key less_eq_prod_def)
qed

text \<open>
  C37: the suggestions of the router are the best of all suggestions that arrived: each term once, with
  its greatest score, in descending order of the scores and by the term where they are equal; as many
  as there are terms, up to the limit; a term is left out only for terms that score at least as high.
  A shard that fails or is late only takes its own suggestions away.
\<close>
theorem router_suggest_best:
  assumes env: "router_env_ok env" and asked: "ro_suggest_shards ro \<noteq> []" "pre \<noteq> []" "0 < limit"
    and joined: "join_calls (\<lambda>client. with_timeout (rv_deadline env) (ro_suggest_query_timeout ro)
        (c_suggest client pre field limit)) (ro_suggest_shards ro) w = Some (results, w')"
    and scores: "\<forall>e \<in> set (arrived results). f32_nonneg (sg_score e)"
  shows "\<exists>res. router_suggest env ro pre field limit w = Some (Inr res, w') \<and>
    length res = min limit (card (sg_term ` set (arrived results))) \<and> distinct (map sg_term res) \<and>
    sorted_wrt (\<lambda>a b. f32_le (sg_score b) (sg_score a)) res \<and>
    (\<forall>e \<in> set res. greatest_score (arrived results) (sg_term e) (sg_score e)) \<and>
    (\<forall>e \<in> set (arrived results). sg_term e \<notin> sg_term ` set res \<longrightarrow>
       (\<forall>r \<in> set res. f32_le (sg_score e) (sg_score r)))"
proof -
  let ?E = "arrived results"
  let ?m = "rv_term_order env (merge_suggestions results)"
  let ?es = "map (\<lambda>(t, score). \<lparr>sg_term = t, sg_score = score\<rparr>) ?m"
  let ?sorted = "sort_by suggestion_order ?es"
  have from': "merged_from ?E (merge_suggestions results)"
    using merge_suggestions_from [OF scores] by (simp add: merge_suggestions_arrived)
  have mm: "mset ?m = mset (merge_suggestions results)" by (rule router_env_okD [OF env])
  have m: "distinct (map fst ?m)" "fst ` set ?m = sg_term ` set ?E" "\<forall>(t, s) \<in> set ?m. greatest_score ?E t s"
  proof -
    show "distinct (map fst ?m)"
      using from' mm by (metis merged_from_def mset_eq_imp_distinct_iff mset_map)
    show "fst ` set ?m = sg_term ` set ?E" "\<forall>(t, s) \<in> set ?m. greatest_score ?E t s"
      using from' mset_eq_setD [OF mm] by (auto simp: merged_from_def)
  qed
  have terms: "map sg_term ?es = map fst ?m" by (simp add: comp_def case_prod_beta)
  have best: "greatest_score ?E (sg_term e) (sg_score e)" if "e \<in> set ?es" for e
    using that m(3) by auto
  have num: "\<forall>e \<in> set ?es. \<not> f32_is_nan (sg_score e)"
    using best scores by (fastforce simp: greatest_score_def)
  note order = suggestion_order_sorted [OF num]
  have desc: "sorted_wrt (\<lambda>a b. f32_le (sg_score b) (sg_score a)) ?sorted"
    by (rule sorted_wrt_mono_rel [OF _ order(1)]) (use order(2) in simp)
  have d: "distinct (map sg_term ?sorted)"
    using m(1) terms by (metis mset_eq_imp_distinct_iff mset_map mset_sort_by)
  have run: "router_suggest env ro pre field limit w = Some (Inr (take limit ?sorted), w')"
    using asked joined by (simp add: router_suggest_def)
  have len: "length ?sorted = card (sg_term ` set ?E)"
    using distinct_card [OF m(1)] m(2) by simp
  have left: "f32_le (sg_score e) (sg_score r)"
    if e: "e \<in> set ?E" "sg_term e \<notin> sg_term ` set (take limit ?sorted)" and r: "r \<in> set (take limit ?sorted)" for e r
  proof -
    have "sg_term e \<in> set (map sg_term ?es)" using e(1) m(2) unfolding terms by auto
    then have "sg_term e \<in> sg_term ` set ?sorted" by (simp del: set_map add: image_set)
    then obtain x where x: "x \<in> set ?sorted" "sg_term x = sg_term e" by force
    then have "x \<in> set (drop limit ?sorted)"
      using e(2) by (metis append_take_drop_id imageI in_set_conv_decomp Un_iff set_append)
    then have "f32_le (sg_score x) (sg_score r)"
      using desc r by (metis append_take_drop_id sorted_wrt_append)
    moreover have "f32_le (sg_score e) (sg_score x)"
      using best [of x] x e(1) by (auto simp: greatest_score_def)
    ultimately show ?thesis using f32_le_trans by blast
  qed
  show ?thesis
  proof (intro exI conjI ballI impI)
    show "router_suggest env ro pre field limit w = Some (Inr (take limit ?sorted), w')" by (rule run)
    show "length (take limit ?sorted) = min limit (card (sg_term ` set ?E))" by (metis len length_take min.commute)
    show "distinct (map sg_term (take limit ?sorted))" using d by (metis distinct_take take_map)
    show "sorted_wrt (\<lambda>a b. f32_le (sg_score b) (sg_score a)) (take limit ?sorted)"
      using desc by (metis append_take_drop_id sorted_wrt_append)
    show "greatest_score ?E (sg_term e) (sg_score e)" if "e \<in> set (take limit ?sorted)" for e
      using best [of e] in_set_takeD [OF that] by simp
  qed (use left in blast)
qed

text \<open>Two suggestion shards that know the same term with different scores.\<close>

definition example_suggest_client :: "suggest_term list \<Rightarrow> unit shard_client" where
  "example_suggest_client es = stub_client example_result\<lparr>c_suggest := (\<lambda>pre field limit. op_return es)\<rparr>"

definition example_suggest_router :: "unit router" where
  "example_suggest_router = with_suggest_shards
     [example_suggest_client [\<lparr>sg_term = ''ab'', sg_score = F32 0\<rparr>],
      example_suggest_client [\<lparr>sg_term = ''ab'', sg_score = F32 1\<rparr>]] 200 100 example_router"

lemma example_suggest_results:
  "join_calls (\<lambda>client. with_timeout (rv_deadline example_router_env) (ro_suggest_query_timeout example_suggest_router)
       (c_suggest client ''a'' ''title'' 5)) (ro_suggest_shards example_suggest_router) () =
     Some ([Some (Inr [\<lparr>sg_term = ''ab'', sg_score = F32 0\<rparr>]),
            Some (Inr [\<lparr>sg_term = ''ab'', sg_score = F32 1\<rparr>])], ())"
  by (simp add: example_suggest_router_def with_suggest_shards_def with_timeout_def example_router_env_def
      example_suggest_client_def)

theorem router_suggest_best_witness:
  "\<exists>res. router_suggest example_router_env example_suggest_router ''a'' ''title'' 5 () = Some (Inr res, ()) \<and>
     length res = 1 \<and> (\<forall>e \<in> set res. greatest_score
       [\<lparr>sg_term = ''ab'', sg_score = F32 0\<rparr>, \<lparr>sg_term = ''ab'', sg_score = F32 1\<rparr>] (sg_term e) (sg_score e))"
proof -
  have arrived: "arrived [Some (Inr [\<lparr>sg_term = ''ab'', sg_score = F32 0\<rparr>]),
      Some (Inr [\<lparr>sg_term = ''ab'', sg_score = F32 1\<rparr>])] =
      [\<lparr>sg_term = ''ab'', sg_score = F32 0\<rparr>, \<lparr>sg_term = ''ab'', sg_score = F32 1\<rparr>]"
    by (simp add: arrived_def List.map_filter_simps)
  have nonneg: "\<forall>e \<in> set (arrived [Some (Inr [\<lparr>sg_term = ''ab'', sg_score = F32 0\<rparr>]),
      Some (Inr [\<lparr>sg_term = ''ab'', sg_score = F32 1\<rparr>])]). f32_nonneg (sg_score e)"
    unfolding arrived by (simp add: f32_nonneg_def raw32_def f32_is_nan_def raw_nan_def)
  have asked: "ro_suggest_shards example_suggest_router \<noteq> []" "''a'' \<noteq> []" "0 < (5 :: nat)"
    by (simp_all add: example_suggest_router_def with_suggest_shards_def)
  from router_suggest_best [OF example_router_env_ok asked example_suggest_results nonneg]
  show ?thesis unfolding arrived by auto
qed

end
