(* ===== verification/RouterWorld.thy ===== *)
theory RouterWorld
  imports RouterSuggest
begin

text \<open>
  What reading through the router does to the world: a search and a fetch of documents keep whatever
  the clients, the ranker and the availability strategy keep.
\<close>

section \<open>Clients that are read\<close>

lemma read_target_endpoint: "read_target grp start s \<in> set (endpoints grp)"
proof -
  let ?total = "1 + length (gr_replicas grp)"
  have "endpoint_at grp (n mod ?total) \<in> set (endpoints grp)" for n
  proof -
    have "n mod ?total < length (endpoints grp)" by (simp add: endpoints_def)
    then show ?thesis by (metis endpoint_at_nth nth_mem)
  qed
  then have all: "set (map (\<lambda>i. endpoint_at grp (unat (start + word_of_nat i) mod ?total)) [0..<?total]) \<subseteq>
      set (endpoints grp)" by (metis (no_types, lifting) imageE list.set_map subsetI)
  have primary: "gr_primary grp \<in> set (endpoints grp)" by (simp add: endpoints_def)
  show ?thesis
  proof (cases "List.find (\<lambda>client. \<not> is_circuit_open client s)
      (map (\<lambda>i. endpoint_at grp (unat (start + word_of_nat i) mod ?total)) [0..<?total])")
    case None
    then show ?thesis using primary by (simp only: read_target_def Let_def option.case)
  next
    case (Some c)
    then have "c \<in> set (endpoints grp)" using find_first [OF Some] all by blast
    then show ?thesis using Some by (simp only: read_target_def Let_def option.case)
  qed
qed

lemma pick_targets_spec:
  "pick_targets ro ks rs = (clients, rs') \<Longrightarrow>
     rs_world rs' = rs_world rs \<and> rs_cache rs' = rs_cache rs \<and>
     list_all2 (\<lambda>k c. c \<in> set (endpoints (ro_shards ro ! k))) ks clients"
proof (induction ks arbitrary: rs clients rs')
  case (Cons k ks)
  obtain client rs1 where p: "pick_target ro k rs = (client, rs1)" by (cases "pick_target ro k rs")
  obtain cs rs2 where ps: "pick_targets ro ks rs1 = (cs, rs2)" by (cases "pick_targets ro ks rs1")
  have "rs_world rs1 = rs_world rs" "rs_cache rs1 = rs_cache rs" "client \<in> set (endpoints (ro_shards ro ! k))"
    using p read_target_endpoint by (auto simp: pick_target_def)
  then show ?case using Cons.IH [OF ps] Cons.prems p ps by auto
qed simp

definition reads_keep :: "('s \<Rightarrow> bool) \<Rightarrow> 's router_env \<Rightarrow> 's router \<Rightarrow> bool" where
  "reads_keep P env ro \<longleftrightarrow>
     (\<forall>grp \<in> set (ro_shards ro). \<forall>c \<in> set (endpoints grp).
        (\<forall>req. op_keeps P (c_search c req)) \<and> (\<forall>ids. op_keeps P (c_get_docs c ids))) \<and>
     (\<forall>q cs. op_keeps P (ro_ranker ro q cs)) \<and>
     (\<forall>hits docs zone w. P w \<longrightarrow> P (snd (as_apply (ro_availability ro) hits docs zone w))) \<and>
     (\<forall>ms w w'. P w \<longrightarrow> rv_deadline env ms w = Some w' \<longrightarrow> P w')"

lemma reads_keepD:
  assumes "reads_keep P env ro"
  shows "k < length (ro_shards ro) \<Longrightarrow> c \<in> set (endpoints (ro_shards ro ! k)) \<Longrightarrow> op_keeps P (c_search c req)"
    and "k < length (ro_shards ro) \<Longrightarrow> c \<in> set (endpoints (ro_shards ro ! k)) \<Longrightarrow> op_keeps P (c_get_docs c ids)"
    and "op_keeps P (ro_ranker ro q cs)"
    and "P w \<Longrightarrow> P (snd (as_apply (ro_availability ro) hits docs zone w))"
    and "P w \<Longrightarrow> rv_deadline env ms w = Some w' \<Longrightarrow> P w'"
  using assms nth_mem [of k "ro_shards ro"] unfolding reads_keep_def by blast+

lemma with_timeout_keeps:
  assumes "op_keeps P m" "\<And>w'. deadline ms w = Some w' \<Longrightarrow> P w'" "P w"
  shows "with_timeout deadline ms m w = Some (r, w') \<Longrightarrow> P w'"
  using assms op_keepsD [OF assms(1,3)] by (auto simp: with_timeout_def split: option.splits)

section \<open>Searching\<close>

lemma scatter_keeps:
  assumes keep: "reads_keep P env ro" and P: "P (rs_world rs)"
    and run: "scatter env ro request rs = Some (results, rs')"
  shows "P (rs_world rs')"
proof -
  obtain clients rs1 where p: "pick_targets ro [0..<length (ro_shards ro)] rs = (clients, rs1)"
    by (cases "pick_targets ro [0..<length (ro_shards ro)] rs")
  note spec = pick_targets_spec [OF p]
  let ?call = "\<lambda>client w. map_option (\<lambda>(r, w'). (case r of None \<Rightarrow> Inl (ShardError ''shard query timeout'') | Some r \<Rightarrow> r, w'))
      (with_timeout (rv_deadline env) (ro_query_timeout ro) (c_search client (scatter_request ro request)) w)"
  obtain w where w: "join_calls ?call clients (rs_world rs1) = Some (results, w)" "rs' = rs1\<lparr>rs_world := w\<rparr>"
    using run by (auto simp: scatter_def p)
  have "P s'" if c: "c \<in> set clients" "P s" "?call c s = Some (r, s')" for c s r s'
  proof -
    obtain k where "k < length (ro_shards ro)" "c \<in> set (endpoints (ro_shards ro ! k))"
      using c(1) spec by (auto simp: in_set_conv_nth list_all2_conv_all_nth)
    then have "op_keeps P (c_search c (scatter_request ro request))" by (rule reads_keepD(1) [OF keep])
    from with_timeout_keeps [OF this reads_keepD(5) [OF keep c(2)] c(2)] show ?thesis using c(3) by auto
  qed
  then have "P w" using join_calls_keeps [OF _ w(1), of P "\<lambda>_ _. True"] P spec by auto
  then show ?thesis using w(2) by simp
qed

lemma fetch_docs_keeps:
  assumes keep: "reads_keep P env ro" and P: "P (rs_world rs)" and run: "fetch_docs ro ids rs = Some (docs, rs')"
  shows "P (rs_world rs')"
proof (cases "ids = []")
  case True
  then show ?thesis using run P by (simp add: fetch_docs_def)
next
  case False
  let ?n = "length (ro_shards ro)"
  let ?by = "map (\<lambda>k. filter (\<lambda>x. shard_for ro x = k) ids) [0..<?n]"
  let ?groups = "filter (\<lambda>(idx, ids). ids \<noteq> []) (List.enumerate 0 ?by)"
  have part: "partition_by ?n (shard_for ro) ids = Some ?by"
    using run False by (auto simp: fetch_docs_def partition_by_def split: if_splits)
  obtain clients rs1 where p: "pick_targets ro (map fst ?groups) rs = (clients, rs1)"
    by (cases "pick_targets ro (map fst ?groups) rs")
  note spec = pick_targets_spec [OF p]
  obtain results w where w: "join_calls (\<lambda>(ids, client). docs_or_default ids client) (zip (map snd ?groups) clients)
      (rs_world rs1) = Some (results, w)" "rs' = rs1\<lparr>rs_world := w\<rparr>"
    using run False p by (auto simp: fetch_docs_def part)
  have "P s'" if c: "x \<in> set (zip (map snd ?groups) clients)" "P s"
      "(\<lambda>(ids, client). docs_or_default ids client) x s = Some (r, s')" for x s r s'
  proof -
    obtain is' c where x: "x = (is', c)" by (cases x)
    then obtain i where i: "i < length ?groups" "c = clients ! i"
      using c(1) by (auto simp: in_set_zip)
    have "?groups ! i \<in> set ?groups" using i(1) by (rule nth_mem)
    then have "fst (?groups ! i) < ?n" by (auto simp: in_set_enumerate_eq)
    moreover have "c \<in> set (endpoints (ro_shards ro ! fst (?groups ! i)))"
      using spec i by (auto simp: list_all2_conv_all_nth)
    ultimately have "op_keeps P (c_get_docs c is')" by (rule reads_keepD(2) [OF keep])
    then show ?thesis using c(2,3) x by (auto simp: docs_or_default_def dest: op_keepsD)
  qed
  then have "P w" using join_calls_keeps [OF _ w(1), of P "\<lambda>_ _. True"] P spec by auto
  then show ?thesis using w(2) by simp
qed

lemma build_hits_keeps:
  assumes "reads_keep P env ro" "P (rs_world rs)" "build_hits ro page docs b rs = Some (hits, rs')"
  shows "P (rs_world rs')"
  using assms(2,3) fetch_docs_keeps [OF assms(1,2)]
  by (auto simp: build_hits_def Let_def split: if_splits)

lemma respond_keeps:
  assumes "reads_keep P env ro" "P (rs_world rs)" "respond ro request c docs b rs = Some (resp, rs')"
  shows "P (rs_world rs')"
  using assms(3) build_hits_keeps [OF assms(1,2)] by (auto simp: respond_def)

lemma rank_hits_keeps:
  assumes keep: "reads_keep P env ro" and P: "P w" and run: "rank_hits env ro q docs hits w = Some (r, w')"
  shows "P w'"
proof (cases "hits = []")
  case True
  then show ?thesis using run P by (simp add: rank_hits_def)
next
  case False
  then obtain out where out: "with_timeout (rv_deadline env) (ro_ranker_timeout ro)
      (ro_ranker ro q (rank_candidates docs hits)) w = Some (out, w')"
    using run by (auto simp: rank_hits_def rerank_with_fallback_def split: option.splits sum.splits)
  show ?thesis
    by (rule with_timeout_keeps [OF reads_keepD(3) [OF keep] _ P out]) (rule reads_keepD(5) [OF keep P])
qed

lemma filter_available_keeps:
  assumes "reads_keep P env ro" "P w" "filter_available ro zone docs hits w = (hits', w')"
  shows "P w'"
  using assms(2,3) reads_keepD(4) [OF assms(1,2), of hits docs]
  by (auto simp: filter_available_def split: option.splits if_splits) (metis snd_conv)

lemma candidates_of_keeps:
  assumes keep: "reads_keep P env ro" and P: "P (rs_world rs)"
    and run: "candidates_of env ro request rs = Some (r, rs')"
  shows "P (rs_world rs')"
proof -
  obtain results rs1 where s: "scatter env ro request rs = Some (results, rs1)"
    using run by (auto simp: candidates_of_def split: option.splits)
  have P1: "P (rs_world rs1)" by (rule scatter_keeps [OF keep P s])
  show ?thesis
  proof (cases "ga_healthy (gather results) = 0")
    case True
    then show ?thesis using run s P1 by (auto simp: candidates_of_def Let_def)
  next
    case False
    let ?all = "rv_usort env score_desc (ga_hits (gather results))"
    obtain fetched rs2 where f: "(if ?all \<noteq> [] then fetch_docs ro (map fst ?all) rs1 else Some ([], rs1)) = Some (fetched, rs2)"
      using run False by (auto simp: candidates_of_def Let_def s split: option.splits if_splits)
    have P2: "P (rs_world rs2)"
      using f P1 fetch_docs_keeps [OF keep P1] by (auto split: if_splits)
    obtain final reranked w where k: "rank_hits env ro (q_query request) (doc_map fetched) ?all (rs_world rs2) =
        Some ((final, reranked), w)"
      using run False unfolding candidates_of_def s Let_def option.case prod.case f
      by (auto split: option.splits)
    have P3: "P w" by (rule rank_hits_keeps [OF keep P2 k])
    obtain kept w' where a: "filter_available ro (q_destination_zone request) (doc_map fetched) final w = (kept, w')"
      by (cases "filter_available ro (q_destination_zone request) (doc_map fetched) final w")
    have "rs_world rs' = w'"
      using run False unfolding candidates_of_def s Let_def option.case prod.case f by (auto simp: k a)
    then show ?thesis using filter_available_keeps [OF keep P3 a] by simp
  qed
qed

text \<open>A search keeps what the parts keep.\<close>

lemma router_search_keeps:
  assumes keep: "reads_keep P env ro" and P: "P (rs_world rs)"
    and run: "router_search env ro request rs = Some (r, rs')"
  shows "P (rs_world rs')"
proof -
  obtain found rs1 where l: "lookup_cache env request rs = (found, rs1)" by (cases "lookup_cache env request rs")
  have P1: "P (rs_world rs1)" using l P by (auto simp: lookup_cache_def Let_def split: option.splits prod.splits)
  show ?thesis
  proof (cases found)
    case (Some cached)
    then show ?thesis
      using run l respond_keeps [OF keep P1] by (auto simp: router_search_def respond_from_cache_def)
  next
    case None
    then obtain rc rs2 where c: "candidates_of env ro request rs1 = Some (rc, rs2)"
      using run l by (auto simp: router_search_def split: option.splits)
    have P2: "P (rs_world rs2)" by (rule candidates_of_keeps [OF keep P1 c])
    have "P (rs_world (store_cache env request cached rs2))" for cached using P2 by (simp add: store_cache_def)
    from respond_keeps [OF keep this] show ?thesis
      using run l None c P2 by (auto simp: router_search_def split: sum.splits)
  qed
qed

end
