(* ===== verification/Startup.thy ===== *)
theory Startup
  imports Router
begin

text \<open>
  The start of the server (\<open>main\<close> in \<open>crates/server/src/main.rs\<close>): how the command line, the
  configuration file and the name of the host make the settings, and which router the settings make in
  the modes \<open>router\<close> and \<open>standalone\<close>.  Telemetry and the listening sockets are not modelled.
\<close>

section \<open>Settings\<close>

record cli =
  cli_mode :: mode
  cli_config :: "string option"
  cli_num_shards :: u32
  cli_data_dir :: string
  cli_http_port :: u16
  cli_grpc_port :: u16
  cli_shard_id :: u32

text \<open>What the command line holds when no argument is given.\<close>

definition cli_defaults :: cli where
  "cli_defaults =
     \<lparr>cli_mode = Standalone, cli_config = None, cli_num_shards = 4, cli_data_dir = ''./data'',
      cli_http_port = 8080, cli_grpc_port = 9001, cli_shard_id = 0\<rparr>"

text \<open>A configuration file that cannot be read is a panic.\<close>

definition load_config :: "(string \<Rightarrow> config result) \<Rightarrow> cli \<Rightarrow> config option" where
  "load_config config_of_path cli =
     (case cli_config cli of
        None \<Rightarrow> Some default_config
      | Some path \<Rightarrow> (case config_of_path path of Inl e \<Rightarrow> None | Inr config \<Rightarrow> Some config))"

definition apply_cli :: "cli \<Rightarrow> config \<Rightarrow> config" where
  "apply_cli cli config =
     config\<lparr>cfg_mode := cli_mode cli,
       cfg_shard := cfg_shard config\<lparr>sc_num_shards := cli_num_shards cli, sc_data_dir := cli_data_dir cli,
         sc_grpc_port := cli_grpc_port cli, sc_shard_id := cli_shard_id cli\<rparr>,
       cfg_router := cfg_router config\<lparr>rt_http_port := cli_http_port cli\<rparr>\<rparr>"

text \<open>\<open>rsplit(c).next()\<close>: what follows the last \<open>c\<close>.\<close>

definition after_last :: "char \<Rightarrow> string \<Rightarrow> string" where
  "after_last c s = rev (takeWhile (\<lambda>x. x \<noteq> c) (rev s))"

definition detect_shard_id :: "string option \<Rightarrow> config \<Rightarrow> config" where
  "detect_shard_id hostname config =
     (if cfg_mode config = ShardMode \<and> sc_shard_id (cfg_shard config) = 0 then
        case hostname of None \<Rightarrow> config
        | Some hostname \<Rightarrow>
            (case parse_uint (2 ^ 32) (after_last (CHR ''-'') hostname) of None \<Rightarrow> config
             | Some ordinal \<Rightarrow> config\<lparr>cfg_shard := cfg_shard config\<lparr>sc_shard_id := word_of_nat ordinal\<rparr>\<rparr>)
      else config)"

text \<open>\<open>replace("{ordinal}", new)\<close>.\<close>

definition ordinal_mark :: string where
  "ordinal_mark = ''{ordinal}''"

fun replace_ordinal :: "string \<Rightarrow> string \<Rightarrow> string" where
  "replace_ordinal new [] = []"
| "replace_ordinal new (c # s) =
     (if prefix ordinal_mark (c # s) then new @ replace_ordinal new (drop (length ordinal_mark - 1) s)
      else c # replace_ordinal new s)"

definition resolve_replicas :: "string \<Rightarrow> shard_config \<Rightarrow> shard_config" where
  "resolve_replicas ordinal sc =
     (if sc_replica_endpoints sc = [] then
        case sc_replica_endpoint_template sc of None \<Rightarrow> sc
        | Some tmpl \<Rightarrow> sc\<lparr>sc_replica_endpoint_template := None,
            sc_replica_endpoints := [replace_ordinal ordinal tmpl]\<rparr>
      else sc)"

definition resolve_primary :: "string \<Rightarrow> shard_config \<Rightarrow> shard_config" where
  "resolve_primary ordinal sc =
     (if sc_primary_endpoint sc = None then
        case sc_primary_endpoint_template sc of None \<Rightarrow> sc
        | Some tmpl \<Rightarrow> sc\<lparr>sc_primary_endpoint_template := None,
            sc_primary_endpoint := Some (replace_ordinal ordinal tmpl)\<rparr>
      else sc)"

definition resolve_endpoints :: "config \<Rightarrow> config" where
  "resolve_endpoints config =
     (if cfg_mode config = ShardMode then
        let ordinal = show_nat (unat (sc_shard_id (cfg_shard config)))
        in config\<lparr>cfg_shard := resolve_primary ordinal (resolve_replicas ordinal (cfg_shard config))\<rparr>
      else config)"

definition settings :: "(string \<Rightarrow> config result) \<Rightarrow> string option \<Rightarrow> cli \<Rightarrow> config option" where
  "settings config_of_path hostname cli =
     map_option (\<lambda>config. resolve_endpoints (detect_shard_id hostname (apply_cli cli config)))
       (load_config config_of_path cli)"

section \<open>The router of the mode \<open>router\<close>\<close>

definition ranker_or_noop :: "('s, 'm) ranker_libs \<Rightarrow> ranker_config \<Rightarrow> 's ranker" where
  "ranker_or_noop libs config = (case ranker_build libs config of Inl e \<Rightarrow> noop_rank | Inr ranker \<Rightarrow> ranker)"

text \<open>What the clients use: the services behind the endpoints, the clock, and the breakers, one for
  each endpoint of each group.\<close>

record 's remote_libs =
  re_services :: "string \<Rightarrow> 's shard_service"
  re_clock :: "'s \<Rightarrow> u64"
  re_get_breaker :: "nat \<Rightarrow> nat \<Rightarrow> 's \<Rightarrow> circuit_breaker"
  re_upd_breaker :: "nat \<Rightarrow> nat \<Rightarrow> (circuit_breaker \<Rightarrow> circuit_breaker) \<Rightarrow> 's \<Rightarrow> 's"

definition wrap_client ::
  "'s remote_libs \<Rightarrow> circuit_breaker_config \<Rightarrow> nat \<Rightarrow> nat \<Rightarrow> string \<Rightarrow> 's shard_client" where
  "wrap_client re cb_config shard endpoint_no endpoint =
     (let client = remote_shard_client (re_services re) endpoint
      in if cb_enabled cb_config
         then breaker_shard_client (re_clock re) (re_get_breaker re shard endpoint_no)
                (re_upd_breaker re shard endpoint_no) client
         else client)"

definition group_of :: "'s remote_libs \<Rightarrow> circuit_breaker_config \<Rightarrow> nat \<Rightarrow> shard_group_config \<Rightarrow> 's shard_group" where
  "group_of re cb_config k sg =
     \<lparr>gr_primary = wrap_client re cb_config k 0 (sg_primary sg),
      gr_replicas = map (\<lambda>(i, ep). wrap_client re cb_config k (i + 1) ep) (List.enumerate 0 (sg_replicas sg))\<rparr>"

definition suggest_clients :: "'s remote_libs \<Rightarrow> router_config \<Rightarrow> 's shard_client list" where
  "suggest_clients re rt = map (remote_shard_client (re_services re)) (rt_suggest_shards rt)"

text \<open>Without a shard the server panics.\<close>

definition router_of_config ::
  "'s remote_libs \<Rightarrow> ('s, 'm) ranker_libs \<Rightarrow> (string \<Rightarrow> f64 option) \<Rightarrow> 's stock_service \<Rightarrow> config \<Rightarrow> 's \<Rightarrow>
   ('s router \<times> 's rstate) option" where
  "router_of_config re libs parse_f64 stock config world =
     (let rt = cfg_router config; rk = cfg_ranker config;
          ranker = ranker_or_noop libs rk;
          attach = (\<lambda>(ro, rs). (with_suggest_shards (suggest_clients re rt)
            (rt_suggest_write_timeout_ms rt) (rt_suggest_query_timeout_ms rt) ro, rs))
      in if rt_shards rt \<noteq> [] then
           case build_strategy parse_f64 stock (rt_availability rt) of None \<Rightarrow> None
           | Some strategy \<Rightarrow> Some (attach (router_with_cache
               (map (\<lambda>(k, sg). group_of re (rt_circuit_breaker rt) k sg) (List.enumerate 0 (rt_shards rt)))
               ranker (rk_timeout_ms rk) (rk_candidates rk) (rt_query_timeout_ms rt) strategy (rt_cache rt) world))
         else if rt_shard_endpoints rt = [] then None
         else Some (attach (router_new_simple
               (map (\<lambda>(k, ep). wrap_client re (rt_circuit_breaker rt) k 0 ep)
                  (List.enumerate 0 (rt_shard_endpoints rt)))
               ranker (rk_timeout_ms rk) (rk_candidates rk) (rt_query_timeout_ms rt) world)))"

section \<open>The mode \<open>standalone\<close>\<close>

text \<open>The world of a standalone server: its shards and suggestion shards, by their numbers, and
  whatever else the ranker talks to.\<close>

record 'n standalone =
  sd_shards :: "nat \<Rightarrow> shard"
  sd_suggest :: "nat \<Rightarrow> suggest_engine"
  sd_net :: 'n

definition shard_at :: "nat \<Rightarrow> 'n standalone \<Rightarrow> shard" where
  "shard_at i w = sd_shards w i"

definition upd_shard :: "nat \<Rightarrow> (shard \<Rightarrow> shard) \<Rightarrow> 'n standalone \<Rightarrow> 'n standalone" where
  "upd_shard i f w = w\<lparr>sd_shards := (sd_shards w)(i := f (sd_shards w i))\<rparr>"

definition engine_at :: "nat \<Rightarrow> 'n standalone \<Rightarrow> suggest_engine" where
  "engine_at i w = sd_suggest w i"

definition upd_engine :: "nat \<Rightarrow> (suggest_engine \<Rightarrow> suggest_engine) \<Rightarrow> 'n standalone \<Rightarrow> 'n standalone" where
  "upd_engine i f w = w\<lparr>sd_suggest := (sd_suggest w)(i := f (sd_suggest w i))\<rparr>"

interpretation shard_cell: cell "shard_at i" "upd_shard i" for i
  by unfold_locales (simp_all add: shard_at_def upd_shard_def)

interpretation engine_cell: cell "engine_at i" "upd_engine i" for i
  by unfold_locales (simp_all add: engine_at_def upd_engine_def)

text \<open>\<open>Path::join\<close> with a relative path.\<close>

definition path_join :: "string \<Rightarrow> string \<Rightarrow> string" where
  "path_join base p = (if base = [] \<or> last base = CHR ''/'' then base @ p else base @ CHR ''/'' # p)"

definition standalone_config :: "shard_config \<Rightarrow> nat \<Rightarrow> shard_config" where
  "standalone_config sc i =
     sc\<lparr>sc_shard_id := word_of_nat i, sc_data_dir := path_join (sc_data_dir sc) (''shard-'' @ show_nat i)\<rparr>"

definition standalone_env :: "shard_env \<Rightarrow> shard_config \<Rightarrow> nat \<Rightarrow> shard_env" where
  "standalone_env base sc i =
     base\<lparr>sv_schema := default_product_schema, sv_config := standalone_config sc i\<rparr>"

text \<open>Every shard is opened on its own files; the server panics if one cannot be.\<close>

fun open_shards ::
  "(nat \<Rightarrow> shard_env) \<Rightarrow> (string \<Rightarrow> primary) \<Rightarrow> (nat \<Rightarrow> bytes \<times> (string \<rightharpoonup> dir)) \<Rightarrow> nat list \<Rightarrow>
   (nat \<Rightarrow> shard) \<Rightarrow> (nat \<Rightarrow> shard) option" where
  "open_shards envs connect files [] shards = Some shards"
| "open_shards envs connect files (i # is') shards =
     (case shard_open (envs i) connect (fst (files i)) (snd (files i)) of None \<Rightarrow> None
      | Some sh \<Rightarrow> open_shards envs connect files is' (shards(i := sh)))"

definition standalone_engines :: "suggest_shard_config \<Rightarrow> nat \<Rightarrow> suggest_engine" where
  "standalone_engines ss i = sn_new (ss\<lparr>ss_shard_id := word_of_nat i\<rparr>)"

definition standalone_start ::
  "shard_env \<Rightarrow> (string \<Rightarrow> primary) \<Rightarrow> config \<Rightarrow> (nat \<Rightarrow> bytes \<times> (string \<rightharpoonup> dir)) \<Rightarrow> 'n standalone \<Rightarrow>
   'n standalone option" where
  "standalone_start base connect config files w =
     map_option (\<lambda>shards. w\<lparr>sd_shards := shards, sd_suggest := standalone_engines (cfg_suggest_shard config)\<rparr>)
       (open_shards (standalone_env base (cfg_shard config)) connect files
          [0..<unat (sc_num_shards (cfg_shard config))] (sd_shards w))"

definition standalone_router ::
  "('n standalone, 'm) ranker_libs \<Rightarrow> shard_env \<Rightarrow> suggest_env \<Rightarrow> config \<Rightarrow> 'n standalone \<Rightarrow>
   'n standalone router \<times> 'n standalone rstate" where
  "standalone_router libs base sg config w =
     (let rt = cfg_router config; rk = cfg_ranker config; ss = cfg_suggest_shard config;
          shards = map (\<lambda>i. local_shard_client (standalone_env base (cfg_shard config) i) (shard_at i) (upd_shard i))
            [0..<unat (sc_num_shards (cfg_shard config))];
          suggests = map (\<lambda>i. local_suggest_client sg (engine_at i) (upd_engine i))
            [0..<unat (ss_num_suggest_shards ss)];
          (ro, rs) = router_new_simple shards (ranker_or_noop libs rk) (rk_timeout_ms rk) (rk_candidates rk)
            (rt_query_timeout_ms rt) w
      in (with_suggest_shards suggests (rt_suggest_write_timeout_ms rt) (rt_suggest_query_timeout_ms rt) ro, rs))"

text \<open>The background task that makes the indices of the suggestion shards current.\<close>

fun flush_engines :: "suggest_env \<Rightarrow> nat list \<Rightarrow> 'n standalone \<Rightarrow> 'n standalone" where
  "flush_engines sg [] w = w"
| "flush_engines sg (i # is') w = flush_engines sg is' (upd_engine i (\<lambda>e. snd (sn_flush sg e)) w)"

definition suggest_tick :: "suggest_env \<Rightarrow> config \<Rightarrow> 'n standalone \<Rightarrow> 'n standalone" where
  "suggest_tick sg config w =
     flush_engines sg [0..<unat (ss_num_suggest_shards (cfg_suggest_shard config))] w"

section \<open>The other modes\<close>

definition shard_mode_start ::
  "shard_env \<Rightarrow> (string \<Rightarrow> primary) \<Rightarrow> config \<Rightarrow> bytes \<Rightarrow> (string \<rightharpoonup> dir) \<Rightarrow> (shard_env \<times> shard) option" where
  "shard_mode_start base connect config wal_file segments_dir =
     (let sv = base\<lparr>sv_schema := default_product_schema, sv_config := cfg_shard config\<rparr>
      in map_option (\<lambda>sh. (sv, sh)) (shard_open sv connect wal_file segments_dir))"

definition suggest_mode_start :: "config \<Rightarrow> suggest_engine" where
  "suggest_mode_start config = sn_new (cfg_suggest_shard config)"

definition suggest_mode_tick :: "suggest_env \<Rightarrow> suggest_engine \<Rightarrow> suggest_engine" where
  "suggest_mode_tick sg e = snd (sn_flush sg e)"

text \<open>A shard and a router flush when they are shut down, whatever the outcome.\<close>

definition shard_shutdown :: "shard_env \<Rightarrow> shard \<Rightarrow> shard option" where
  "shard_shutdown sv sh = map_option snd (flush sv sh)"

definition router_shutdown :: "'s router \<Rightarrow> 's \<Rightarrow> 's option" where
  "router_shutdown ro w = map_option snd (router_flush ro w)"

text \<open>A router of plain endpoints has neither the cache nor the availability strategy of its
  configuration; nor has the one of a standalone server.\<close>

lemma legacy_router_plain:
  "rt_shards (cfg_router config) = [] \<Longrightarrow> router_of_config re libs parse_f64 stock config w = Some (ro, rs) \<Longrightarrow>
     rs_cache rs = None \<and> ro_availability ro = noop_strategy"
  "rs_cache (snd (standalone_router slibs base sg config sw)) = None"
  "ro_availability (fst (standalone_router slibs base sg config sw)) = noop_strategy"
  by (auto simp: router_of_config_def standalone_router_def router_new_simple_def router_new_def
      router_with_cache_def with_suggest_shards_def cache_build_def default_query_cache_config_def Let_def
      split: if_splits)

section \<open>Properties\<close>

lemma after_last_append: "c \<notin> set t \<Longrightarrow> after_last c (s @ c # t) = t"
proof -
  assume "c \<notin> set t"
  then have "takeWhile (\<lambda>x. x \<noteq> c) (rev t @ c # rev s) = rev t"
    by (subst takeWhile_append2) auto
  then show ?thesis by (simp add: after_last_def)
qed

lemma no_mark: "CHR ''{'' \<notin> set s \<Longrightarrow> replace_ordinal new (s @ t) = s @ replace_ordinal new t"
  by (induction s) (auto simp: ordinal_mark_def)

lemma replace_ordinal_once:
  assumes "CHR ''{'' \<notin> set s" "CHR ''{'' \<notin> set t"
  shows "replace_ordinal new (s @ ordinal_mark @ t) = s @ new @ t"
proof -
  have "replace_ordinal new (ordinal_mark @ t) = new @ replace_ordinal new t"
    by (simp add: ordinal_mark_def)
  moreover have "replace_ordinal new t = t" using no_mark [OF assms(2), of new "[]"] by simp
  ultimately show ?thesis using no_mark [OF assms(1)] by simp
qed

lemma resolve_replicas_fields:
  "sc_shard_id (resolve_replicas o1 sc) = sc_shard_id sc"
  "sc_primary_endpoint (resolve_replicas o1 sc) = sc_primary_endpoint sc"
  "sc_primary_endpoint_template (resolve_replicas o1 sc) = sc_primary_endpoint_template sc"
  "sc_replica_endpoints sc = [] \<Longrightarrow> sc_replica_endpoint_template sc = Some t \<Longrightarrow>
     sc_replica_endpoints (resolve_replicas o1 sc) = [replace_ordinal o1 t]"
  by (simp_all add: resolve_replicas_def split: option.split)

lemma resolve_primary_fields:
  "sc_shard_id (resolve_primary o1 sc) = sc_shard_id sc"
  "sc_replica_endpoints (resolve_primary o1 sc) = sc_replica_endpoints sc"
  "sc_primary_endpoint sc = None \<Longrightarrow> sc_primary_endpoint_template sc = Some t \<Longrightarrow>
     sc_primary_endpoint (resolve_primary o1 sc) = Some (replace_ordinal o1 t)"
  by (simp_all add: resolve_primary_def split: option.split)

text \<open>
  C38: the settings of a pod.  Mode, ports, number of shards, data directory and shard number never come
  from the configuration file: files that differ in them give the same settings.  A shard that is not
  given a number takes the number \<open>k\<close> at the end of the name of its host, and where the file has no
  endpoints but templates with the mark \<open>{ordinal}\<close>, the endpoints of the replica and of the primary
  are the templates with \<open>k\<close> in its place.
\<close>
theorem startup_settings:
  assumes "cli_config cli = Some path"
  shows "settings (\<lambda>_. Inr (file\<lparr>cfg_mode := m, cfg_shard := cfg_shard file\<lparr>sc_num_shards := n,
        sc_data_dir := dir, sc_grpc_port := gport, sc_shard_id := sid\<rparr>,
        cfg_router := cfg_router file\<lparr>rt_http_port := http\<rparr>\<rparr>)) hostname cli =
      settings (\<lambda>_. Inr file) hostname cli \<and>
    (cli_mode cli = ShardMode \<longrightarrow> cli_shard_id cli = 0 \<longrightarrow> k < 2 ^ 32 \<longrightarrow>
       hostname = Some (pod @ ''-'' @ show_nat k) \<longrightarrow>
       CHR ''{'' \<notin> set (a @ b) \<longrightarrow>
       (\<exists>config. settings (\<lambda>_. Inr file) hostname cli = Some config \<and>
         unat (sc_shard_id (cfg_shard config)) = k \<and>
         (sc_replica_endpoints (cfg_shard file) = [] \<longrightarrow>
           sc_replica_endpoint_template (cfg_shard file) = Some (a @ ordinal_mark @ b) \<longrightarrow>
           sc_replica_endpoints (cfg_shard config) = [a @ show_nat k @ b]) \<and>
         (sc_primary_endpoint (cfg_shard file) = None \<longrightarrow>
           sc_primary_endpoint_template (cfg_shard file) = Some (a @ ordinal_mark @ b) \<longrightarrow>
           sc_primary_endpoint (cfg_shard config) = Some (a @ show_nat k @ b))))"
proof (intro conjI impI)
  show "settings (\<lambda>_. Inr (file\<lparr>cfg_mode := m, cfg_shard := cfg_shard file\<lparr>sc_num_shards := n,
        sc_data_dir := dir, sc_grpc_port := gport, sc_shard_id := sid\<rparr>,
        cfg_router := cfg_router file\<lparr>rt_http_port := http\<rparr>\<rparr>)) hostname cli =
      settings (\<lambda>_. Inr file) hostname cli"
    using assms by (simp add: settings_def load_config_def apply_cli_def)
next
  assume shard: "cli_mode cli = ShardMode" "cli_shard_id cli = 0" and k: "k < 2 ^ 32"
    and host: "hostname = Some (pod @ ''-'' @ show_nat k)" and ab: "CHR ''{'' \<notin> set (a @ b)"
  have "CHR ''-'' \<notin> set (show_nat k)"
    using show_nat_digits [of "CHR ''-''" k] by (auto simp: dec_digit_def)
  then have "after_last (CHR ''-'') (pod @ ''-'' @ show_nat k) = show_nat k"
    using after_last_append [of "CHR ''-''" "show_nat k" pod] by simp
  then have "detect_shard_id hostname (apply_cli cli file) =
      (apply_cli cli file)\<lparr>cfg_shard := cfg_shard (apply_cli cli file)\<lparr>sc_shard_id := word_of_nat k\<rparr>\<rparr>"
    using shard host k by (simp add: detect_shard_id_def apply_cli_def parse_uint_show_nat)
  moreover have "unat (word_of_nat k :: u32) = k" using k by (simp add: unat_of_nat)
  moreover have "replace_ordinal (show_nat k) (a @ ordinal_mark @ b) = a @ show_nat k @ b"
    using ab by (intro replace_ordinal_once) auto
  ultimately show "\<exists>config. settings (\<lambda>_. Inr file) hostname cli = Some config \<and>
         unat (sc_shard_id (cfg_shard config)) = k \<and>
         (sc_replica_endpoints (cfg_shard file) = [] \<longrightarrow>
           sc_replica_endpoint_template (cfg_shard file) = Some (a @ ordinal_mark @ b) \<longrightarrow>
           sc_replica_endpoints (cfg_shard config) = [a @ show_nat k @ b]) \<and>
         (sc_primary_endpoint (cfg_shard file) = None \<longrightarrow>
           sc_primary_endpoint_template (cfg_shard file) = Some (a @ ordinal_mark @ b) \<longrightarrow>
           sc_primary_endpoint (cfg_shard config) = Some (a @ show_nat k @ b))"
    using assms shard
    by (simp add: settings_def load_config_def resolve_endpoints_def apply_cli_def resolve_primary_fields
        resolve_replicas_fields Let_def)
qed

text \<open>The second replica pod of the deployment.\<close>

theorem startup_settings_witness:
  "\<exists>config. settings (\<lambda>_. Inr (default_config\<lparr>cfg_shard := default_shard_config\<lparr>
       sc_primary_endpoint_template := Some ''http://shard-{ordinal}:9001''\<rparr>\<rparr>))
     (Some ''shard-replica-1'') (cli_defaults\<lparr>cli_mode := ShardMode, cli_config := Some ''c''\<rparr>) = Some config \<and>
   sc_shard_id (cfg_shard config) = 1 \<and>
   sc_primary_endpoint (cfg_shard config) = Some ''http://shard-1:9001''"
proof -
  let ?cli = "cli_defaults\<lparr>cli_mode := ShardMode, cli_config := Some ''c''\<rparr>"
  let ?file = "default_config\<lparr>cfg_shard := default_shard_config\<lparr>
       sc_primary_endpoint_template := Some ''http://shard-{ordinal}:9001''\<rparr>\<rparr>"
  have one: "show_nat 1 = ''1''" by (subst show_nat.simps) code_simp
  have "cli_config ?cli = Some ''c''" by simp
  from startup_settings [OF this, THEN conjunct2, rule_format, of 1 "Some ''shard-replica-1''" "''shard-replica''"
      "''http://shard-''" "'':9001''" ?file]
  obtain config where c: "settings (\<lambda>_. Inr ?file) (Some ''shard-replica-1'') ?cli = Some config"
    "unat (sc_shard_id (cfg_shard config)) = 1"
    "sc_primary_endpoint (cfg_shard config) = Some ''http://shard-1:9001''"
    unfolding one by (auto simp: cli_defaults_def ordinal_mark_def default_config_def default_shard_config_def)
  moreover have "sc_shard_id (cfg_shard config) = 1" using c(2) by (simp add: word_unat_eq_iff)
  ultimately show ?thesis by blast
qed

end
