(* ===== verification/Telemetry.thy ===== *)
theory Telemetry
  imports Config
begin

text \<open>
  The set-up of tracing (\<open>init_tracing\<close>, \<open>build_otel_tracer\<close> and \<open>shutdown_telemetry\<close> in
  \<open>crates/server/src/main.rs\<close>).  The tracing and OpenTelemetry libraries are arguments: installing an
  exporter gives a provider or fails, and a provider makes tracers.  The state is the global provider.
\<close>

datatype sampler = AlwaysOn | TraceIdRatioBased f64

record exporter_setup =
  ex_endpoint :: string
  ex_sampler :: sampler
  ex_service_name :: string

record ('p, 't) otel_libs =
  ot_install_batch :: "exporter_setup \<Rightarrow> string + 'p"
  ot_tracer :: "'p \<Rightarrow> string \<Rightarrow> 't"

datatype ('f, 't) tracing_layer = FilterLayer 'f | JsonLayer | OtelLayer 't

definition build_otel_tracer ::
  "('p, 't) otel_libs \<Rightarrow> telemetry_config \<Rightarrow> 'p option \<Rightarrow> 't option \<times> 'p option" where
  "build_otel_tracer libs config global =
     (let sampler = (if f64_le (f64_of_nat 1) (tel_sample_rate config) then AlwaysOn
                     else TraceIdRatioBased (tel_sample_rate config))
      in case ot_install_batch libs \<lparr>ex_endpoint = tel_otlp_endpoint config, ex_sampler = sampler,
               ex_service_name = tel_service_name config\<rparr> of
           Inl e \<Rightarrow> (None, global)
         | Inr provider \<Rightarrow> (Some (ot_tracer libs provider (tel_service_name config)), Some provider))"

text \<open>\<open>from_env\<close> is the filter of the environment, if it has a valid one, and \<open>info\<close> the filter of the
  text \<open>info\<close>.\<close>

definition init_tracing ::
  "('p, 't) otel_libs \<Rightarrow> string + 'f \<Rightarrow> 'f \<Rightarrow> telemetry_config \<Rightarrow> 'p option \<Rightarrow>
   ('f, 't) tracing_layer list \<times> 'p option" where
  "init_tracing libs from_env info config global =
     (let env_filter = (case from_env of Inl e \<Rightarrow> info | Inr f \<Rightarrow> f);
          plain = [FilterLayer env_filter, JsonLayer]
      in if tel_enabled config then
           case build_otel_tracer libs config global of
             (Some tracer, global) \<Rightarrow> (plain @ [OtelLayer tracer], global)
           | (None, global) \<Rightarrow> (plain, global)
         else (plain, global))"

definition shutdown_telemetry :: "'p option \<Rightarrow> 'p option" where
  "shutdown_telemetry global = None"

text \<open>Logging is always set up, with the filter first; spans are exported exactly when tracing is enabled
  and the exporter could be installed, and only then is there a global provider.\<close>

lemma tracing_layers:
  assumes "init_tracing libs from_env info config None = (layers, global)"
  shows "\<exists>f others. layers = FilterLayer f # JsonLayer # others"
    and "(\<exists>t. OtelLayer t \<in> set layers) \<longleftrightarrow> global \<noteq> None"
    and "global \<noteq> None \<Longrightarrow> tel_enabled config"
  using assms by (auto simp: init_tracing_def build_otel_tracer_def Let_def split: if_splits sum.splits)

lemma default_tracing:
  "tel_enabled default_telemetry_config = False"
  "init_tracing libs from_env info default_telemetry_config global =
     ([FilterLayer (case from_env of Inl e \<Rightarrow> info | Inr f \<Rightarrow> f), JsonLayer], global)"
  by (simp_all add: default_telemetry_config_def init_tracing_def)

text \<open>With the default rate every trace is sampled.\<close>

lemma default_sampler: "f64_le (f64_of_nat 1) (tel_sample_rate default_telemetry_config)"
  by (simp add: default_telemetry_config_def default_sample_rate_def f64_of_nat_def f64_le_key)
    (simp add: f64_eval)

end
