(* ===== verification/Cluster.thy ===== *)
theory Cluster
  imports Startup RouterWorld Durability
begin

text \<open>
  A standalone server (\<open>crates/server/src/main.rs\<close>, mode \<open>standalone\<close>): the router with its shards in
  the same process.  A run is any sequence of requests, background work and restarts; the documents
  that the whole server holds are those of the acknowledged writes.
\<close>

section \<open>Shards of the world\<close>

text \<open>A call that acts on one shard, in the way \<open>Q\<close> says, and on no other.\<close>

definition acts_on ::
  "nat \<Rightarrow> (shard \<Rightarrow> shard \<Rightarrow> bool) \<Rightarrow> ('n standalone \<Rightarrow> ('r \<times> 'n standalone) option) \<Rightarrow> bool" where
  "acts_on i Q f \<longleftrightarrow> (\<forall>w r w'. f w = Some (r, w') \<longrightarrow>
     (\<exists>sh'. Q (sd_shards w i) sh' \<and> sd_shards w' = (sd_shards w)(i := sh')))"

lemma acts_onD:
  "acts_on i Q f \<Longrightarrow> f w = Some (r, w') \<Longrightarrow>
     Q (sd_shards w i) (sd_shards w' i) \<and> (\<forall>k. k \<noteq> i \<longrightarrow> sd_shards w' k = sd_shards w k)"
  unfolding acts_on_def by fastforce

lemma acts_on_zoom:
  assumes "\<And>sh r sh'. m sh = Some (r, sh') \<Longrightarrow> Q sh sh'"
  shows "acts_on i Q (op_zoom (shard_at i) (upd_shard i) m)"
  using assms by (auto simp: acts_on_def op_zoom_def shard_at_def upd_shard_def split: option.splits)

lemma acts_on_bind:
  assumes "acts_on i Q m" "\<And>x w r w'. f x w = Some (r, w') \<Longrightarrow> w' = w"
  shows "acts_on i Q (op_bind m f)"
  unfolding acts_on_def
proof (intro allI impI)
  fix w r w'
  assume "op_bind m f w = Some (r, w')"
  then obtain r1 where "m w = Some (r1, w')"
    using assms(2) by (auto simp: op_bind_def split: option.splits sum.splits) metis+
  then show "\<exists>sh'. Q (sd_shards w i) sh' \<and> sd_shards w' = (sd_shards w)(i := sh')"
    using assms(1) unfolding acts_on_def by blast
qed

text \<open>Joined calls on different shards act on each of them.\<close>

lemma join_calls_act:
  assumes "\<And>x. x \<in> set xs \<Longrightarrow> acts_on (idx x) (Q x) (f x)" "distinct (map idx xs)"
    and "join_calls f xs w = Some (rs, w')"
  shows "(\<forall>x \<in> set xs. Q x (sd_shards w (idx x)) (sd_shards w' (idx x))) \<and>
    (\<forall>k. k \<notin> idx ` set xs \<longrightarrow> sd_shards w' k = sd_shards w k)"
  using assms
proof (induction xs arbitrary: w rs)
  case (Cons x xs)
  obtain r w1 rs1 where run: "f x w = Some (r, w1)" "join_calls f xs w1 = Some (rs1, w')"
    using Cons.prems(3) by (auto split: option.splits)
  have x: "Q x (sd_shards w (idx x)) (sd_shards w1 (idx x))" "\<And>k. k \<noteq> idx x \<Longrightarrow> sd_shards w1 k = sd_shards w k"
    using acts_onD [OF Cons.prems(1) run(1)] by auto
  have rest: "\<forall>y \<in> set xs. Q y (sd_shards w1 (idx y)) (sd_shards w' (idx y))"
    "\<And>k. k \<notin> idx ` set xs \<Longrightarrow> sd_shards w' k = sd_shards w1 k"
    using Cons.IH [OF _ _ run(2)] Cons.prems(1,2) by auto
  have "idx x \<notin> idx ` set xs" using Cons.prems(2) by simp
  moreover have "idx y \<noteq> idx x" if "y \<in> set xs" for y using Cons.prems(2) that by (auto simp: rev_image_eqI)
  ultimately show ?case using x rest by (auto simp: rest(2))
qed simp

lemma join_calls_map: "join_calls f (map g xs) w = join_calls (\<lambda>x. f (g x)) xs w"
  by (induction xs arbitrary: w) (auto split: option.splits)

section \<open>The standalone router\<close>

definition shard_count :: "config \<Rightarrow> nat" where
  "shard_count config = unat (sc_num_shards (cfg_shard config))"

definition shard_env_of :: "shard_env \<Rightarrow> config \<Rightarrow> nat \<Rightarrow> shard_env" where
  "shard_env_of base config i = standalone_env base (cfg_shard config) i"

definition standalone_client :: "shard_env \<Rightarrow> config \<Rightarrow> nat \<Rightarrow> 'n standalone shard_client" where
  "standalone_client base config i = local_shard_client (shard_env_of base config i) (shard_at i) (upd_shard i)"

lemma standalone_router_fields:
  "ro_shards (fst (standalone_router libs base sg config w)) =
     map (\<lambda>i. primary_only (standalone_client base config i)) [0..<shard_count config]"
  "ro_ranker (fst (standalone_router libs base sg config w)) = ranker_or_noop libs (cfg_ranker config)"
  "ro_availability (fst (standalone_router libs base sg config w)) = noop_strategy"
  "ro_suggest_shards (fst (standalone_router libs base sg config w)) =
     map (\<lambda>i. local_suggest_client sg (engine_at i) (upd_engine i))
       [0..<unat (ss_num_suggest_shards (cfg_suggest_shard config))]"
  "rs_world (snd (standalone_router libs base sg config w)) = w"
  by (simp_all add: standalone_router_def Let_def router_new_simple_def router_new_def router_with_cache_def
      with_suggest_shards_def shard_count_def standalone_client_def shard_env_of_def comp_def)

text \<open>The number of the shard that has an id.\<close>

definition home :: "config \<Rightarrow> u64 \<Rightarrow> nat" where
  "home config i = unat (jump_consistent_hash i (sc_num_shards (cfg_shard config)))"

definition entry_id :: "wal_entry \<Rightarrow> u64" where
  "entry_id e = (case e of Index doc \<Rightarrow> d_id doc | Delete i \<Rightarrow> i)"

definition own_entries :: "config \<Rightarrow> nat \<Rightarrow> wal_entry list \<Rightarrow> wal_entry list" where
  "own_entries config i h = filter (\<lambda>e. home config (entry_id e) = i) h"

lemma own_entries_simps [simp]:
  "own_entries config i [] = []"
  "own_entries config i (h @ h') = own_entries config i h @ own_entries config i h'"
  "own_entries config i [Index doc] = (if home config (d_id doc) = i then [Index doc] else [])"
  "own_entries config i [Delete k] = (if home config k = i then [Delete k] else [])"
  "own_entries config i (map Index docs) = map Index (filter (\<lambda>d. home config (d_id d) = i) docs)"
  by (simp_all add: own_entries_def entry_id_def filter_map comp_def)

lemma own_entries_docs:
  "set (indexed_docs (own_entries config i h)) = {d \<in> set (indexed_docs h). home config (d_id d) = i}"
  "deleted_ids (own_entries config i h) = {k \<in> deleted_ids h. home config k = i}"
proof (induction h)
  case (Cons e h)
  {
    case 1
    then show ?case using Cons by (cases e) (auto simp: own_entries_def entry_id_def)
  next
    case 2
    then show ?case using Cons by (cases e) (auto simp: own_entries_def entry_id_def)
  }
qed (auto simp: own_entries_def)

text \<open>A router over the shards of the server, as \<open>standalone_router\<close> makes it.\<close>

definition standalone_ok ::
  "('n standalone, 'm) ranker_libs \<Rightarrow> shard_env \<Rightarrow> suggest_env \<Rightarrow> config \<Rightarrow> 'n standalone router \<Rightarrow> bool" where
  "standalone_ok libs base sg config ro \<longleftrightarrow>
     ro_shards ro = map (\<lambda>i. primary_only (standalone_client base config i)) [0..<shard_count config] \<and>
     ro_ranker ro = ranker_or_noop libs (cfg_ranker config) \<and> ro_availability ro = noop_strategy \<and>
     ro_suggest_shards ro = map (\<lambda>i. local_suggest_client sg (engine_at i) (upd_engine i))
       [0..<unat (ss_num_suggest_shards (cfg_suggest_shard config))]"

lemma standalone_router_ok: "standalone_ok libs base sg config (fst (standalone_router libs base sg config w))"
  by (simp add: standalone_ok_def standalone_router_fields)

lemma standalone_okD:
  assumes "standalone_ok libs base sg config ro"
  shows "length (ro_shards ro) = shard_count config" "shard_for ro i = home config i"
    and "k < shard_count config \<Longrightarrow> ro_shards ro ! k = primary_only (standalone_client base config k)"
  using assms by (simp_all add: standalone_ok_def shard_for_def home_def shard_count_def)

section \<open>Runs\<close>

text \<open>The libraries and the disks can take the entries, each shard those that are its own.\<close>

definition server_room :: "shard_env \<Rightarrow> config \<Rightarrow> 'n standalone \<Rightarrow> wal_entry list \<Rightarrow> bool" where
  "server_room base config w entries \<longleftrightarrow> (\<forall>i < shard_count config.
     shard_room (shard_env_of base config i) (sd_shards w i) (indexed_docs (own_entries config i entries)) \<and>
     wal_room (shard_env_of base config i) (own_entries config i entries))"

text \<open>What is on the disks.\<close>

definition files_of :: "'n standalone \<Rightarrow> nat \<Rightarrow> bytes \<times> (string \<rightharpoonup> dir)" where
  "files_of w i = (wl_file (sh_wal (sd_shards w i)), sl_disk (sh_segments (sd_shards w i)))"

text \<open>
  A run of the server: the entries of the writes that were sent to the shards, in order, and the state
  it reaches.  A restart opens every shard from its files and makes a new router.
\<close>

inductive server_run ::
  "('n standalone, 'm) ranker_libs \<Rightarrow> shard_env \<Rightarrow> (string \<Rightarrow> primary) \<Rightarrow> suggest_env \<Rightarrow> config \<Rightarrow>
   'n standalone router_env \<Rightarrow> 'n standalone router \<Rightarrow> wal_entry list \<Rightarrow> 'n standalone rstate \<Rightarrow> bool"
  for libs base connect sg config env where
  server_new: "standalone_start base connect config (\<lambda>i. ([], Map.empty)) w0 = Some w \<Longrightarrow>
    standalone_router libs base sg config w = (ro, rs) \<Longrightarrow>
    server_run libs base connect sg config env ro [] rs"
| server_index: "server_run libs base connect sg config env ro h rs \<Longrightarrow>
    server_room base config (rs_world rs) [Index doc] \<Longrightarrow>
    on_world (router_index env ro doc) rs = Some (r, rs') \<Longrightarrow>
    server_run libs base connect sg config env ro (h @ [Index doc]) rs'"
| server_bulk: "server_run libs base connect sg config env ro h rs \<Longrightarrow>
    server_room base config (rs_world rs) (map Index docs) \<Longrightarrow>
    on_world (router_bulk_index env ro docs) rs = Some (r1, rs') \<Longrightarrow>
    server_run libs base connect sg config env ro (h @ map Index docs) rs'"
| server_delete: "server_run libs base connect sg config env ro h rs \<Longrightarrow>
    server_room base config (rs_world rs) [Delete i] \<Longrightarrow>
    on_world (router_delete ro i) rs = Some (r, rs') \<Longrightarrow>
    server_run libs base connect sg config env ro (h @ [Delete i]) rs'"
| server_flush: "server_run libs base connect sg config env ro h rs \<Longrightarrow>
    server_room base config (rs_world rs) [] \<Longrightarrow> on_world (router_flush ro) rs = Some (r, rs') \<Longrightarrow>
    server_run libs base connect sg config env ro h rs'"
| server_reindex: "server_run libs base connect sg config env ro h rs \<Longrightarrow>
    server_room base config (rs_world rs) [] \<Longrightarrow> on_world (router_reindex ro) rs = Some (r2, rs') \<Longrightarrow>
    server_run libs base connect sg config env ro h rs'"
| server_search: "server_run libs base connect sg config env ro h rs \<Longrightarrow>
    server_room base config (rs_world rs) [] \<Longrightarrow> router_search env ro request rs = Some (r3, rs') \<Longrightarrow>
    server_run libs base connect sg config env ro h rs'"
| server_suggest: "server_run libs base connect sg config env ro h rs \<Longrightarrow>
    on_world (router_suggest env ro pre field limit) rs = Some (r4, rs') \<Longrightarrow>
    server_run libs base connect sg config env ro h rs'"
| server_tick: "server_run libs base connect sg config env ro h rs \<Longrightarrow>
    server_run libs base connect sg config env ro h (rs_world_update (suggest_tick sg config) rs)"
| server_restart: "server_run libs base connect sg config env ro h rs \<Longrightarrow>
    server_room base config (rs_world rs) [] \<Longrightarrow>
    standalone_start base connect config (files_of (rs_world rs)) w0 = Some w \<Longrightarrow>
    standalone_router libs base sg config w = (ro', rs') \<Longrightarrow>
    server_run libs base connect sg config env ro' h rs'"

section \<open>What the steps do to the shards\<close>

text \<open>A call that is abandoned, and the ranker, leave the shards alone.\<close>

definition outside_ok ::
  "('n standalone, 'm) ranker_libs \<Rightarrow> config \<Rightarrow> 'n standalone router_env \<Rightarrow> bool" where
  "outside_ok libs config env \<longleftrightarrow>
     (\<forall>ms w w'. rv_deadline env ms w = Some w' \<longrightarrow> sd_shards w' = sd_shards w) \<and>
     (\<forall>q cs S. op_keeps (\<lambda>w. sd_shards w = S) (ranker_or_noop libs (cfg_ranker config) q cs))"

lemma deadline_shards: "outside_ok libs config env \<Longrightarrow> rv_deadline env ms w = Some w' \<Longrightarrow> sd_shards w' = sd_shards w"
  unfolding outside_ok_def by blast

lemma engine_shards [simp]: "sd_shards (upd_engine i f w) = sd_shards w"
  by (simp add: upd_engine_def)

lemma fan_out_shards:
  assumes ro: "standalone_ok libs base sg config ro" and out: "outside_ok libs config env"
    and run: "fan_out_suggest_write env ro docs w = Some (r, w')"
  shows "r = Inr () \<and> sd_shards w' = sd_shards w"
proof (cases "length (ro_suggest_shards ro) = 0 \<or> docs = []")
  case True
  then show ?thesis using run by (auto simp: fan_out_suggest_write_def)
next
  case False
  then obtain parts rs where tasks: "join_calls (send_suggest env ro)
      (filter (\<lambda>(client, batch). batch \<noteq> []) (zip (ro_suggest_shards ro) parts)) w = Some (rs, w')"
    and r: "r = Inr ()"
    using run by (auto simp: fan_out_suggest_write_def Let_def split: option.splits)
  let ?tasks = "filter (\<lambda>(client, batch). batch \<noteq> []) (zip (ro_suggest_shards ro) parts)"
  have "sd_shards s' = sd_shards w" if task: "task \<in> set ?tasks" "sd_shards s = sd_shards w"
      "send_suggest env ro task s = Some (r', s')" for task s r' s'
  proof -
    obtain client batch where t: "task = (client, batch)" by (cases task)
    have "client \<in> set (ro_suggest_shards ro)" using task(1) t by (auto dest: set_zip_leftD)
    then obtain i where "client = local_suggest_client sg (engine_at i) (upd_engine i)"
      using ro by (auto simp: standalone_ok_def)
    then have "op_keeps (\<lambda>w1. sd_shards w1 = sd_shards w) (c_bulk client batch)"
      by (auto simp: local_suggest_client_def intro!: op_keeps_bind op_keeps_basic op_keeps_modify)
    from with_timeout_keeps [OF this, of "rv_deadline env" "ro_suggest_write_timeout ro" s] show ?thesis
      using task(2,3) t deadline_shards [OF out] by (auto simp: send_suggest_def)
  qed
  from join_calls_keeps [OF _ tasks, of "\<lambda>s. sd_shards s = sd_shards w" "\<lambda>_ _. True"] this show ?thesis
    using r by blast
qed

lemma bind_fan_out:
  assumes "standalone_ok libs base sg config ro" "outside_ok libs config env"
    and "op_bind (fan_out_suggest_write env ro docs) (\<lambda>_. m) w = Some (r, w')"
  obtains w1 where "sd_shards w1 = sd_shards w" "m w1 = Some (r, w')"
proof (cases "fan_out_suggest_write env ro docs w")
  case None
  then show ?thesis using assms(3) by (simp add: op_bind_def)
next
  case (Some out)
  obtain r1 w1 where out: "out = (r1, w1)" by (cases out)
  have f: "r1 = Inr () \<and> sd_shards w1 = sd_shards w" using fan_out_shards [OF assms(1,2)] Some out by blast
  then have "m w1 = Some (r, w')" using assms(3) Some out by (simp add: op_bind_def)
  then show ?thesis using that f by blast
qed

lemma writer_client:
  assumes ro: "standalone_ok libs base sg config ro" and "writer ro i = Some client"
  shows "home config i < shard_count config" "client = standalone_client base config (home config i)"
  using assms(2) standalone_okD [OF ro]
  by (auto simp: writer_def write_target_def primary_only_def split: if_splits)

lemma standalone_client_acts:
  "acts_on i (\<lambda>sh sh'. \<exists>r. shard_index (shard_env_of base config i) doc sh = Some (r, sh'))
     (c_index (standalone_client base config i) doc)"
  "acts_on i (\<lambda>sh sh'. \<exists>r. shard_index_batch (shard_env_of base config i) docs sh = Some (r, sh'))
     (c_bulk (standalone_client base config i) docs)"
  "acts_on i (\<lambda>sh sh'. \<exists>r. shard_delete (shard_env_of base config i) k sh = Some (r, sh'))
     (c_delete (standalone_client base config i) k)"
  "acts_on i (\<lambda>sh sh'. \<exists>r. flush (shard_env_of base config i) sh = Some (r, sh'))
     (c_flush (standalone_client base config i))"
  "acts_on i (\<lambda>sh sh'. \<exists>r. reindex_self (shard_env_of base config i) sh = Some (r, sh'))
     (c_reindex (standalone_client base config i))"
  by (auto simp: standalone_client_def local_shard_client_def intro!: acts_on_zoom acts_on_bind)

lemma index_shards:
  assumes ro: "standalone_ok libs base sg config ro" and out: "outside_ok libs config env"
    and run: "router_index env ro doc w = Some (r, w')"
  defines "j \<equiv> home config (d_id doc)"
  shows "j < shard_count config" "\<exists>r. shard_index (shard_env_of base config j) doc (sd_shards w j) = Some (r, sd_shards w' j)"
    and "k \<noteq> j \<Longrightarrow> sd_shards w' k = sd_shards w k"
proof -
  obtain w1 where w1: "sd_shards w1 = sd_shards w" "op_bind (op_option (writer ro (d_id doc))) (\<lambda>client. c_index client doc) w1 = Some (r, w')"
    using bind_fan_out [OF ro out run [unfolded router_index_def]] by blast
  then obtain client where c: "writer ro (d_id doc) = Some client" "c_index client doc w1 = Some (r, w')"
    by (cases "writer ro (d_id doc)") auto
  note client = writer_client [OF ro c(1)]
  show "j < shard_count config" using client(1) by (simp add: j_def)
  from acts_onD [OF standalone_client_acts(1)] c(2) client(2)
  show "\<exists>r. shard_index (shard_env_of base config j) doc (sd_shards w j) = Some (r, sd_shards w' j)"
    "k \<noteq> j \<Longrightarrow> sd_shards w' k = sd_shards w k"
    by (fastforce simp: j_def w1(1) [symmetric])+
qed

lemma delete_shards:
  assumes ro: "standalone_ok libs base sg config ro" and run: "router_delete ro i w = Some (r, w')"
  defines "j \<equiv> home config i"
  shows "j < shard_count config" "\<exists>r. shard_delete (shard_env_of base config j) i (sd_shards w j) = Some (r, sd_shards w' j)"
    and "k \<noteq> j \<Longrightarrow> sd_shards w' k = sd_shards w k"
proof -
  obtain client where c: "writer ro i = Some client" "c_delete client i w = Some (r, w')"
    using run by (cases "writer ro i") (auto simp: router_delete_def)
  note client = writer_client [OF ro c(1)]
  show "j < shard_count config" using client(1) by (simp add: j_def)
  from acts_onD [OF standalone_client_acts(3)] c(2) client(2)
  show "\<exists>r. shard_delete (shard_env_of base config j) i (sd_shards w j) = Some (r, sd_shards w' j)"
    "k \<noteq> j \<Longrightarrow> sd_shards w' k = sd_shards w k"
    by (fastforce simp: j_def)+
qed

text \<open>Calls that go to every shard.\<close>

lemma all_shards:
  assumes ro: "standalone_ok libs base sg config ro"
    and acts: "\<And>i. acts_on i (Q i) (m (standalone_client base config i))"
    and run: "join_calls (\<lambda>grp. m (write_target grp)) (ro_shards ro) w = Some (rs, w')"
    and i: "i < shard_count config"
  shows "Q i (sd_shards w i) (sd_shards w' i)"
proof -
  have "join_calls (\<lambda>i. m (standalone_client base config i)) [0..<shard_count config] w = Some (rs, w')"
    using run ro by (simp add: standalone_ok_def join_calls_map write_target_def primary_only_def)
  from join_calls_act [of _ "\<lambda>i. i", OF acts _ this] i show ?thesis by simp
qed

lemma bulk_shards:
  assumes ro: "standalone_ok libs base sg config ro" and out: "outside_ok libs config env"
    and run: "router_bulk_index env ro docs w = Some (r, w')" and i: "i < shard_count config"
  defines "batch \<equiv> filter (\<lambda>d. home config (d_id d) = i) docs"
  shows "if batch = [] then sd_shards w' i = sd_shards w i
    else \<exists>r. shard_index_batch (shard_env_of base config i) batch (sd_shards w i) = Some (r, sd_shards w' i)"
proof -
  let ?n = "shard_count config" and ?own = "\<lambda>k. filter (\<lambda>d. home config (d_id d) = k) docs"
  let ?ks = "filter (\<lambda>k. ?own k \<noteq> []) [0..<?n]"
  obtain w1 where w1: "sd_shards w1 = sd_shards w" "op_bind (op_option (bulk_tasks ro docs)) (\<lambda>tasks.
      op_bind (join_all (\<lambda>(client, batch). c_bulk client batch) tasks) (\<lambda>totals. op_return (sum_list totals))) w1 =
      Some (r, w')"
    using bind_fan_out [OF ro out run [unfolded router_bulk_index_def]] by blast
  then obtain tasks where tasks: "bulk_tasks ro docs = Some tasks" by (cases "bulk_tasks ro docs") auto
  have "tasks = map (\<lambda>k. (standalone_client base config k, ?own k)) ?ks"
  proof -
    have "map write_target (ro_shards ro) = map (standalone_client base config) [0..<?n]"
      using ro by (simp add: standalone_ok_def write_target_def primary_only_def comp_def)
    moreover have "shard_for ro = home config" using standalone_okD(2) [OF ro] by (rule ext)
    ultimately have "tasks = filter (\<lambda>(client, batch). batch \<noteq> [])
        (zip (map (standalone_client base config) [0..<?n]) (map ?own [0..<?n]))"
      using tasks standalone_okD(1) [OF ro] by (auto simp: bulk_tasks_def partition_by_def split: if_splits)
    then show ?thesis by (simp add: zip_map_map zip_same_conv_map filter_map comp_def)
  qed
  then obtain rs where run': "join_calls (\<lambda>k. c_bulk (standalone_client base config k) (?own k)) ?ks w1 = Some (rs, w')"
    using w1(2) tasks
    by (auto simp: join_all_def op_bind_def join_calls_map split: option.splits sum.splits)
  from join_calls_act [of _ "\<lambda>k. k", OF standalone_client_acts(2) _ run']
  have act: "\<forall>k \<in> set ?ks. \<exists>r. shard_index_batch (shard_env_of base config k) (?own k) (sd_shards w1 k) = Some (r, sd_shards w' k)"
    "\<forall>k. k \<notin> set ?ks \<longrightarrow> sd_shards w' k = sd_shards w1 k" by auto
  show ?thesis
  proof (cases "batch = []")
    case True
    then have "i \<notin> set ?ks" by (simp add: batch_def)
    then show ?thesis using True act(2) w1(1) by simp
  next
    case False
    then have "i \<in> set ?ks" using i by (simp add: batch_def)
    then show ?thesis using False act(1) w1(1) by (auto simp: batch_def)
  qed
qed

section \<open>The invariant of a run\<close>

text \<open>Every shard has gone through a run of its own, with the entries that are its own.\<close>

definition server_ok ::
  "shard_env \<Rightarrow> (string \<Rightarrow> primary) \<Rightarrow> config \<Rightarrow> wal_entry list \<Rightarrow> 'n standalone \<Rightarrow> bool" where
  "server_ok base connect config h w \<longleftrightarrow> (\<forall>i < shard_count config.
     shard_run (shard_env_of base config i) connect (own_entries config i h) (sd_shards w i))"

lemma server_okD:
  "server_ok base connect config h w \<Longrightarrow> i < shard_count config \<Longrightarrow>
     shard_run (shard_env_of base config i) connect (own_entries config i h) (sd_shards w i)"
  by (simp add: server_ok_def)

lemma server_ok_cong: "sd_shards w' = sd_shards w \<Longrightarrow> server_ok base connect config h w' = server_ok base connect config h w"
  by (simp add: server_ok_def)

lemma on_world_run: "on_world m rs = Some (r, rs') \<Longrightarrow> m (rs_world rs) = Some (r, rs_world rs')"
  by (auto simp: op_zoom_def split: option.splits)

lemma shard_room_fewer: "shard_room sv sh docs \<Longrightarrow> shard_room sv sh []"
  by (auto simp: shard_room_def elim: docs_room_mono)

text \<open>One shard goes a step, the others stay.\<close>

lemma server_step:
  assumes ok: "server_ok base connect config h w"
    and others: "\<And>i. i \<noteq> j \<Longrightarrow> sd_shards w' i = sd_shards w i \<and> own_entries config i es = []"
    and step: "shard_run (shard_env_of base config j) connect (own_entries config j h) (sd_shards w j) \<Longrightarrow>
      shard_run (shard_env_of base config j) connect (own_entries config j (h @ es)) (sd_shards w' j)"
  shows "server_ok base connect config (h @ es) w'"
  unfolding server_ok_def
proof (intro allI impI)
  fix i assume "i < shard_count config"
  then show "shard_run (shard_env_of base config i) connect (own_entries config i (h @ es)) (sd_shards w' i)"
    using step others [of i] server_okD [OF ok, of i] by (cases "i = j") auto
qed

lemma open_shards_run:
  assumes "open_shards envs connect files ks S = Some S'" "distinct ks"
  shows "(\<forall>k \<in> set ks. shard_open (envs k) connect (fst (files k)) (snd (files k)) = Some (S' k)) \<and>
    (\<forall>k. k \<notin> set ks \<longrightarrow> S' k = S k)"
  using assms
proof (induction ks arbitrary: S)
  case (Cons k ks)
  obtain sh where sh: "shard_open (envs k) connect (fst (files k)) (snd (files k)) = Some sh"
    "open_shards envs connect files ks (S(k := sh)) = Some S'"
    using Cons.prems(1) by (auto split: option.splits)
  then show ?case using Cons.IH [OF sh(2)] Cons.prems(2) by auto
qed simp

lemma standalone_start_run:
  assumes "standalone_start base connect config files w0 = Some w" "i < shard_count config"
  shows "shard_open (shard_env_of base config i) connect (fst (files i)) (snd (files i)) = Some (sd_shards w i)"
  using assms open_shards_run [of "standalone_env base (cfg_shard config)" connect files "[0..<shard_count config]"]
  by (auto simp: standalone_start_def shard_env_of_def shard_count_def)

text \<open>What is read stays a run of every shard, and leaves the room it had.\<close>

definition server_readable ::
  "shard_env \<Rightarrow> (string \<Rightarrow> primary) \<Rightarrow> config \<Rightarrow> wal_entry list \<Rightarrow> 'n standalone \<Rightarrow> bool" where
  "server_readable base connect config h w \<longleftrightarrow> server_ok base connect config h w \<and> server_room base config w []"

lemma server_room_one:
  "server_room base config w [] \<Longrightarrow> i < shard_count config \<Longrightarrow> shard_room (shard_env_of base config i) (sd_shards w i) []"
  by (simp add: server_room_def)

lemma search_keeps_readable:
  assumes i: "i < shard_count config"
  shows "op_keeps (server_readable base connect config h) (c_search (standalone_client base config i) req)"
  unfolding op_keeps_def
proof (intro allI impI)
  fix w r w'
  assume ok: "server_readable base connect config h w"
    and run: "c_search (standalone_client base config i) req w = Some (r, w')"
  have "acts_on i (\<lambda>sh sh'. \<exists>r. shard_search (shard_env_of base config i) req sh = Some (r, sh'))
      (c_search (standalone_client base config i) req)"
    by (auto simp: standalone_client_def local_shard_client_def intro!: acts_on_bind acts_on_zoom)
  from acts_onD [OF this run] obtain r1 where
    search: "shard_search (shard_env_of base config i) req (sd_shards w i) = Some (r1, sd_shards w' i)"
    and others: "\<forall>k. k \<noteq> i \<longrightarrow> sd_shards w' k = sd_shards w k" by blast
  have "server_ok base connect config h w" and room: "server_room base config w []"
    using ok by (simp_all add: server_readable_def)
  then have "server_ok base connect config (h @ []) w'"
    using search others server_room_one [OF room i] by (intro server_step [of _ _ _ _ w i]) (auto intro: run_search)
  moreover have "server_room base config w' []"
    unfolding server_room_def
  proof (intro allI impI)
    fix k assume "k < shard_count config"
    then show "shard_room (shard_env_of base config k) (sd_shards w' k) (indexed_docs (own_entries config k [])) \<and>
        wal_room (shard_env_of base config k) (own_entries config k [])"
      using server_room_one [OF room, of k] shard_search_room [OF search, of "[]"] others
      by (cases "k = i") (simp_all add: wal_room_def)
  qed
  ultimately show "server_readable base connect config h w'" by (simp add: server_readable_def)
qed

lemma server_readable_cong:
  "sd_shards w' = sd_shards w \<Longrightarrow> server_readable base connect config h w' = server_readable base connect config h w"
  by (simp add: server_readable_def server_ok_def server_room_def)

lemma reads_keep_server_ok:
  assumes ro: "standalone_ok libs base sg config ro" and out: "outside_ok libs config env"
  shows "reads_keep (server_readable base connect config h) env ro"
proof -
  have docs: "op_keeps (server_readable base connect config h) (c_get_docs (standalone_client base config i) ids)" for i ids
    by (simp add: standalone_client_def local_shard_client_def shard_cell.zoom_get op_keeps_basic)
  have "op_keeps (server_readable base connect config h) (ro_ranker ro q cs)" for q cs
    using ro out server_readable_cong unfolding outside_ok_def op_keeps_def standalone_ok_def by metis
  moreover have "rv_deadline env ms w = Some w' \<Longrightarrow> server_readable base connect config h w \<Longrightarrow>
      server_readable base connect config h w'" for ms w w'
    using deadline_shards [OF out] server_readable_cong by blast
  ultimately show ?thesis
    using ro search_keeps_readable docs
    by (auto simp: reads_keep_def standalone_ok_def primary_only_def endpoints_def noop_strategy_def)
qed

lemma suggest_shards:
  assumes ro: "standalone_ok libs base sg config ro" and out: "outside_ok libs config env"
    and run: "router_suggest env ro pre field limit w = Some (r, w')"
  shows "sd_shards w' = sd_shards w"
proof (cases "ro_suggest_shards ro = [] \<or> pre = [] \<or> limit = 0")
  case True
  then show ?thesis using run by (auto simp: router_suggest_def)
next
  case False
  then obtain rs where calls: "join_calls (\<lambda>client. with_timeout (rv_deadline env) (ro_suggest_query_timeout ro)
      (c_suggest client pre field limit)) (ro_suggest_shards ro) w = Some (rs, w')"
    using run by (auto simp: router_suggest_def)
  have "sd_shards s' = sd_shards w" if c: "client \<in> set (ro_suggest_shards ro)" "sd_shards s = sd_shards w"
      "with_timeout (rv_deadline env) (ro_suggest_query_timeout ro) (c_suggest client pre field limit) s = Some (r', s')"
    for client s r' s'
  proof -
    obtain i where "client = local_suggest_client sg (engine_at i) (upd_engine i)"
      using ro c(1) by (auto simp: standalone_ok_def)
    then have "op_keeps (\<lambda>w1. sd_shards w1 = sd_shards w) (c_suggest client pre field limit)"
      by (simp add: local_suggest_client_def op_keeps_basic)
    from with_timeout_keeps [OF this _ c(2,3)] show ?thesis using c(2) deadline_shards [OF out] by metis
  qed
  from join_calls_keeps [OF _ calls, of "\<lambda>s. sd_shards s = sd_shards w" "\<lambda>_ _. True"] this show ?thesis by blast
qed

lemma tick_shards: "sd_shards (suggest_tick sg config w) = sd_shards w"
proof -
  have "sd_shards (flush_engines sg ks w) = sd_shards w" for ks
    by (induction sg ks w rule: flush_engines.induct) simp_all
  then show ?thesis by (simp add: suggest_tick_def)
qed

lemma join_all_calls: "join_all f xs w = Some (r, w') \<Longrightarrow> \<exists>rs. join_calls f xs w = Some (rs, w')"
  by (auto simp: join_all_def)

lemma op_bind_return_run: "op_bind m (\<lambda>x. op_return (f x)) w = Some (r, w') \<Longrightarrow> \<exists>r1. m w = Some (r1, w')"
  by (auto simp: op_bind_def split: option.splits sum.splits)

lemma server_steps:
  assumes ro: "standalone_ok libs base sg config ro" and out: "outside_ok libs config env"
    and ok: "server_ok base connect config h w"
  shows "server_room base config w [Index doc] \<Longrightarrow> router_index env ro doc w = Some (r, w') \<Longrightarrow>
      server_ok base connect config (h @ [Index doc]) w'"
    and "server_room base config w (map Index docs) \<Longrightarrow> router_bulk_index env ro docs w = Some (r1, w') \<Longrightarrow>
      server_ok base connect config (h @ map Index docs) w'"
    and "server_room base config w [Delete i] \<Longrightarrow> router_delete ro i w = Some (r, w') \<Longrightarrow>
      server_ok base connect config (h @ [Delete i]) w'"
    and "server_room base config w [] \<Longrightarrow> router_flush ro w = Some (r, w') \<Longrightarrow> server_ok base connect config h w'"
    and "server_room base config w [] \<Longrightarrow> router_reindex ro w = Some (r2, w') \<Longrightarrow> server_ok base connect config h w'"
proof -
  assume room: "server_room base config w [Index doc]" and run: "router_index env ro doc w = Some (r, w')"
  note sh = index_shards [OF ro out run]
  have "shard_room (shard_env_of base config (home config (d_id doc))) (sd_shards w (home config (d_id doc))) [doc]"
    "wal_room (shard_env_of base config (home config (d_id doc))) [Index doc]"
    using room sh(1) by (force simp: server_room_def)+
  then show "server_ok base connect config (h @ [Index doc]) w'"
    using sh(2,3) by (intro server_step [OF ok, of "home config (d_id doc)"]) (auto intro: run_index)
next
  assume room: "server_room base config w (map Index docs)" and run: "router_bulk_index env ro docs w = Some (r1, w')"
  show "server_ok base connect config (h @ map Index docs) w'"
    unfolding server_ok_def
  proof (intro allI impI)
    fix i assume i: "i < shard_count config"
    let ?batch = "filter (\<lambda>d. home config (d_id d) = i) docs"
    have "shard_room (shard_env_of base config i) (sd_shards w i) ?batch"
      "wal_room (shard_env_of base config i) (map Index ?batch)"
      using room i by (simp_all add: server_room_def)
    then show "shard_run (shard_env_of base config i) connect (own_entries config i (h @ map Index docs)) (sd_shards w' i)"
      using bulk_shards [OF ro out run i] server_okD [OF ok i]
      by (cases "?batch = []") (auto intro: run_batch)
  qed
next
  assume room: "server_room base config w [Delete i]" and run: "router_delete ro i w = Some (r, w')"
  note sh = delete_shards [OF ro run]
  have "shard_room (shard_env_of base config (home config i)) (sd_shards w (home config i)) []"
    "wal_room (shard_env_of base config (home config i)) [Delete i]"
    using room sh(1) by (force simp: server_room_def)+
  then show "server_ok base connect config (h @ [Delete i]) w'"
    using sh(2,3) by (intro server_step [OF ok, of "home config i"]) (auto intro: run_delete)
next
  assume room: "server_room base config w []" and run: "router_flush ro w = Some (r, w')"
  obtain rs where calls: "join_calls (\<lambda>grp. c_flush (write_target grp)) (ro_shards ro) w = Some (rs, w')"
    using join_all_calls [of "\<lambda>grp. c_flush (write_target grp)" "ro_shards ro" w]
      op_bind_return_run [OF run [unfolded router_flush_def]] by blast
  show "server_ok base connect config h w'"
    unfolding server_ok_def
  proof (intro allI impI)
    fix i assume i: "i < shard_count config"
    from all_shards [OF ro standalone_client_acts(4) calls i] obtain r3 where
      f: "flush (shard_env_of base config i) (sd_shards w i) = Some (r3, sd_shards w' i)" by blast
    have "shard_room (shard_env_of base config i) (sd_shards w i) []" using room i by (simp add: server_room_def)
    then show "shard_run (shard_env_of base config i) connect (own_entries config i h) (sd_shards w' i)"
      using f server_okD [OF ok i] by (auto intro: run_flush)
  qed
next
  assume room: "server_room base config w []" and run: "router_reindex ro w = Some (r2, w')"
  obtain rs where calls: "join_calls (\<lambda>grp. c_reindex (write_target grp)) (ro_shards ro) w = Some (rs, w')"
    using join_all_calls [of "\<lambda>grp. c_reindex (write_target grp)" "ro_shards ro" w]
      run [unfolded router_reindex_def] by blast
  show "server_ok base connect config h w'"
    unfolding server_ok_def
  proof (intro allI impI)
    fix i assume i: "i < shard_count config"
    from all_shards [OF ro standalone_client_acts(5) calls i] obtain r3 where
      f: "reindex_self (shard_env_of base config i) (sd_shards w i) = Some (r3, sd_shards w' i)" by blast
    have "shard_room (shard_env_of base config i) (sd_shards w i) []" using room i by (simp add: server_room_def)
    then show "shard_run (shard_env_of base config i) connect (own_entries config i h) (sd_shards w' i)"
      using f server_okD [OF ok i] by (auto intro: run_reindex)
  qed
qed

lemma server_run_ok:
  assumes "server_run libs base connect sg config env ro h rs" "outside_ok libs config env"
  shows "standalone_ok libs base sg config ro \<and> server_ok base connect config h (rs_world rs)"
  using assms
proof (induction rule: server_run.induct)
  case (server_new w0 w ro rs)
  have "standalone_ok libs base sg config ro" "rs_world rs = w"
    using server_new(2) standalone_router_ok [of libs base sg config w]
      standalone_router_fields(5) [of libs base sg config w] by simp_all
  moreover have "server_ok base connect config [] w"
    using standalone_start_run [OF server_new(1)] by (simp add: server_ok_def run_new)
  ultimately show ?case by simp
next
  case (server_index ro h rs doc r rs')
  then show ?case using server_steps(1) on_world_run by blast
next
  case (server_bulk ro h rs docs r1 rs')
  then show ?case using server_steps(2) on_world_run by blast
next
  case (server_delete ro h rs i r rs')
  then show ?case using server_steps(3) on_world_run by blast
next
  case (server_flush ro h rs r rs')
  then show ?case using server_steps(4) on_world_run by blast
next
  case (server_reindex ro h rs r2 rs')
  then show ?case using server_steps(5) on_world_run by blast
next
  case (server_search ro h rs request r3 rs')
  then have ro: "standalone_ok libs base sg config ro" and P: "server_readable base connect config h (rs_world rs)"
    by (auto simp: server_readable_def)
  from router_search_keeps [OF reads_keep_server_ok [OF ro server_search.prems] P server_search(3)]
  show ?case using ro by (simp add: server_readable_def)
next
  case (server_suggest ro h rs pre field limit r4 rs')
  then have "standalone_ok libs base sg config ro \<and> server_ok base connect config h (rs_world rs)" by blast
  moreover have "sd_shards (rs_world rs') = sd_shards (rs_world rs)"
    using suggest_shards [OF _ server_suggest.prems on_world_run [OF server_suggest(2)]] calculation by blast
  ultimately show ?case using server_ok_cong by blast
next
  case (server_tick ro h rs)
  then have "standalone_ok libs base sg config ro \<and> server_ok base connect config h (rs_world rs)" by blast
  then show ?case by (simp add: server_ok_cong [OF tick_shards])
next
  case (server_restart ro h rs w0 w ro' rs')
  have ro: "standalone_ok libs base sg config ro'" "rs_world rs' = w"
    using server_restart(4) standalone_router_ok [of libs base sg config w]
      standalone_router_fields(5) [of libs base sg config w] by simp_all
  have ok: "server_ok base connect config h (rs_world rs)" using server_restart by blast
  have "server_ok base connect config h w"
    unfolding server_ok_def
  proof (intro allI impI)
    fix i assume i: "i < shard_count config"
    have "shard_room (shard_env_of base config i) (sd_shards (rs_world rs) i) []"
      using server_restart(2) i by (simp add: server_room_def)
    from run_restart [OF server_okD [OF ok i] this]
    show "shard_run (shard_env_of base config i) connect (own_entries config i h) (sd_shards w i)"
      using standalone_start_run [OF server_restart(3) i] by (simp add: files_of_def)
  qed
  then show ?case using ro by simp
qed

section \<open>Properties\<close>

lemma filter_upt_eq: "j < n \<Longrightarrow> filter (\<lambda>k. k = j) [0..<n] = [j]"
  by (induction n) (auto simp: less_Suc_eq filter_False)

text \<open>A fetch of one document asks its shard.\<close>

lemma standalone_fetch:
  assumes ro: "standalone_ok libs base sg config ro" and i: "home config i < shard_count config"
  shows "\<exists>rs'. fetch_docs ro [i] rs =
    Some (shard_get_docs (shard_env_of base config (home config i)) [i] (sd_shards (rs_world rs) (home config i)), rs')"
proof -
  let ?n = "shard_count config" and ?j = "home config i"
  note len = standalone_okD(1) [OF ro] and for' = standalone_okD(2) [OF ro]
  have by': "partition_by (length (ro_shards ro)) (shard_for ro) [i] =
      Some (map (\<lambda>k. if k = ?j then [i] else []) [0..<?n])"
    using i by (simp add: partition_by_def len for' eq_commute [of ?j])
  have "filter (\<lambda>(idx, ids). ids \<noteq> []) (List.enumerate 0 (map (\<lambda>k. if k = ?j then [i] else []) [0..<?n])) =
      map (\<lambda>k. (k, if k = ?j then [i] else [])) (filter (\<lambda>k. k = ?j) [0..<?n])"
    by (simp add: enumerate_eq_zip zip_map2 zip_same_conv_map filter_map comp_def cong: filter_cong if_cong)
  moreover have "filter (\<lambda>k. k = ?j) [0..<?n] = [?j]"
    using i by (rule filter_upt_eq)
  ultimately have groups: "filter (\<lambda>(idx, ids). ids \<noteq> [])
      (List.enumerate 0 (map (\<lambda>k. if k = ?j then [i] else []) [0..<?n])) = [(?j, [i])]" by simp
  have target: "read_target (ro_shards ro ! ?j) start w = standalone_client base config ?j" for start w
    using read_target_endpoint [of "ro_shards ro ! ?j" start w] standalone_okD(3) [OF ro i]
    by (simp add: primary_only_def endpoints_def)
  show ?thesis
    by (simp add: fetch_docs_def by' groups pick_target_def target docs_or_default_def)
      (simp add: standalone_client_def local_shard_client_def shard_cell.zoom_get shard_at_def)
qed

text \<open>
  C1: no document is lost in a standalone server: whatever sequence of requests to the router - single
  and batch indexing, deletions, flushes, reindexings, searches, suggestions - of background flushes
  and of restarts from disk the server has gone through, a document that was indexed and whose id was
  never deleted is a live document of the shard its id hashes to, and the router fetches a document
  that was indexed under the id; and a shard holds only documents that were indexed and hash to it.
\<close>
theorem router_keeps_documents:
  assumes run: "server_run libs base connect sg config env ro h rs"
    and out: "outside_ok libs config env" and config: "sc_role (cfg_shard config) = Primary"
      "sc_num_shards (cfg_shard config) \<noteq> 0"
  shows "(\<forall>i < length (ro_shards ro). set (get_all_live_docs (shard_env_of base config i) (sd_shards (rs_world rs) i)) \<subseteq>
      {d \<in> set (indexed_docs h). shard_for ro (d_id d) = i}) \<and>
    (\<forall>doc \<in> set (indexed_docs h). d_id doc \<notin> deleted_ids h \<longrightarrow>
       shard_for ro (d_id doc) < length (ro_shards ro) \<and>
       doc \<in> set (get_all_live_docs (shard_env_of base config (shard_for ro (d_id doc)))
         (sd_shards (rs_world rs) (shard_for ro (d_id doc)))) \<and>
       (\<exists>d rs'. fetch_docs ro [d_id doc] rs = Some ([d], rs') \<and> d \<in> set (indexed_docs h) \<and> d_id d = d_id doc))"
proof -
  have ro: "standalone_ok libs base sg config ro" and ok: "server_ok base connect config h (rs_world rs)"
    using server_run_ok [OF run out] by blast+
  have "sc_role (sv_config (shard_env_of base config i)) = Primary" for i
    using config(1) by (simp add: shard_env_of_def standalone_env_def standalone_config_def)
  note reads = shard_ok_reads [OF shard_run_ok [OF server_okD [OF ok] this]]
  have home: "home config i < shard_count config" for i
    using jump_hash_nat(2) [OF config(2)] by (simp add: home_def shard_count_def)
  show ?thesis
    unfolding standalone_okD(1,2) [OF ro]
  proof (intro conjI allI impI ballI)
    fix i assume "i < shard_count config"
    from reads(1) [OF this]
    show "set (get_all_live_docs (shard_env_of base config i) (sd_shards (rs_world rs) i)) \<subseteq>
      {d \<in> set (indexed_docs h). home config (d_id d) = i}" by (simp add: own_entries_docs)
  next
    fix doc assume doc: "doc \<in> set (indexed_docs h)" "d_id doc \<notin> deleted_ids h"
    let ?j = "home config (d_id doc)"
    show "?j < shard_count config" by (rule home)
    have "doc \<in> set (indexed_docs (own_entries config ?j h))" "d_id doc \<notin> deleted_ids (own_entries config ?j h)"
      using doc by (simp_all add: own_entries_docs)
    from reads(2) [OF home this]
    show "doc \<in> set (get_all_live_docs (shard_env_of base config ?j) (sd_shards (rs_world rs) ?j))"
      and "\<exists>d rs'. fetch_docs ro [d_id doc] rs = Some ([d], rs') \<and> d \<in> set (indexed_docs h) \<and> d_id d = d_id doc"
      using standalone_fetch [OF ro home, of "d_id doc" rs] by (auto simp: own_entries_docs)
  qed
qed

section \<open>An example\<close>

text \<open>A server of four shards without suggestions, started on empty disks, and one document.\<close>

definition example_config :: config where
  "example_config = default_config\<lparr>cfg_suggest_shard := default_suggest_shard_config\<lparr>ss_num_suggest_shards := 0\<rparr>\<rparr>"

definition example_server_env :: "'n standalone router_env" where
  "example_server_env =
     \<lparr>rv_deadline = (\<lambda>ms w. None), rv_keep = (\<lambda>w key. True), rv_debug_f64 = bits_text, rv_usort = sort_by,
      rv_field_order = (\<lambda>xs. xs), rv_bucket_order = (\<lambda>xs. xs), rv_term_order = (\<lambda>xs. xs)\<rparr>"

abbreviation example_shard_env_of :: "nat \<Rightarrow> shard_env" where
  "example_shard_env_of \<equiv> shard_env_of example_shard_env example_config"

lemma example_outside_ok: "outside_ok libs example_config example_server_env"
  by (simp add: outside_ok_def example_server_env_def example_config_def default_config_def
      default_ranker_config_def default_ranker_type_def ranker_or_noop_def ranker_build_def build_inner_def
      noop_rank_def op_keeps_basic default_circuit_breaker_config_def)

lemma example_env_fields:
  "sv_schema (example_shard_env_of i) = default_product_schema" "sv_query (example_shard_env_of i) = example_query_env"
  "sv_wal (example_shard_env_of i) = example_wal_codec" "sc_role (sv_config (example_shard_env_of i)) = Primary"
  by (simp_all add: shard_env_of_def standalone_env_def standalone_config_def example_shard_env_def
      example_config_def default_config_def default_shard_config_def)

lemma example_wal_room_of: "set es \<subseteq> {Index (example_doc 7), Delete 7} \<Longrightarrow> wal_room (example_shard_env_of i) es"
  using example_wal_room [of es] by (simp add: wal_room_def example_env_fields) (simp add: example_shard_env_def)

lemma example_room_of:
  assumes "shard_docs (example_shard_env_of i) sh = []" "sl_next_seq (sh_segments sh) = 1" "set ds \<subseteq> {example_doc 7}" "length ds \<le> 1"
  shows "shard_room (example_shard_env_of i) sh ds"
proof -
  have "mset ds \<subseteq># {#example_doc 7#}" using assms(3,4) by (cases ds) auto
  then show ?thesis
    using assms(1,2) example_docs_room
    by (simp add: shard_room_def example_env_fields example_query_env_def)
qed

lemma example_open:
  obtains sh where "shard_open (example_shard_env_of i) no_primary [] Map.empty = Some sh"
    "shard_docs (example_shard_env_of i) sh = []" "sl_next_seq (sh_segments sh) = 1"
proof -
  obtain rep where "shard_open (example_shard_env_of i) no_primary [] Map.empty = Some
      \<lparr>sh_wal = \<lparr>wl_file = [], wl_next_seq = 0\<rparr>, sh_buffer = wb_new (sc_write_buffer_size (sv_config (example_shard_env_of i))),
       sh_segments = \<lparr>sl_segments = [], sl_doc_map = Map.empty, sl_next_seq = 1, sl_disk = Map.empty\<rparr>,
       sh_replication = rep\<rparr>"
    using shard_open_new [OF example_env_fields(4)] by blast
  then show ?thesis by (rule that) (simp_all add: shard_docs_def wb_new_def)
qed

lemma open_shards_returns:
  assumes "\<And>k. k \<in> set ks \<Longrightarrow> shard_open (envs k) connect (fst (files k)) (snd (files k)) \<noteq> None"
  shows "\<exists>S'. open_shards envs connect files ks S = Some S'"
  using assms
proof (induction ks arbitrary: S)
  case (Cons k ks)
  obtain sh where "shard_open (envs k) connect (fst (files k)) (snd (files k)) = Some sh"
    using Cons.prems [of k] by auto
  then show ?case using Cons.IH [of "S(k := sh)"] Cons.prems by (simp del: fun_upd_apply)
qed simp

lemma example_start:
  obtains w where "standalone_start example_shard_env no_primary example_config (\<lambda>i. ([], Map.empty)) w0 = Some w"
proof -
  have "shard_open (standalone_env example_shard_env (cfg_shard example_config) k) no_primary [] Map.empty \<noteq> None" for k
    using example_open [of k] by (metis option.distinct(1) shard_env_of_def)
  then show ?thesis using that open_shards_returns by (fastforce simp: standalone_start_def)
qed

text \<open>The server answers the request to index the document.\<close>

lemma example_server_index:
  obtains ro :: "'n standalone router" and rs rs' where
    "server_run libs example_shard_env no_primary sg example_config example_server_env ro [] rs"
    "server_room example_shard_env example_config (rs_world rs) [Index (example_doc 7)]"
    "on_world (router_index example_server_env ro (example_doc 7)) rs = Some (Inr (), rs')"
    "server_room example_shard_env example_config (rs_world rs') []"
proof -
  let ?n = "shard_count example_config" and ?doc = "example_doc 7"
  obtain w :: "'n standalone" where
    w: "standalone_start example_shard_env no_primary example_config (\<lambda>i. ([], Map.empty)) undefined = Some w"
    by (rule example_start)
  obtain ro rs where made: "standalone_router libs example_shard_env sg example_config w = (ro, rs)"
    by (cases "standalone_router libs example_shard_env sg example_config w")
  have run: "server_run libs example_shard_env no_primary sg example_config example_server_env ro [] rs"
    by (rule server_new [OF w made])
  have ro: "standalone_ok libs example_shard_env sg example_config ro" and world: "rs_world rs = w"
    using made standalone_router_ok [of libs example_shard_env sg example_config w]
      standalone_router_fields(5) [of libs example_shard_env sg example_config w] by simp_all
  have new: "shard_docs (example_shard_env_of i) (sd_shards w i) = []" "sl_next_seq (sh_segments (sd_shards w i)) = 1"
    if "i < ?n" for i
  proof -
    obtain sh where "shard_open (example_shard_env_of i) no_primary [] Map.empty = Some sh"
      "shard_docs (example_shard_env_of i) sh = []" "sl_next_seq (sh_segments sh) = 1" by (rule example_open)
    then show "shard_docs (example_shard_env_of i) (sd_shards w i) = []" "sl_next_seq (sh_segments (sd_shards w i)) = 1"
      using standalone_start_run [OF w that] by simp_all
  qed
  have room: "server_room example_shard_env example_config w [Index ?doc]"
    using new by (auto simp: server_room_def intro!: example_room_of example_wal_room_of)
  define j where "j = home example_config 7"
  have id: "d_id ?doc = 7" by (simp add: example_doc_def)
  have j: "j < ?n"
    using jump_hash_nat(2) [of 4 7]
    by (simp add: j_def home_def shard_count_def example_config_def default_config_def default_shard_config_def
        default_num_shards_def)
  have "server_ok example_shard_env no_primary example_config [] w"
    using server_run_ok [OF run example_outside_ok] world by simp
  then have "shard_ok (example_shard_env_of j) [] (sd_shards w j)"
    using server_okD [OF _ j] shard_run_ok example_env_fields(4) by fastforce
  moreover have "shard_room (example_shard_env_of j) (sd_shards w j) [?doc]" "wal_room (example_shard_env_of j) [Index ?doc]"
    using new [OF j] by (auto intro!: example_room_of example_wal_room_of)
  ultimately obtain sh' where sh': "shard_index (example_shard_env_of j) ?doc (sd_shards w j) = Some (Inr (), sh')"
    "mset (shard_docs (example_shard_env_of j) sh') = {#?doc#}" "unat (sl_next_seq (sh_segments sh')) \<le> 3"
    using shard_index_ok [of "example_shard_env_of j" "[]" "sd_shards w j" ?doc] new [OF j] by auto
  let ?rs = "rs_world_update (\<lambda>_. upd_shard j (\<lambda>_. sh') w) rs"
  have "shard_room (example_shard_env_of j) sh' []"
    using sh'(2,3) example_docs_room [of "{#?doc#}"]
    by (simp add: shard_room_def example_env_fields example_query_env_def)
  then have "shard_room (example_shard_env_of i) (sd_shards (upd_shard j (\<lambda>_. sh') w) i) []" if "i < ?n" for i
    using example_room_of [OF new [OF that], of "[]"] by (cases "i = j") (simp_all add: upd_shard_def)
  then have after: "server_room example_shard_env example_config (rs_world ?rs) []"
    by (auto simp: server_room_def intro!: example_wal_room_of)
  have "writer ro 7 = Some (standalone_client example_shard_env example_config j)"
    using standalone_okD [OF ro] j by (simp add: writer_def j_def write_target_def primary_only_def)
  moreover have "ro_suggest_shards ro = []"
    using ro by (simp add: standalone_ok_def example_config_def)
  ultimately have "router_index example_server_env ro ?doc w = Some (Inr (), upd_shard j (\<lambda>_. sh') w)"
    using sh'(1) by (simp add: router_index_def fan_out_suggest_write_def op_bind_simps(1) id)
      (simp add: standalone_client_def local_shard_client_def shard_cell.zoom_put shard_at_def)
  then have "on_world (router_index example_server_env ro ?doc) rs =
      Some (Inr (), ?rs)"
    using world by (simp add: op_zoom_def)
  then show ?thesis using that [OF run _ _ after] room world by simp
qed

lemma example_server_run:
  obtains ro :: "'n standalone router" and rs where
    "server_run libs example_shard_env no_primary sg example_config example_server_env ro [Index (example_doc 7)] rs"
    "server_room example_shard_env example_config (rs_world rs) []"
proof -
  obtain ro :: "'n standalone router" and rs rs' where
    s: "server_run libs example_shard_env no_primary sg example_config example_server_env ro [] rs"
    "server_room example_shard_env example_config (rs_world rs) [Index (example_doc 7)]"
    "on_world (router_index example_server_env ro (example_doc 7)) rs = Some (Inr (), rs')"
    "server_room example_shard_env example_config (rs_world rs') []" by (rule example_server_index)
  from server_index [OF s(1-3)] show ?thesis using that [OF _ s(4)] by simp
qed

theorem router_keeps_documents_witness:
  "\<forall>libs sg. \<exists>ro rs. server_run libs example_shard_env no_primary sg example_config
      (example_server_env :: unit standalone router_env) ro [Index (example_doc 7)] rs \<and>
    (\<exists>d rs'. fetch_docs ro [7] rs = Some ([d], rs') \<and> d_id d = 7)"
proof (intro allI)
  fix libs :: "(unit standalone, 'm) ranker_libs" and sg
  obtain ro and rs :: "unit standalone rstate" where
    run: "server_run libs example_shard_env no_primary sg example_config example_server_env ro [Index (example_doc 7)] rs"
    by (rule example_server_run) blast
  have config: "sc_role (cfg_shard example_config) = Primary" "sc_num_shards (cfg_shard example_config) \<noteq> 0"
    by (simp_all add: example_config_def default_config_def default_shard_config_def default_num_shards_def)
  have id: "d_id (example_doc 7) = 7" by (simp add: example_doc_def)
  from router_keeps_documents [OF run example_outside_ok config, THEN conjunct2] obtain d rs' where
    "fetch_docs ro [7] rs = Some ([d], rs')" "d_id d = 7" by (auto simp: id)
  then show "\<exists>ro rs. server_run libs example_shard_env no_primary sg example_config
      (example_server_env :: unit standalone router_env) ro [Index (example_doc 7)] rs \<and>
    (\<exists>d rs'. fetch_docs ro [7] rs = Some ([d], rs') \<and> d_id d = 7)" using run by blast
qed

end
