(* ===== verification/ShardSearch.thy ===== *)
theory ShardSearch
  imports Durability
begin

text \<open>
  What a search of a shard (\<open>search\<close> in \<open>crates/shard/src/shard.rs\<close>) answers, in terms of the documents
  that the shard holds: which of them are hits, how many there are, what the buckets count.
\<close>

section \<open>Documents that match\<close>

text \<open>The filters of a request, on a document.\<close>

definition passes_filter :: "index_schema \<Rightarrow> document \<Rightarrow> string \<times> filter_value \<Rightarrow> bool" where
  "passes_filter schema doc = (\<lambda>(field, flt).
     case flt of
       Equality v \<Rightarrow> field \<in> set (keyword_fields schema) \<and> keyword_value field doc = Some v
     | MultiValue vs \<Rightarrow> field \<in> set (keyword_fields schema) \<and>
         (case keyword_value field doc of None \<Rightarrow> False | Some v \<Rightarrow> v \<in> set vs)
     | Range gte lte \<Rightarrow> field \<in> set (numeric_fields schema) \<and>
         (case numeric_value field doc of None \<Rightarrow> False | Some x \<Rightarrow> passes_range gte lte x))"

definition doc_passes :: "index_schema \<Rightarrow> search_request \<Rightarrow> document \<Rightarrow> bool" where
  "doc_passes schema request doc \<longleftrightarrow> list_all (passes_filter schema doc) (q_filters request)"

text \<open>The tokens of a query that begin a term of the document.\<close>

definition token_matches :: "text_env \<Rightarrow> index_schema \<Rightarrow> document \<Rightarrow> string \<Rightarrow> bool" where
  "token_matches env schema doc t \<longleftrightarrow> list_ex (prefix t) (doc_terms env schema doc)"

definition query_tokens :: "text_env \<Rightarrow> index_schema \<Rightarrow> search_request \<Rightarrow> string list" where
  "query_tokens env schema request = analyze_to_terms env (query_analyzer_of schema) (q_query request)"

section \<open>Written segments\<close>

definition written :: "index_env \<Rightarrow> index_schema \<Rightarrow> segment_reader \<Rightarrow> bool" where
  "written env schema r \<longleftrightarrow> (\<exists>sid docs path deleted.
     segment_fits env schema sid docs \<and> r = segment_of env schema sid docs path deleted)"

lemma writtenE:
  assumes "written env schema r"
  obtains sid docs path deleted where "segment_fits env schema sid docs" "length docs < 2 ^ 32 - 1"
    "r = segment_of env schema sid docs path deleted"
    "\<And>i. doc_at env r i = (if unat i < length docs \<and> i \<notin> deleted then Some (docs ! unat i) else None)"
    "all_live_docs r = {i. unat i < length docs \<and> i \<notin> deleted}"
proof -
  obtain sid docs path deleted where fit: "segment_fits env schema sid docs"
    and r: "r = segment_of env schema sid docs path deleted"
    using assms unfolding written_def by blast
  have n: "length docs < 2 ^ 32 - 1" using fit by (simp add: segment_fits_def Let_def)
  then have cnt: "unat (m_doc_count (sr_meta r)) = length docs"
    by (simp add: r segment_of_def segment_meta_of_def unat_of_nat)
  have "set (map word_of_nat [0..<length docs]) = {i :: u32. unat i < length docs}"
    using word_image_less [of "length docs" "\<lambda>_. True"] n by (simp add: atLeast0LessThan lessThan_def)
  then have "all_live_docs r = {i. unat i < length docs \<and> i \<notin> deleted}"
    unfolding all_live_docs_def cnt by (simp add: r Collect_conj_eq Int_commute set_diff_eq)
  then show ?thesis using that [OF fit n r] doc_at_segment_of [OF fit] r by simp
qed

lemma written_live: "written env schema r \<Longrightarrow> i \<in> all_live_docs r \<longleftrightarrow> doc_at env r i \<noteq> None"
  by (elim writtenE) simp

lemma written_in_range: "written env schema r \<Longrightarrow> reader_in_range env r"
  unfolding written_def using segment_in_range by blast

text \<open>The filters of a segment are those of its documents.\<close>

lemma written_filter_hits:
  assumes "written env schema r" "doc_at env r i = Some doc"
  shows "i \<in> filter_hits r field flt \<longleftrightarrow> passes_filter schema doc (field, flt)"
proof -
  obtain sid docs path deleted where w: "segment_fits env schema sid docs" "length docs < 2 ^ 32 - 1"
    "r = segment_of env schema sid docs path deleted"
    "\<And>i. doc_at env r i = (if unat i < length docs \<and> i \<notin> deleted then Some (docs ! unat i) else None)"
    using assms(1) by (rule writtenE) blast
  have i: "unat i < length docs" "i \<notin> deleted" "doc = docs ! unat i"
    using assms(2) w(4) by (auto split: if_splits)
  note image = word_image_less [of "length docs"]
  have cols: "sr_columns r = segment_columns schema docs" "sr_deletions r = deleted"
    by (simp_all add: w(3)) (simp add: segment_of_def)
  have kw: "keyword_field (segment_columns schema docs) field (map (keyword_value field) docs)"
    if "field \<in> set (keyword_fields schema)"
    using that by (simp add: keyword_field_def segment_columns_def)
  have nw: "numeric_field (segment_columns schema docs) field (map (numeric_value field) docs)"
    if "field \<in> set (numeric_fields schema)"
    using that by (simp add: numeric_field_def segment_columns_def)
  have none: "field \<notin> set (keyword_fields schema) \<Longrightarrow> keyword_columns (segment_columns schema docs) field = None"
    "field \<notin> set (numeric_fields schema) \<Longrightarrow> numeric_columns (segment_columns schema docs) field = None"
    by (simp_all add: segment_columns_def)
  show ?thesis
  proof (cases flt)
    case (Equality v)
    show ?thesis
    proof (cases "field \<in> set (keyword_fields schema)")
      case True
      then show ?thesis
        using i by (simp add: Equality filter_hits_def w(3) filter_eq_segment [OF w(1)] passes_filter_def)
    next
      case False
      then show ?thesis
        using none(1) by (simp add: Equality filter_hits_def filter_eq_def cols cs_filter_eq_def passes_filter_def)
    qed
  next
    case (MultiValue vs)
    show ?thesis
    proof (cases "field \<in> set (keyword_fields schema)")
      case True
      have "cs_filter_in (segment_columns schema docs) field vs =
          {d. unat d < length docs \<and> (\<exists>s \<in> set vs. keyword_value field (docs ! unat d) = Some s)}"
        using w(2) image [of "\<lambda>k. \<exists>s \<in> set vs. keyword_value field (docs ! k) = Some s"]
        by (simp add: cs_filter_in_exact [OF kw [OF True]] insert_where_alt cong: conj_cong)
      then show ?thesis
        using i True by (auto simp: MultiValue filter_hits_def filter_in_def cols passes_filter_def split: option.split)
    next
      case False
      then show ?thesis
        using none(1) by (simp add: MultiValue filter_hits_def filter_in_def cols cs_filter_in_def passes_filter_def)
    qed
  next
    case (Range gte lte)
    show ?thesis
    proof (cases "field \<in> set (numeric_fields schema)")
      case True
      have "cs_filter_range (segment_columns schema docs) field gte lte =
          {d. unat d < length docs \<and> (\<exists>x. numeric_value field (docs ! unat d) = Some x \<and> passes_range gte lte x)}"
        using w(2) image [of "\<lambda>k. \<exists>x. numeric_value field (docs ! k) = Some x \<and> passes_range gte lte x"]
        by (simp add: cs_filter_range_exact [OF nw [OF True]] cong: conj_cong)
      then show ?thesis
        using i True by (auto simp: Range filter_hits_def filter_range_def cols passes_filter_def split: option.split)
    next
      case False
      then show ?thesis
        using none(2) by (simp add: Range filter_hits_def filter_range_def cols cs_filter_range_def passes_filter_def)
    qed
  qed
qed

lemma written_passes:
  assumes "written env schema r" "doc_at env r i = Some doc"
  shows "passes_filters r request i \<longleftrightarrow> doc_passes schema request doc"
  using written_filter_hits [OF assms]
  by (auto simp: passes_filters_def doc_passes_def list_all_iff)

text \<open>The documents of a segment with their numbers.\<close>

lemma written_local_docs:
  assumes "written env schema r"
  shows "distinct (map fst (local_docs env r))"
    and "(i, doc) \<in> set (local_docs env r) \<longleftrightarrow> doc_at env r i = Some doc"
proof -
  obtain sid docs path deleted where w: "length docs < 2 ^ 32 - 1"
    "r = segment_of env schema sid docs path deleted"
    "\<And>i. doc_at env r i = (if unat i < length docs \<and> i \<notin> deleted then Some (docs ! unat i) else None)"
    using assms by (rule writtenE) blast
  have cnt: "unat (m_doc_count (sr_meta r)) = length docs"
    using w(1) by (simp add: w(2) segment_of_def segment_meta_of_def unat_of_nat)
  have u: "unat (word_of_nat k :: u32) = k" if "k < length docs" for k
    using that w(1) by (simp add: unat_of_nat)
  have "filter (\<lambda>k. unat (word_of_nat k :: u32) < length docs \<and> (word_of_nat k :: u32) \<notin> deleted) [0..<length docs] =
      filter (\<lambda>k. word_of_nat k \<notin> deleted) [0..<length docs]"
    by (rule filter_cong) (auto simp: u)
  then have l: "local_docs env r = map (\<lambda>k. (word_of_nat k, docs ! k)) (filter (\<lambda>k. word_of_nat k \<notin> deleted) [0..<length docs])"
    unfolding local_docs_def cnt List.map_filter_def
    by (simp add: w(3)) (auto simp: u intro!: map_cong)
  have "inj_on (word_of_nat :: nat \<Rightarrow> u32) {k. k < length docs}"
    using u by (metis (mono_tags) inj_onI mem_Collect_eq)
  then show "distinct (map fst (local_docs env r))"
    by (auto simp: l comp_def distinct_map intro: inj_on_subset)
  show "(i, doc) \<in> set (local_docs env r) \<longleftrightarrow> doc_at env r i = Some doc"
    using u by (auto simp: l w(3) image_iff intro!: exI [of _ "unat i"])
qed

text \<open>Facet counts of a segment.\<close>

lemma written_aggregate:
  assumes "written env schema r" "\<forall>i \<in> S. doc_at env r i \<noteq> None"
  shows "count_total (aggregate_counts r f S) v =
    (if f \<in> set (keyword_fields schema)
     then word_of_nat (card {i \<in> S. \<exists>doc. doc_at env r i = Some doc \<and> keyword_value f doc = Some v}) else 0)"
proof -
  obtain sid docs path deleted where w: "length docs < 2 ^ 32 - 1"
    "r = segment_of env schema sid docs path deleted"
    "\<And>i. doc_at env r i = (if unat i < length docs \<and> i \<notin> deleted then Some (docs ! unat i) else None)"
    using assms(1) by (rule writtenE) blast
  have cols: "sr_columns r = segment_columns schema docs" by (simp add: w(2) segment_of_def)
  show ?thesis
  proof (cases "f \<in> set (keyword_fields schema)")
    case True
    let ?vals = "map (keyword_value f) docs"
    have kw: "keyword_field (segment_columns schema docs) f ?vals"
      using True by (simp add: keyword_field_def segment_columns_def)
    have n: "length ?vals < 2 ^ 32 - 1" using w(1) by simp
    have total: "count_total (map (\<lambda>s. (s, g s)) ss) v = (if v \<in> set ss then g v else 0)" if "distinct ss" for g ss
      using that by (induction ss) (auto simp: count_total_def)
    have "distinct (kw_dict (kw_run ?vals))" using kw_inv_run [of ?vals] by (simp add: kw_inv_def)
    then have "count_total (aggregate_counts r f S) v =
        (if v \<in> set (kw_dict (kw_run ?vals)) \<and> 0 < count_of ?vals S v then word_of_nat (count_of ?vals S v) else 0)"
      by (simp add: aggregate_counts_def cols cs_aggregate_counts_alt [OF kw n] total)
    also have "\<dots> = word_of_nat (count_of ?vals S v)"
    proof -
      have "unat d < length ?vals \<Longrightarrow> ?vals ! unat d = Some v \<Longrightarrow> v \<in> set (kw_dict (kw_run ?vals))" for d :: u32
        using nth_mem [of "unat d" ?vals] by (simp only: dict_mem)
      then have "v \<notin> set (kw_dict (kw_run ?vals)) \<Longrightarrow> count_of ?vals S v = 0"
        unfolding count_of_def by (metis (mono_tags, lifting) Collect_empty_eq card.empty)
      then show ?thesis by auto
    qed
    also have "count_of ?vals S v = card {i \<in> S. \<exists>doc. doc_at env r i = Some doc \<and> keyword_value f doc = Some v}"
      unfolding count_of_def using assms(2) by (intro arg_cong [where f = card]) (auto simp: w(3) split: if_splits)
    finally show ?thesis using True by simp
  next
    case False
    then show ?thesis
      by (simp add: aggregate_counts_def cols cs_aggregate_counts_def segment_columns_def count_total_def)
  qed
qed

lemma aggregate_fields_total:
  "field_total (aggregate_fields r names S) f v =
    (if f \<in> set names then count_total (aggregate_counts r f S) v else 0)"
proof -
  let ?m = "\<lambda>names. aggregate_fields r names S"
  have "distinct (map fst (?m names)) \<and>
      map_of (?m names) f = (if f \<in> set names then Some (aggregate_counts r f S) else None)"
    by (induction names rule: rev_induct) (simp_all add: aggregate_fields_def distinct_update update_conv)
  moreover have "field_total m f v = 0" if "f \<notin> fst ` set m" for m
    using that by (induction m) (auto simp: field_total_def)
  ultimately show ?thesis
    by (auto simp: map_of_eq_None_iff dest: map_of_SomeD intro: field_total_mem)
qed

section \<open>Searching written segments\<close>

text \<open>
  What may be found among documents: each of them at most once, only those that pass the filters, and
  all of them for the empty query; without typo tolerance every token of the query begins a term
  of a found document, or, in the fallback, some token does.
\<close>

definition may_find ::
  "text_env \<Rightarrow> index_schema \<Rightarrow> search_request \<Rightarrow> document list \<Rightarrow> document list \<Rightarrow> bool \<Rightarrow> bool" where
  "may_find env schema request live found fallback \<longleftrightarrow>
     mset found \<subseteq># filter_mset (doc_passes schema request) (mset live) \<and>
     (q_query request = [] \<longrightarrow> mset found = filter_mset (doc_passes schema request) (mset live)) \<and>
     (q_query request \<noteq> [] \<and> \<not> q_typo_tolerance request \<longrightarrow>
        (\<forall>doc \<in> set found. (if fallback then list_ex else list_all)
           (token_matches env schema doc) (query_tokens env schema request))) \<and>
     (fallback \<longrightarrow> query_tokens env schema request \<noteq> [])"

lemma may_find_Nil: "may_find env schema request [] [] False"
  by (simp add: may_find_def)

lemma may_find_append:
  assumes "may_find env schema request live found fb" "may_find env schema request live' found' fb'"
  shows "may_find env schema request (live @ live') (found @ found') (fb \<or> fb')"
proof -
  let ?ts = "query_tokens env schema request"
  let ?hit = "\<lambda>fb doc. (if fb then list_ex else list_all) (token_matches env schema doc) ?ts"
  have weaken: "?hit fb doc \<Longrightarrow> fb' \<longrightarrow> ?ts \<noteq> [] \<Longrightarrow> ?hit (fb \<or> fb') doc" for fb fb' doc
    by (cases ?ts) (auto split: if_splits)
  have "mset (found @ found') \<subseteq># filter_mset (doc_passes schema request) (mset (live @ live'))"
    using assms unfolding may_find_def by (simp add: subset_mset.add_mono)
  moreover have "q_query request = [] \<longrightarrow>
      mset (found @ found') = filter_mset (doc_passes schema request) (mset (live @ live'))"
    using assms unfolding may_find_def by simp
  moreover have "?hit (fb \<or> fb') doc"
    if query: "q_query request \<noteq> []" "\<not> q_typo_tolerance request" and doc: "doc \<in> set (found @ found')" for doc
  proof -
    have fb: "fb \<longrightarrow> ?ts \<noteq> []" "fb' \<longrightarrow> ?ts \<noteq> []" using assms unfolding may_find_def by blast+
    have "?hit fb doc" if "doc \<in> set found"
      using assms(1) query that unfolding may_find_def by blast
    moreover have "?hit fb' doc" if "doc \<in> set found'"
      using assms(2) query that unfolding may_find_def by blast
    ultimately show ?thesis
      using doc weaken [of fb doc fb', OF _ fb(2)] weaken [of fb' doc fb, OF _ fb(1)]
      unfolding disj_commute [of fb' fb] set_append Un_iff by blast
  qed
  moreover have "fb \<or> fb' \<longrightarrow> ?ts \<noteq> []" using assms unfolding may_find_def by blast
  ultimately show ?thesis unfolding may_find_def by blast
qed

definition found_doc :: "index_env \<Rightarrow> segment_reader \<Rightarrow> scored_doc \<Rightarrow> document" where
  "found_doc env r h = the (doc_at env r (sd_local_doc_id h))"

lemma written_found:
  assumes w: "written env schema r" and ids: "distinct ids" "\<forall>i \<in> set ids. \<exists>doc. doc_at env r i = Some doc \<and> P doc"
  shows "mset (map (\<lambda>i. the (doc_at env r i)) ids) \<subseteq># filter_mset P (mset (map snd (local_docs env r)))"
    and "set ids = {i. \<exists>doc. doc_at env r i = Some doc \<and> P doc} \<Longrightarrow>
      mset (map (\<lambda>i. the (doc_at env r i)) ids) = filter_mset P (mset (map snd (local_docs env r)))"
proof -
  let ?L = "filter (\<lambda>(i, doc). P doc) (local_docs env r)" and ?f = "\<lambda>i. the (doc_at env r i)"
  have "filter_mset P (mset (map snd xs)) = mset (map snd (filter (\<lambda>(i, doc). P doc) xs))" for xs :: "(u32 \<times> document) list"
    by (induction xs) auto
  then have "filter_mset P (mset (map snd (local_docs env r))) = mset (map snd ?L)" .
  also have "map snd ?L = map ?f (map fst ?L)"
    using written_local_docs(2) [OF w] by (auto simp: comp_def)
  finally have all: "filter_mset P (mset (map snd (local_docs env r))) = image_mset ?f (mset (map fst ?L))"
    by (simp only: mset_map)
  have d: "distinct (map fst ?L)"
    using written_local_docs(1) [OF w] by (simp add: distinct_map_filter)
  have L: "set (map fst ?L) = {i. \<exists>doc. doc_at env r i = Some doc \<and> P doc}"
    using written_local_docs(2) [OF w] by force
  have m: "mset ids = mset_set (set ids)" "mset (map fst ?L) = mset_set (set (map fst ?L))"
    by (rule mset_set_set [OF ids(1), symmetric], rule mset_set_set [OF d, symmetric])
  have "set ids \<subseteq> set (map fst ?L)" using ids(2) unfolding L by blast
  then have "mset ids \<subseteq># mset (map fst ?L)"
    unfolding m by (intro subset_imp_msubset_mset_set) simp_all
  then show "mset (map ?f ids) \<subseteq># filter_mset P (mset (map snd (local_docs env r)))"
    unfolding all mset_map [of ?f ids] by (rule image_mset_subseteq_mono)
  show "mset (map ?f ids) = filter_mset P (mset (map snd (local_docs env r)))"
    if "set ids = {i. \<exists>doc. doc_at env r i = Some doc \<and> P doc}"
    unfolding all mset_map [of ?f ids] m that L by (rule refl)
qed

text \<open>The number of found documents with a value in a keyword field.\<close>

definition value_count :: "index_schema \<Rightarrow> search_request \<Rightarrow> document list \<Rightarrow> string \<Rightarrow> string \<Rightarrow> nat" where
  "value_count schema request found f v =
     (if f \<in> set (q_aggregations request) \<and> f \<in> set (keyword_fields schema)
      then length (filter (\<lambda>doc. keyword_value f doc = Some v) found) else 0)"

lemma value_count_append:
  "value_count schema request (xs @ ys) f v = value_count schema request xs f v + value_count schema request ys f v"
  "value_count schema request [] f v = 0"
  by (simp_all add: value_count_def)

lemma card_filter_map:
  assumes "distinct (map g hs)"
  shows "card {i \<in> g ` set hs. Q i} = length (filter (\<lambda>h. Q (g h)) hs)"
proof -
  have "{i \<in> g ` set hs. Q i} = set (map g (filter (\<lambda>h. Q (g h)) hs))" by auto
  moreover have "distinct (map g (filter (\<lambda>h. Q (g h)) hs))" using assms by (rule distinct_map_filter)
  ultimately show ?thesis using distinct_card by fastforce
qed

lemma execute_fallback_tokens:
  "execute q schema r stats ord request = Some res \<Longrightarrow> ss_retrieval_mode res = OrFallback \<Longrightarrow>
    query_tokens (qe_text q) schema request \<noteq> []"
  by (auto simp: execute_def Let_def qu_run_default_tokens query_analyzer_primary query_tokens_def
      split: if_splits option.splits)

lemma execute_docs:
  assumes q: "query_env_ok q" and w: "written (qe_index q) schema r"
    and ex: "execute q schema r stats ord request = Some res"
  defines "found \<equiv> map (found_doc (qe_index q) r) (ss_scored_docs res)"
  shows "\<forall>h \<in> set (ss_scored_docs res). sd_segment_ord h = ord \<and> doc_at (qe_index q) r (sd_local_doc_id h) \<noteq> None"
    and "may_find (qe_text q) schema request (map snd (local_docs (qe_index q) r)) found
      (ss_retrieval_mode res = OrFallback)"
    and "ss_total_hits res = word_of_nat (length found)"
    and "field_total (ss_aggregations res) f v = word_of_nat (value_count schema request found f v)"
proof -
  let ?env = "qe_index q" and ?ids = "map sd_local_doc_id (ss_scored_docs res)"
  note out = execute_outcome [OF q written_in_range [OF w], of schema stats ord request, unfolded ex]
  have ids: "distinct ?ids" and scored: "\<And>h. h \<in> set (ss_scored_docs res) \<Longrightarrow> scored_ok q r ord request h"
    and empty: "q_query request = [] \<Longrightarrow> set ?ids = {i \<in> all_live_docs r. passes_filters r request i}"
    using out by auto
  have at: "\<exists>doc. doc_at ?env r (sd_local_doc_id h) = Some doc" if h: "h \<in> set (ss_scored_docs res)" for h
  proof (cases "q_query request = []")
    case True
    then show ?thesis using empty h written_live [OF w] by fastforce
  next
    case False
    then show ?thesis using scored [OF h] by (auto simp: scored_ok_def split: option.splits)
  qed
  then show "\<forall>h \<in> set (ss_scored_docs res). sd_segment_ord h = ord \<and> doc_at ?env r (sd_local_doc_id h) \<noteq> None"
    using scored by (auto simp: scored_ok_def)
  show "ss_total_hits res = word_of_nat (length found)" using out by (auto simp: found_def)
  have found: "found = map (\<lambda>i. the (doc_at ?env r i)) ?ids"
    by (simp add: found_def found_doc_def comp_def)
  have pass: "\<forall>i \<in> set ?ids. \<exists>doc. doc_at ?env r i = Some doc \<and> doc_passes schema request doc"
  proof
    fix i assume "i \<in> set ?ids"
    then obtain h where h: "h \<in> set (ss_scored_docs res)" "i = sd_local_doc_id h" by auto
    obtain doc where doc: "doc_at ?env r i = Some doc" using at [OF h(1)] h(2) by blast
    have "passes_filters r request i" using scored [OF h(1)] h(2) by (simp add: scored_ok_def)
    then show "\<exists>doc. doc_at ?env r i = Some doc \<and> doc_passes schema request doc"
      using doc written_passes [OF w doc] by simp
  qed
  have "set ?ids = {i. \<exists>doc. doc_at ?env r i = Some doc \<and> doc_passes schema request doc}" if "q_query request = []"
    unfolding empty [OF that] using written_live [OF w] written_passes [OF w] by auto
  moreover have "(if ss_retrieval_mode res = OrFallback then list_ex else list_all)
      (token_matches (qe_text q) schema doc) (query_tokens (qe_text q) schema request)"
    if query: "q_query request \<noteq> []" "\<not> q_typo_tolerance request" and doc: "doc \<in> set found" for doc
  proof -
    obtain h where h: "h \<in> set (ss_scored_docs res)" "doc = found_doc ?env r h"
      using doc by (auto simp: found_def)
    obtain sid docs path deleted where r: "segment_fits ?env schema sid docs"
      "r = segment_of ?env schema sid docs path deleted"
      "\<And>i. doc_at ?env r i = (if unat i < length docs \<and> i \<notin> deleted then Some (docs ! unat i) else None)"
      using w by (rule writtenE) blast
    have hit: "sd_local_doc_id h \<in> list_docs (raw_lists ?env r request t) \<Longrightarrow> token_matches (qe_text q) schema doc t" for t
      using segment_list_docs [OF r(1) query(2), of "sd_local_doc_id h" path deleted t] at [OF h(1)]
      by (auto simp: r(2,3) [symmetric] h(2) found_doc_def token_matches_def list_ex_iff split: if_splits)
        (auto simp: r(3) split: if_splits)
    have "case ss_retrieval_mode res of
        AndMode \<Rightarrow> list_all (\<lambda>t. sd_local_doc_id h \<in> list_docs (raw_lists ?env r request t)) (query_tokens (qe_text q) schema request)
      | OrFallback \<Rightarrow> list_ex (\<lambda>t. sd_local_doc_id h \<in> list_docs (raw_lists ?env r request t)) (query_tokens (qe_text q) schema request)"
      unfolding query_tokens_def using out query(1) h(1) by (simp add: Let_def split del: retrieval_mode.split)
    then show ?thesis
      using hit by (cases "ss_retrieval_mode res") (auto simp: list_all_iff list_ex_iff)
  qed
  ultimately show "may_find (qe_text q) schema request (map snd (local_docs ?env r)) found (ss_retrieval_mode res = OrFallback)"
    unfolding may_find_def found
    using written_found [OF w ids pass] execute_fallback_tokens [OF ex] by (intro conjI impI ballI) simp_all
  have agg: "ss_aggregations res = aggregate_fields r (q_aggregations request) (set ?ids)" using out by auto
  have "\<forall>i \<in> set ?ids. doc_at ?env r i \<noteq> None" using at by auto
  note cnt = written_aggregate [OF w this, of f v]
  have "card {i \<in> set ?ids. \<exists>doc. doc_at ?env r i = Some doc \<and> keyword_value f doc = Some v} =
      length (filter (\<lambda>doc. keyword_value f doc = Some v) found)"
  proof -
    have "(\<exists>doc. doc_at ?env r (sd_local_doc_id h) = Some doc \<and> keyword_value f doc = Some v) \<longleftrightarrow>
        keyword_value f (found_doc ?env r h) = Some v" if "h \<in> set (ss_scored_docs res)" for h
      using at [OF that] by (auto simp: found_doc_def)
    then show ?thesis
      unfolding found_def filter_map comp_def length_map set_map card_filter_map [OF ids]
      by (intro arg_cong [where f = length] filter_cong refl)
  qed
  then show "field_total (ss_aggregations res) f v = word_of_nat (value_count schema request found f v)"
    unfolding agg aggregate_fields_total cnt value_count_def by simp
qed

section \<open>Searching several segments\<close>

lemma may_find_mset:
  "mset found' = mset found \<Longrightarrow> may_find env schema request live found' fb = may_find env schema request live found fb"
  unfolding may_find_def by (auto dest: mset_eq_setD)

text \<open>The found documents of all segments; \<open>rd\<close> is the reader with a number.\<close>

lemma executed_docs:
  assumes q: "query_env_ok q" and ex: "executed q schema request es results"
    and w: "\<forall>(ord, r, stats) \<in> set es. written (qe_index q) schema r \<and> rd ord = r"
  defines "doc_of \<equiv> \<lambda>h. found_doc (qe_index q) (rd (sd_segment_ord h)) h"
    and "scored \<equiv> concat (map ss_scored_docs results)"
    and "live \<equiv> concat (map (\<lambda>(ord, r, stats). map snd (local_docs (qe_index q) r)) es)"
  shows "(\<forall>h \<in> set scored. \<exists>(ord, r, stats) \<in> set es. sd_segment_ord h = ord \<and>
      doc_at (qe_index q) r (sd_local_doc_id h) \<noteq> None) \<and>
    may_find (qe_text q) schema request live (map doc_of scored) (\<exists>res \<in> set results. ss_retrieval_mode res = OrFallback) \<and>
    sum_list (map ss_total_hits results) = word_of_nat (length scored) \<and>
    (\<forall>f v. sum_list (map (\<lambda>res. field_total (ss_aggregations res) f v) results) =
      word_of_nat (value_count schema request (map doc_of scored) f v))"
  using ex w unfolding scored_def live_def
proof (induction es arbitrary: results)
  case Nil
  then show ?case by (simp add: executed_def may_find_Nil value_count_append)
next
  case (Cons e es)
  obtain ord r stats where e: "e = (ord, r, stats)" by (cases e)
  obtain res rest where results: "results = res # rest"
    and ex: "execute q schema r stats ord request = Some res" "executed q schema request es rest"
    using Cons.prems(1) by (auto simp: executed_def e list_all2_Cons1)
  have w: "written (qe_index q) schema r" "rd ord = r" using Cons.prems(2) e by auto
  note docs = execute_docs [OF q w(1) ex(1)]
  have own: "map doc_of (ss_scored_docs res) = map (found_doc (qe_index q) r) (ss_scored_docs res)"
    using docs(1) w(2) by (simp add: doc_of_def)
  have "\<forall>(ord, r, stats) \<in> set es. written (qe_index q) schema r \<and> rd ord = r" using Cons.prems(2) by simp
  note IH = Cons.IH [OF ex(2) this]
  have IH': "may_find (qe_text q) schema request (concat (map (\<lambda>(ord, r, stats). map snd (local_docs (qe_index q) r)) es))
      (map doc_of (concat (map ss_scored_docs rest))) (\<exists>res \<in> set rest. ss_retrieval_mode res = OrFallback)"
    using IH by blast
  have here: "\<forall>h \<in> set (concat (map ss_scored_docs results)). \<exists>(ord, r, stats) \<in> set (e # es). sd_segment_ord h = ord \<and>
      doc_at (qe_index q) r (sd_local_doc_id h) \<noteq> None"
    using docs(1) conjunct1 [OF IH] unfolding results e by auto
  have may: "may_find (qe_text q) schema request
      (concat (map (\<lambda>(ord, r, stats). map snd (local_docs (qe_index q) r)) (e # es)))
      (map doc_of (concat (map ss_scored_docs results))) (\<exists>res \<in> set results. ss_retrieval_mode res = OrFallback)"
    using may_find_append [OF docs(2) IH'] by (simp add: results e own)
  have total: "sum_list (map ss_total_hits results) = word_of_nat (length (concat (map ss_scored_docs results)))"
    using IH docs(3) by (simp add: results)
  have "sum_list (map (\<lambda>res. field_total (ss_aggregations res) f v) results) =
      word_of_nat (value_count schema request (map doc_of (concat (map ss_scored_docs results))) f v)" for f v
    using IH docs(4) [of f v] by (simp add: results own value_count_append)
  then show ?case using here may total by blast
qed

lemma field_total_key:
  assumes "field_total m f v \<noteq> 0"
  shows "\<exists>cs. (f, cs) \<in> set m \<and> v \<in> fst ` set cs"
proof -
  have none: "count_total cs v = 0" if "v \<notin> fst ` set cs" for cs
    using that by (induction cs) (auto simp: count_total_def)
  have "field_total m f v = 0" if "\<forall>(f', cs) \<in> set m. f' = f \<longrightarrow> v \<notin> fst ` set cs"
    using that by (induction m) (auto simp: field_total_def none)
  then show ?thesis using assms by blast
qed

lemma to_buckets_values: "query_env_ok q \<Longrightarrow> bucket_value ` set (to_buckets q cs) = fst ` set cs"
proof -
  assume "query_env_ok q"
  then have "set (qe_bucket_order q cs) = set cs"
    by (intro mset_eq_setD) (simp add: query_env_ok_def)
  then show ?thesis by (force simp: to_buckets_def set_sort_by)
qed

text \<open>The buckets of an answer count the found documents.\<close>

definition buckets_count ::
  "index_schema \<Rightarrow> search_request \<Rightarrow> document list \<Rightarrow> (string \<times> aggregation_bucket list) list \<Rightarrow> bool" where
  "buckets_count schema request found aggs \<longleftrightarrow>
     distinct (map fst aggs) \<and>
     (\<forall>(f, buckets) \<in> set aggs. distinct (map bucket_value buckets) \<and>
        sorted_wrt (\<lambda>a b. bucket_count b \<le> bucket_count a) buckets \<and>
        (\<forall>b \<in> set buckets. bucket_count b = word_of_nat (value_count schema request found f (bucket_value b)))) \<and>
     (\<forall>f v. (word_of_nat (value_count schema request found f v) :: u64) \<noteq> 0 \<longrightarrow>
        (\<exists>(f', buckets) \<in> set aggs. f' = f \<and> v \<in> bucket_value ` set buckets))"

lemma fetch_hit_found:
  assumes "sd_segment_ord h < length segs"
    and "doc_at (qe_index q) (fst (segs ! sd_segment_ord h)) (sd_local_doc_id h) \<noteq> None"
  shows "fetch_hit q segs h = Some \<lparr>hit_id = d_id (found_doc (qe_index q) (fst (segs ! sd_segment_ord h)) h),
    hit_score = sd_score h, hit_document = Some (found_doc (qe_index q) (fst (segs ! sd_segment_ord h)) h)\<rparr>"
  using assms by (auto simp: fetch_hit_def found_doc_def)

lemma map_filter_all: "\<forall>x \<in> set xs. f x = Some (g x) \<Longrightarrow> List.map_filter f xs = map g xs"
  by (induction xs) (auto simp: List.map_filter_simps)

lemma multi_search_docs:
  assumes q: "query_env_ok q" and w: "\<forall>(r, stats) \<in> set segs. written (qe_index q) schema r"
  shows "\<exists>resp found. multi_search q schema segs request = Some resp \<and>
    may_find (qe_text q) schema request (concat (map (\<lambda>(r, stats). map snd (local_docs (qe_index q) r)) segs)) found
      (r_retrieval_mode resp = OrFallback) \<and>
    r_total_hits resp = word_of_nat (length found) \<and>
    map hit_document (r_hits resp) = map Some (page_of (q_offset request) (q_limit request) found) \<and>
    map hit_id (r_hits resp) = map d_id (page_of (q_offset request) (q_limit request) found) \<and>
    buckets_count schema request found (r_aggregations resp)"
proof -
  let ?es = "List.enumerate 0 segs" and ?rd = "\<lambda>ord. fst (segs ! ord)" and ?env = "qe_index q"
  have wes: "\<forall>(ord, r, stats) \<in> set ?es. written ?env schema r \<and> ?rd ord = r"
    using w by (force simp: in_set_enumerate_eq dest: nth_mem)
  then have "\<forall>(ord, r, stats) \<in> set ?es. reader_in_range ?env r"
    using written_in_range by blast
  from executed_exists [OF q this] obtain results where ex: "executed q schema request ?es results" by blast
  let ?scored = "concat (map ss_scored_docs results)" and ?f = "\<lambda>h. found_doc ?env (?rd (sd_segment_ord h)) h"
  note docs = executed_docs [OF q ex wes]
  have live: "concat (map (\<lambda>(ord, r, stats). map snd (local_docs ?env r)) ?es) =
      concat (map (\<lambda>(r, stats). map snd (local_docs ?env r)) segs)"
  proof -
    have "concat (map (\<lambda>(ord, r, stats). g r) (List.enumerate n xs)) = concat (map (\<lambda>(r, stats). g r) xs)"
      for g :: "segment_reader \<Rightarrow> document list" and n and xs :: "(segment_reader \<times> segment_statistics) list"
      by (induction xs arbitrary: n) auto
    then show ?thesis .
  qed
  have acc: "search_segments q schema request
      \<lparr>ac_scored = [], ac_total_hits = 0, ac_aggregations = [], ac_or_fallback = False\<rparr> ?es = Some (acc_of results)"
    using search_segments_executed [OF ex] by (simp add: acc_of_def)
  let ?ranking = "qe_usort q (doc_cmp (q_sort request)) ?scored"
  let ?page = "page_of (q_offset request) (q_limit request) ?ranking"
  have perm: "mset ?ranking = mset ?scored"
    using q by (intro sort_contract_mset) (simp add: query_env_ok_def)
  obtain resp where resp: "multi_search q schema segs request = Some resp"
    "r_hits resp = List.map_filter (fetch_hit q segs) ?page" "r_total_hits resp = sum_list (map ss_total_hits results)"
    "r_retrieval_mode resp = (if \<exists>res \<in> set results. ss_retrieval_mode res = OrFallback then OrFallback else AndMode)"
    by (simp add: multi_search_def acc acc_of_props Let_def collect_def page_of_def)
  have "set ?page \<subseteq> set ?scored"
    using set_take_subset set_drop_subset unfolding page_of_def mset_eq_setD [OF perm, symmetric] by (rule subset_trans)
  moreover have "fetch_hit q segs h = Some \<lparr>hit_id = d_id (?f h), hit_score = sd_score h, hit_document = Some (?f h)\<rparr>"
    if "h \<in> set ?scored" for h
    using docs that by (intro fetch_hit_found) (force simp: in_set_enumerate_eq)+
  ultimately have hits: "r_hits resp =
      map (\<lambda>h. \<lparr>hit_id = d_id (?f h), hit_score = sd_score h, hit_document = Some (?f h)\<rparr>) ?page"
    unfolding resp(2) by (intro map_filter_all) blast
  have page: "map ?f ?page = page_of (q_offset request) (q_limit request) (map ?f ?ranking)"
    by (simp add: page_of_def take_map drop_map)
  have perm_f: "mset (map ?f ?ranking) = mset (map ?f ?scored)" using perm by simp
  have found: "may_find (qe_text q) schema request (concat (map (\<lambda>(r, stats). map snd (local_docs ?env r)) segs))
      (map ?f ?ranking) (r_retrieval_mode resp = OrFallback)"
  proof -
    have "r_retrieval_mode resp = OrFallback \<longleftrightarrow> (\<exists>res \<in> set results. ss_retrieval_mode res = OrFallback)"
      by (simp add: resp(4))
    then show ?thesis using docs unfolding live may_find_mset [OF perm_f] by simp
  qed
  have count: "sum_list (map (\<lambda>res. field_total (ss_aggregations res) f v) results) =
      word_of_nat (value_count schema request (map ?f ?ranking) f v)" for f v
  proof -
    have len: "length (filter P (map ?f ?ranking)) = length (filter P (map ?f ?scored))" for P
      by (rule mset_eq_length) (simp only: mset_filter perm_f)
    have "value_count schema request (map ?f ?ranking) f v = value_count schema request (map ?f ?scored) f v"
      unfolding value_count_def len by (rule refl)
    moreover have "sum_list (map (\<lambda>res. field_total (ss_aggregations res) f v) results) =
        word_of_nat (value_count schema request (map ?f ?scored) f v)"
      using docs by blast
    ultimately show ?thesis by (simp only:)
  qed
  note aggs = multi_search_aggregations [OF q ex resp(1)]
  have "\<exists>(f', buckets) \<in> set (r_aggregations resp). f' = f \<and> v \<in> bucket_value ` set buckets"
    if "(word_of_nat (value_count schema request (map ?f ?ranking) f v) :: u64) \<noteq> 0" for f v
  proof -
    let ?m = "ac_aggregations (acc_of results)"
    have "field_total ?m f v \<noteq> 0" using that by (simp add: acc_of_aggregations(1) count)
    then obtain cs where cs: "(f, cs) \<in> set ?m" "v \<in> fst ` set cs" using field_total_key by blast
    have "r_aggregations resp = map (\<lambda>(field, cs). (field, to_buckets q cs)) (qe_field_order q ?m)"
      using resp(1) by (auto simp: multi_search_def acc Let_def)
    moreover have "set (qe_field_order q ?m) = set ?m"
      using q by (intro mset_eq_setD) (simp add: query_env_ok_def)
    ultimately have "(f, to_buckets q cs) \<in> set (r_aggregations resp)"
      using cs(1) imageI [of "(f, cs)" "set ?m" "\<lambda>(field, cs). (field, to_buckets q cs)"] by simp
    then show ?thesis
      using cs(2) by (intro bexI [of _ "(f, to_buckets q cs)"]) (simp_all add: to_buckets_values [OF q])
  qed
  then have "buckets_count schema request (map ?f ?ranking) (r_aggregations resp)"
    using aggs unfolding buckets_count_def count [symmetric] by (intro conjI) blast+
  moreover have "length (map ?f ?ranking) = length ?scored"
    using perm by (metis length_map size_mset)
  ultimately show ?thesis
    using resp(1,3) found docs
    by (intro exI [of _ resp] exI [of _ "map ?f ?ranking"]) (simp add: hits page [symmetric] comp_def)
qed

section \<open>The buffer of a shard\<close>

text \<open>In every state that a shard reaches, the temporary segment of the buffer is current.\<close>

abbreviation buffer_ok :: "shard_env \<Rightarrow> shard \<Rightarrow> bool" where
  "buffer_ok sv sh \<equiv> wb_ok (sv_index sv) (sv_schema sv) (sh_buffer sh)"

lemma op_keeps_zoom: "(\<And>s t r. P s \<Longrightarrow> m (get s) = Some (r, t) \<Longrightarrow> P (upd (\<lambda>_. t) s)) \<Longrightarrow> op_keeps P (op_zoom get upd m)"
  by (auto simp: op_keeps_def op_zoom_def split: option.splits)

lemma wb_ok_add_all: "wb_ok env schema b \<Longrightarrow> wb_ok env schema (snd (add_all docs full b))"
  by (induction docs full b rule: add_all.induct) (simp_all add: wb_add_def wb_ok_def Let_def)

lemma op_state_buffer:
  "(\<And>b. wb_ok env schema b \<Longrightarrow> wb_ok env schema (snd (f b))) \<Longrightarrow> op_state f b = Some (r, b') \<Longrightarrow>
     wb_ok env schema b \<Longrightarrow> wb_ok env schema b'"
  by (force simp: op_state_def split: prod.splits)

lemma buffer_kept [wf_intros]:
  "op_keeps (buffer_ok sv) (on_wal m)" "op_keeps (buffer_ok sv) (on_segments m')"
  "op_keeps (buffer_ok sv) (on_buffer (op_state wb_drain))"
  "op_keeps (buffer_ok sv) (on_buffer (op_state (wb_add doc)))"
  "op_keeps (buffer_ok sv) (on_buffer (op_state (add_all docs full)))"
  "op_keeps (buffer_ok sv) (on_buffer (op_modify (wb_mark_deleted i)))"
  "op_keeps (buffer_ok sv) (replicate_entry seq entry)"
proof -
  show "op_keeps (buffer_ok sv) (on_buffer (op_state wb_drain))"
    by (rule op_keeps_zoom) (simp add: op_state_buffer [OF wb_ok_drain])
  show "op_keeps (buffer_ok sv) (on_buffer (op_state (wb_add doc)))"
    by (rule op_keeps_zoom) (simp add: op_state_buffer [OF wb_ok_add])
  show "op_keeps (buffer_ok sv) (on_buffer (op_state (add_all docs full)))"
    by (rule op_keeps_zoom) (auto intro: op_state_buffer [OF wb_ok_add_all])
qed (auto intro!: op_keeps_zoom op_keeps_modify wb_ok_mark_deleted simp: replicate_entry_def)

lemma flush_buffer: "op_keeps (buffer_ok sv) (flush sv)" "op_keeps (buffer_ok sv) (flush_if sv full)"
proof -
  show f: "op_keeps (buffer_ok sv) (flush sv)"
    by (auto simp: flush_def split: prod.split intro!: wf_intros op_keeps_if)
  show "op_keeps (buffer_ok sv) (flush_if sv full)"
    using f by (simp add: flush_if_def op_keeps_basic)
qed

lemma write_buffer_kept:
  "op_keeps (buffer_ok sv) (shard_index sv doc)" "op_keeps (buffer_ok sv) (shard_index_batch sv docs)"
  "op_keeps (buffer_ok sv) (shard_delete sv i)" "op_keeps (buffer_ok sv) (reindex_self sv)"
  unfolding shard_index_def shard_index_batch_def shard_delete_def reindex_self_def
  by (intro op_keeps_bind flush_buffer wf_intros op_keeps_if; simp add: case_prod_beta wf_intros)+

lemma replay_buffer:
  "replay env es (b, sl) = Some (b', sl') \<Longrightarrow> wb_ok env schema b \<Longrightarrow> wb_ok env schema b'"
proof (induction env es "(b, sl)" arbitrary: b sl rule: replay.induct)
  case (3 env i entries b sl)
  then show ?case by (simp split: option.splits prod.splits) (metis wb_ok_mark_deleted)
qed (auto intro: wf_intros)

lemma open_buffer:
  assumes "shard_open sv connect wal disk = Some sh" "sc_role (sv_config sv) = Primary"
  shows "buffer_ok sv sh"
  using assms replay_buffer [of "sv_index sv" _ "wb_new _"]
  by (fastforce simp: shard_open_def Let_def intro: wf_intros split: option.splits)

lemma search_buffer:
  assumes "buffer_ok sv sh" "shard_room sv sh []" "shard_search sv request sh = Some (r, sh')"
  shows "buffer_ok sv sh'"
proof -
  obtain b' where b': "reader_and_stats (sv_index sv) (sv_schema sv) (sh_buffer sh) =
      Some (Inr (map_option (\<lambda>r. (r, stats_compute (sv_index sv) r (sv_schema sv)))
        (buffer_segment (sv_index sv) (sv_schema sv) (sh_buffer sh))), b')"
    "wb_ok (sv_index sv) (sv_schema sv) b'"
    using reader_and_stats_run [OF shard_room_buffer [OF assms(2)] assms(1)] by blast
  then have "sh' = sh\<lparr>sh_buffer := b'\<rparr>"
    using assms(3) by (auto simp: shard_search_def op_bind_def op_zoom_def op_option_def split: option.splits)
  then show ?thesis using b'(2) by simp
qed

lemma shard_run_buffer:
  assumes "shard_run sv connect h sh" "sc_role (sv_config sv) = Primary"
  shows "buffer_ok sv sh"
  using assms
  by (induction rule: shard_run.induct)
    (blast intro: open_buffer search_buffer op_keepsD [OF write_buffer_kept(1)] op_keepsD [OF write_buffer_kept(2)]
      op_keepsD [OF write_buffer_kept(3)] op_keepsD [OF write_buffer_kept(4)] op_keepsD [OF flush_buffer(1)])+

section \<open>Searching a shard\<close>

lemma stored_written: "seg_stored env schema gone disk e \<Longrightarrow> written env schema (se_reader e)"
  unfolding seg_stored_def dir_holds_def written_def by blast

lemma shard_search_docs:
  assumes run: "shard_run sv connect h sh" and role: "sc_role (sv_config sv) = Primary"
    and q: "query_env_ok (sv_query sv)" and room: "shard_room sv sh []"
  shows "\<exists>resp sh' found. shard_search sv request sh = Some (Inr resp, sh') \<and>
    may_find (qe_text (sv_query sv)) (sv_schema sv) request (get_all_live_docs sv sh) found
      (r_retrieval_mode resp = OrFallback) \<and>
    r_total_hits resp = word_of_nat (length found) \<and>
    map hit_document (r_hits resp) = map Some (page_of (q_offset request) (q_limit request) found) \<and>
    map hit_id (r_hits resp) = map d_id (page_of (q_offset request) (q_limit request) found) \<and>
    buckets_count (sv_schema sv) request found (r_aggregations resp)"
proof -
  let ?env = "sv_index sv" and ?sc = "sv_schema sv" and ?b = "sh_buffer sh" and ?es = "sl_segments (sh_segments sh)"
  obtain b' where b': "reader_and_stats ?env ?sc ?b =
      Some (Inr (map_option (\<lambda>r. (r, stats_compute ?env r ?sc)) (buffer_segment ?env ?sc ?b)), b')"
    using reader_and_stats_run [OF shard_room_buffer [OF room] shard_run_buffer [OF run role]] by blast
  let ?buf = "case map_option (\<lambda>r. (r, stats_compute ?env r ?sc)) (buffer_segment ?env ?sc ?b) of
    None \<Rightarrow> [] | Some rs \<Rightarrow> [rs]"
  have "segs_ok ?env ?sc (deleted_ids h) (sh_segments sh)"
    using shard_run_ok [OF run role] by (simp add: shard_ok_def)
  then have st: "\<forall>e \<in> set ?es. \<exists>gone disk. seg_stored ?env ?sc gone disk e"
    using segs_okD(2) by blast
  have fit: "wb_all_docs ?b \<noteq> [] \<Longrightarrow> segment_fits ?env ?sc ''buffer'' (wb_all_docs ?b)"
    using shard_room_buffer [OF room] by (simp add: buffer_fits_def)
  have "\<forall>(r, stats) \<in> set (readers (sh_segments sh) @ ?buf). written ?env ?sc r"
    using st stored_written fit by (auto simp: readers_def buffer_segment_def written_def)
  note docs = multi_search_docs [OF q this, of request]
  have "concat (map (\<lambda>(r, stats). map snd (local_docs ?env r)) (readers (sh_segments sh) @ ?buf)) =
      get_all_live_docs sv sh"
    using live_docs_stored [OF st] local_docs_segment_of [OF fit]
    by (simp add: get_all_live_docs_def merged_docs_def readers_def comp_def buffer_segment_def)
  then show ?thesis
    using docs
    by (auto simp: shard_search_def op_bind_def op_zoom_def op_option_def b' simp del: map_eq_conv)
qed

section \<open>Properties\<close>



end
