(* ===== verification/ServerSearch.thy ===== *)
theory ServerSearch
  imports Cluster ShardSearch
begin

text \<open>
  A search through the router of a standalone server (\<open>search\<close> in \<open>crates/router/src/router.rs\<close> over the
  shards of \<open>crates/server/src/main.rs\<close>), in terms of the documents that were indexed.
\<close>

section \<open>What a shard answers\<close>

text \<open>The answer of a shard to the router, for the live documents of the shard.\<close>

definition shard_answers ::
  "text_env \<Rightarrow> index_schema \<Rightarrow> search_request \<Rightarrow> document list \<Rightarrow> document list \<Rightarrow> shard_search_result \<Rightarrow> bool" where
  "shard_answers env schema request live found res \<longleftrightarrow>
     may_find env schema request live found (sres_used_or_fallback res) \<and>
     sres_total_hits res = word_of_nat (length found) \<and>
     map fst (sres_hits res) = map d_id (page_of (q_offset request) (q_limit request) found) \<and>
     (\<forall>f v. field_total (sres_aggregations res) f v = word_of_nat (value_count schema request found f v))"

lemma buckets_total:
  assumes "buckets_count schema request found aggs"
  shows "field_total (map (\<lambda>(field, buckets). (field, map (\<lambda>b. (bucket_value b, bucket_count b)) buckets)) aggs) f v =
    word_of_nat (value_count schema request found f v)"
proof -
  let ?m = "map (\<lambda>(field, buckets). (field, map (\<lambda>b. (bucket_value b, bucket_count b)) buckets)) aggs"
  have d: "distinct (map fst ?m)"
    using assms by (simp add: buckets_count_def case_prod_beta comp_def)
  show ?thesis
  proof (cases "field_total ?m f v = 0 \<and> (word_of_nat (value_count schema request found f v) :: u64) = 0")
    case True
    then show ?thesis by simp
  next
    case False
    have "\<exists>buckets. (f, buckets) \<in> set aggs \<and> v \<in> bucket_value ` set buckets"
    proof (cases "field_total ?m f v = 0")
      case True
      then have "(word_of_nat (value_count schema request found f v) :: u64) \<noteq> 0" using False by simp
      then have "\<exists>(f', buckets) \<in> set aggs. f' = f \<and> v \<in> bucket_value ` set buckets"
        using assms unfolding buckets_count_def by blast
      then show ?thesis by blast
    next
      case False
      then show ?thesis using field_total_key [OF False] by force
    qed
    then obtain buckets b where b: "(f, buckets) \<in> set aggs" "b \<in> set buckets" "v = bucket_value b" by blast
    let ?cs = "map (\<lambda>b. (bucket_value b, bucket_count b)) buckets"
    have dc: "distinct (map fst ?cs)" and cnt: "bucket_count b = word_of_nat (value_count schema request found f v)"
      using assms b unfolding buckets_count_def by (force simp: comp_def)+
    have "(f, ?cs) \<in> set ?m" using b(1) by force
    then have "field_total ?m f v = count_total ?cs v" by (rule field_total_mem [OF d])
    also have "\<dots> = bucket_count b" using b by (intro count_total_mem [OF dc]) force
    finally show ?thesis using cnt by simp
  qed
qed

lemma shard_answers_local:
  assumes "may_find env schema request live found (r_retrieval_mode resp = OrFallback)"
    and "r_total_hits resp = word_of_nat (length found)"
    and "map hit_id (r_hits resp) = map d_id (page_of (q_offset request) (q_limit request) found)"
    and "buckets_count schema request found (r_aggregations resp)"
  shows "shard_answers env schema request live found (local_result resp)"
  using assms buckets_total [OF assms(4)]
  by (simp add: shard_answers_def local_result_def comp_def)

text \<open>Joining the answers of several shards.\<close>

lemma answers_join:
  assumes "list_all2 (\<lambda>k res. \<exists>found. shard_answers env schema request (live k) found res) ks ress"
  shows "\<exists>founds. list_all2 (\<lambda>res found. map fst (sres_hits res) = map d_id (page_of (q_offset request) (q_limit request) found))
      ress founds \<and>
    may_find env schema request (concat (map live ks)) (concat founds) (\<exists>res \<in> set ress. sres_used_or_fallback res) \<and>
    sum_list (map sres_total_hits ress) = word_of_nat (length (concat founds)) \<and>
    (\<forall>f v. sum_list (map (\<lambda>res. field_total (sres_aggregations res) f v) ress) =
       word_of_nat (value_count schema request (concat founds) f v))"
  using assms
proof (induction rule: list_all2_induct)
  case Nil
  show ?case by (intro exI [of _ "[]"]) (simp add: may_find_Nil value_count_append)
next
  case (Cons k ks res ress)
  obtain found where here: "shard_answers env schema request (live k) found res" using Cons.hyps(1) by blast
  obtain founds where IH: "list_all2 (\<lambda>res found. map fst (sres_hits res) = map d_id (page_of (q_offset request) (q_limit request) found))
      ress founds"
    "may_find env schema request (concat (map live ks)) (concat founds) (\<exists>res \<in> set ress. sres_used_or_fallback res)"
    "sum_list (map sres_total_hits ress) = word_of_nat (length (concat founds))"
    "\<forall>f v. sum_list (map (\<lambda>res. field_total (sres_aggregations res) f v) ress) =
       word_of_nat (value_count schema request (concat founds) f v)"
    using Cons.IH by blast
  have "may_find env schema request (live k @ concat (map live ks)) (found @ concat founds)
      (sres_used_or_fallback res \<or> (\<exists>res \<in> set ress. sres_used_or_fallback res))"
    using here by (intro may_find_append IH(2)) (simp add: shard_answers_def)
  then show ?case
    using here IH by (intro exI [of _ "found # founds"]) (simp add: shard_answers_def value_count_append)
qed

section \<open>Asking every shard\<close>

text \<open>Two worlds whose shards have the same content.\<close>

definition same_content :: "'n standalone \<Rightarrow> 'n standalone \<Rightarrow> bool" where
  "same_content w w' \<longleftrightarrow> (\<forall>k. sh_segments (sd_shards w' k) = sh_segments (sd_shards w k) \<and>
     wb_docs (sh_buffer (sd_shards w' k)) = wb_docs (sh_buffer (sd_shards w k)) \<and>
     wb_deleted (sh_buffer (sd_shards w' k)) = wb_deleted (sh_buffer (sd_shards w k)))"

lemma same_content_refl [simp]: "same_content w w"
  by (simp add: same_content_def)

lemma same_content_trans: "same_content w w1 \<Longrightarrow> same_content w1 w2 \<Longrightarrow> same_content w w2"
  by (simp add: same_content_def)

lemma same_contentD:
  assumes "same_content w w'"
  shows "get_all_live_docs sv (sd_shards w' k) = get_all_live_docs sv (sd_shards w k)"
    and "shard_get_docs sv ids (sd_shards w' k) = shard_get_docs sv ids (sd_shards w k)"
    and "shard_docs sv (sd_shards w' k) = shard_docs sv (sd_shards w k)"
proof -
  have "sh_segments (sd_shards w' k) = sh_segments (sd_shards w k)"
    "wb_docs (sh_buffer (sd_shards w' k)) = wb_docs (sh_buffer (sd_shards w k))"
    "wb_deleted (sh_buffer (sd_shards w' k)) = wb_deleted (sh_buffer (sd_shards w k))"
    using assms unfolding same_content_def by blast+
  then show "get_all_live_docs sv (sd_shards w' k) = get_all_live_docs sv (sd_shards w k)"
    and "shard_get_docs sv ids (sd_shards w' k) = shard_get_docs sv ids (sd_shards w k)"
    and "shard_docs sv (sd_shards w' k) = shard_docs sv (sd_shards w k)"
    unfolding get_all_live_docs_def wb_all_docs_def shard_get_docs_def shard_docs_def by (simp_all only:)
qed

lemma join_calls_run:
  assumes "\<And>x s. x \<in> set xs \<Longrightarrow> P s \<Longrightarrow> \<exists>r s'. f x s = Some (r, s') \<and> P s' \<and> Q x r" "P s"
  shows "\<exists>rs s'. join_calls f xs s = Some (rs, s') \<and> P s' \<and> list_all2 Q xs rs"
proof -
  obtain rs s' where run: "join_calls f xs s = Some (rs, s')"
    using join_calls_returns [of xs P f s] assms by blast
  have "P s1' \<and> Q x r1" if "x \<in> set xs" "P s1" "f x s1 = Some (r1, s1')" for x s1 r1 s1'
    using assms(1) [OF that(1,2)] that(3) by auto
  from join_calls_keeps [where P = P and Q = Q, OF this run assms(2)] have "P s' \<and> list_all2 Q xs rs" .
  then show ?thesis using run by blast
qed

lemma search_call:
  assumes i: "i < shard_count config" and role: "sc_role (cfg_shard config) = Primary"
    and q: "query_env_ok (sv_query base)" and ok: "server_readable base connect config h w"
  shows "\<exists>res w'. c_search (standalone_client base config i) req w = Some (Inr res, w') \<and>
    server_readable base connect config h w' \<and> same_content w w' \<and>
    (\<exists>found. shard_answers (qe_text (sv_query base)) default_product_schema req
       (get_all_live_docs (shard_env_of base config i) (sd_shards w i)) found res)"
proof -
  let ?sv = "shard_env_of base config i" and ?sh = "sd_shards w i"
  have sv: "sv_schema ?sv = default_product_schema" "sv_query ?sv = sv_query base" "sc_role (sv_config ?sv) = Primary"
    using role by (simp_all add: shard_env_of_def standalone_env_def standalone_config_def)
  have srun: "shard_run ?sv connect (own_entries config i h) ?sh" and room: "shard_room ?sv ?sh []"
    using ok server_okD [OF _ i] server_room_one [OF _ i] by (auto simp: server_readable_def)
  have q': "query_env_ok (sv_query ?sv)" using q by (simp add: sv)
  obtain resp sh' found where
    s: "shard_search ?sv req ?sh = Some (Inr resp, sh')"
    "may_find (qe_text (sv_query base)) default_product_schema req (get_all_live_docs ?sv ?sh) found
      (r_retrieval_mode resp = OrFallback)"
    "r_total_hits resp = word_of_nat (length found)"
    "map hit_id (r_hits resp) = map d_id (page_of (q_offset req) (q_limit req) found)"
    "buckets_count default_product_schema req found (r_aggregations resp)"
    using shard_search_docs [OF srun sv(3) q' room, of req, unfolded sv]
    by (elim exE conjE) (rule that; assumption)
  have run: "c_search (standalone_client base config i) req w = Some (Inr (local_result resp), upd_shard i (\<lambda>_. sh') w)"
  proof -
    have "op_zoom (shard_at i) (upd_shard i) (shard_search ?sv req) w = Some (Inr resp, upd_shard i (\<lambda>_. sh') w)"
      by (rule shard_cell.zoom_put) (simp add: shard_at_def s(1))
    then show ?thesis by (simp add: standalone_client_def local_shard_client_def op_bind_def)
  qed
  have same: "same_content w (upd_shard i (\<lambda>_. sh') w)"
  proof -
    obtain b where b: "sh' = ?sh\<lparr>sh_buffer := b\<rparr>" "wb_docs b = wb_docs (sh_buffer ?sh)"
      "wb_deleted b = wb_deleted (sh_buffer ?sh)"
      using shard_search_state [OF s(1)] by blast
    then show ?thesis unfolding same_content_def by (simp add: upd_shard_def)
  qed
  show ?thesis
    by (intro exI conjI) (rule run op_keepsD [OF search_keeps_readable [OF i] ok run] same shard_answers_local [OF s(2,3,4,5)])+
qed

lemma standalone_targets:
  assumes ro: "standalone_ok libs base sg config ro" and ks: "\<forall>k \<in> set ks. k < shard_count config"
    and picked: "pick_targets ro ks rs = (clients, rs')"
  shows "clients = map (standalone_client base config) ks \<and> rs_world rs' = rs_world rs"
proof -
  note p = pick_targets_spec [OF picked]
  have "clients ! j = standalone_client base config (ks ! j)" if j: "j < length ks" for j
  proof -
    have "clients ! j \<in> set (endpoints (ro_shards ro ! (ks ! j)))"
      using p j by (simp add: list_all2_conv_all_nth)
    moreover have "ks ! j < shard_count config" using ks j by simp
    ultimately show ?thesis using standalone_okD(3) [OF ro] by (simp add: primary_only_def endpoints_def)
  qed
  moreover have "length clients = length ks" using p by (auto dest: list_all2_lengthD)
  ultimately show ?thesis using p by (auto intro: nth_equalityI)
qed

text \<open>Scattering a search, when no deadline strikes.\<close>

lemma standalone_scatter:
  assumes ro: "standalone_ok libs base sg config ro" and role: "sc_role (cfg_shard config) = Primary"
    and q: "query_env_ok (sv_query base)" and ok: "server_readable base connect config h (rs_world rs)"
    and intime: "\<forall>ms w. rv_deadline env ms w = None"
  shows "\<exists>ress rs'. scatter env ro request rs = Some (map Inr ress, rs') \<and>
    server_readable base connect config h (rs_world rs') \<and> same_content (rs_world rs) (rs_world rs') \<and>
    list_all2 (\<lambda>k res. \<exists>found. shard_answers (qe_text (sv_query base)) default_product_schema (scatter_request ro request)
        (get_all_live_docs (shard_env_of base config k) (sd_shards (rs_world rs) k)) found res)
      [0..<shard_count config] ress"
proof -
  let ?n = "shard_count config" and ?w = "rs_world rs" and ?req = "scatter_request ro request"
  let ?spec = "\<lambda>k res. \<exists>found. shard_answers (qe_text (sv_query base)) default_product_schema ?req
    (get_all_live_docs (shard_env_of base config k) (sd_shards ?w k)) found res"
  let ?call = "\<lambda>client w. map_option (\<lambda>(r, w'). (case r of None \<Rightarrow> Inl (ShardError ''shard query timeout'') | Some r \<Rightarrow> r, w'))
    (with_timeout (rv_deadline env) (ro_query_timeout ro) (c_search client ?req) w)"
  let ?P = "\<lambda>w. server_readable base connect config h w \<and> same_content ?w w"
  obtain clients rs1 where p: "pick_targets ro [0..<?n] rs = (clients, rs1)" by (cases "pick_targets ro [0..<?n] rs")
  have clients: "clients = map (standalone_client base config) [0..<?n]" and w1: "rs_world rs1 = ?w"
    using standalone_targets [OF ro _ p] by simp_all
  have step: "\<exists>r w'. ?call (standalone_client base config k) w = Some (r, w') \<and> ?P w' \<and> (\<exists>res. r = Inr res \<and> ?spec k res)"
    if "k \<in> set [0..<?n]" and P: "?P w" for k w
  proof -
    have k: "k < ?n" using that(1) by simp
    obtain res w' found where c: "c_search (standalone_client base config k) ?req w = Some (Inr res, w')"
      "server_readable base connect config h w'" "same_content w w'"
      "shard_answers (qe_text (sv_query base)) default_product_schema ?req
         (get_all_live_docs (shard_env_of base config k) (sd_shards w k)) found res"
      using search_call [OF k role q, of connect h w ?req] P by blast
    have "?call (standalone_client base config k) w = Some (Inr res, w')"
      using c(1) intime by (simp add: with_timeout_def)
    moreover have "same_content ?w w'" using P c(3) same_content_trans by blast
    moreover have "?spec k res" using c(4) P same_contentD(1) by metis
    ultimately show ?thesis using c(2) by blast
  qed
  have "\<exists>results w'. join_calls (\<lambda>k. ?call (standalone_client base config k)) [0..<?n] ?w = Some (results, w') \<and>
    ?P w' \<and> list_all2 (\<lambda>k r. \<exists>res. r = Inr res \<and> ?spec k res) [0..<?n] results"
    by (rule join_calls_run [where P = ?P]) (rule step, assumption, assumption, simp add: ok)
  then obtain results w' where run: "join_calls (\<lambda>k. ?call (standalone_client base config k)) [0..<?n] ?w = Some (results, w')"
    "?P w'" "list_all2 (\<lambda>k r. \<exists>res. r = Inr res \<and> ?spec k res) [0..<?n] results" by blast
  have "list_all2 (\<lambda>k r. \<exists>res. r = Inr res \<and> S k res) ks rs \<Longrightarrow> \<exists>ress. rs = map Inr ress \<and> list_all2 S ks ress"
    for S :: "nat \<Rightarrow> shard_search_result \<Rightarrow> bool" and ks and rs :: "(error + shard_search_result) list"
    by (induction rule: list_all2_induct) (force intro: exI [of _ "_ # _"])+
  from this [OF run(3)] obtain ress where ress: "results = map Inr ress" "list_all2 ?spec [0..<?n] ress" by blast
  have "scatter env ro request rs = Some (map Inr ress, rs1\<lparr>rs_world := w'\<rparr>)"
    unfolding scatter_def standalone_okD(1) [OF ro] p Let_def prod.case clients w1 join_calls_map run(1) ress(1) by simp
  then show ?thesis using run(2) ress(2) by (intro exI [of _ ress] exI [of _ "rs1\<lparr>rs_world := w'\<rparr>"]) simp
qed

section \<open>Fetching the documents\<close>

lemma shard_get_docs_mem: "d \<in> set (shard_get_docs sv ids sh) \<longleftrightarrow> (\<exists>i \<in> set ids. d \<in> set (shard_get_docs sv [i] sh))"
  unfolding shard_get_docs_def in_map_filter by (simp only: list.set bex_simps HOL.simp_thms)

text \<open>What the shards hold under an id, and what a lookup finds there.\<close>

lemma shard_ok_get:
  assumes ok: "shard_ok sv h sh" and d: "d \<in> set (shard_get_docs sv [i] sh)"
  shows "d_id d = i \<and> d \<in> set (indexed_docs h)"
proof -
  have segs: "segs_ok (sv_index sv) (sv_schema sv) (deleted_ids h) (sh_segments sh)"
    and held: "set (shard_docs sv sh) \<subseteq> set (indexed_docs h)"
    using ok by (simp_all add: shard_ok_def)
  have st: "\<forall>e \<in> set (sl_segments (sh_segments sh)). \<exists>gone disk. seg_stored (sv_index sv) (sv_schema sv) gone disk e"
    using segs_okD(2) [OF segs] by blast
  have "sl_get_doc (sv_index sv) (sh_segments sh) i \<noteq> None \<or> (\<exists>d \<in> set (wb_docs (sh_buffer sh)). d_id d = i)"
    using d find_Some_mem by (fastforce simp: shard_get_docs_def List.map_filter_def split: if_splits option.splits)
  from get_docs_some [OF segs_okD(1) [OF segs] this st] show ?thesis using d held by auto
qed

lemma join_calls_pure: "(\<forall>x \<in> set xs. f x w = Some (r x, w)) \<Longrightarrow> join_calls f xs w = Some (map r xs, w)"
  by (induction xs) auto

lemma standalone_docs: "docs_or_default ids (standalone_client base config k) w =
    Some (shard_get_docs (shard_env_of base config k) ids (sd_shards w k), w)"
  by (simp add: docs_or_default_def standalone_client_def local_shard_client_def shard_cell.zoom_get shard_at_def)

lemma standalone_fetch_all:
  assumes ro: "standalone_ok libs base sg config ro" and home: "\<forall>i \<in> set ids. home config i < shard_count config"
  shows "\<exists>docs rs'. fetch_docs ro ids rs = Some (docs, rs') \<and> rs_world rs' = rs_world rs \<and>
    set docs = (\<Union>i \<in> set ids. set (shard_get_docs (shard_env_of base config (home config i)) [i]
      (sd_shards (rs_world rs) (home config i))))"
proof (cases "ids = []")
  case True
  then show ?thesis by (simp add: fetch_docs_def)
next
  case False
  let ?n = "shard_count config" and ?w = "rs_world rs"
  let ?own = "\<lambda>k. filter (\<lambda>i. home config i = k) ids" and ?sv = "shard_env_of base config"
  note len = standalone_okD(1) [OF ro]
  have fn: "shard_for ro = home config" using standalone_okD(2) [OF ro] by (rule ext)
  have parts: "partition_by (length (ro_shards ro)) (shard_for ro) ids = Some (map ?own [0..<?n])"
    using home by (simp add: partition_by_def len fn list_all_iff)
  let ?ks = "filter (\<lambda>k. ?own k \<noteq> []) [0..<?n]"
  have groups: "filter (\<lambda>(idx, ids). ids \<noteq> []) (List.enumerate 0 (map ?own [0..<?n])) = map (\<lambda>k. (k, ?own k)) ?ks"
    by (simp add: enumerate_eq_zip zip_map2 zip_same_conv_map filter_map comp_def)
  obtain clients rs1 where p: "pick_targets ro ?ks rs = (clients, rs1)" by (cases "pick_targets ro ?ks rs")
  have clients: "clients = map (standalone_client base config) ?ks" and w1: "rs_world rs1 = ?w"
    using standalone_targets [OF ro _ p] by auto
  have "join_calls (\<lambda>(ids, client). docs_or_default ids client) (map (\<lambda>k. (?own k, standalone_client base config k)) ?ks) ?w =
      Some (map (\<lambda>k. shard_get_docs (?sv k) (?own k) (sd_shards ?w k)) ?ks, ?w)"
    unfolding join_calls_map by (rule join_calls_pure) (simp add: standalone_docs)
  then have "fetch_docs ro ids rs =
      Some (concat (map (\<lambda>k. shard_get_docs (?sv k) (?own k) (sd_shards ?w k)) ?ks), rs1\<lparr>rs_world := ?w\<rparr>)"
    using False by (simp add: fetch_docs_def parts groups p clients w1 comp_def zip_map_map zip_same_conv_map del: filter_map)
  moreover have "set (concat (map (\<lambda>k. shard_get_docs (?sv k) (?own k) (sd_shards ?w k)) ?ks)) =
      (\<Union>i \<in> set ids. set (shard_get_docs (?sv (home config i)) [i] (sd_shards ?w (home config i))))"
  proof -
    have "(\<exists>k \<in> set ?ks. d \<in> set (shard_get_docs (?sv k) (?own k) (sd_shards ?w k))) \<longleftrightarrow>
        (\<exists>i \<in> set ids. d \<in> set (shard_get_docs (?sv (home config i)) [i] (sd_shards ?w (home config i))))" for d
    proof
      assume "\<exists>k \<in> set ?ks. d \<in> set (shard_get_docs (?sv k) (?own k) (sd_shards ?w k))"
      then obtain k where "d \<in> set (shard_get_docs (?sv k) (?own k) (sd_shards ?w k))" by blast
      then obtain i where "i \<in> set (?own k)" "d \<in> set (shard_get_docs (?sv k) [i] (sd_shards ?w k))"
        by (auto simp only: shard_get_docs_mem [of _ _ "?own k"])
      then show "\<exists>i \<in> set ids. d \<in> set (shard_get_docs (?sv (home config i)) [i] (sd_shards ?w (home config i)))" by auto
    next
      assume "\<exists>i \<in> set ids. d \<in> set (shard_get_docs (?sv (home config i)) [i] (sd_shards ?w (home config i)))"
      then obtain i where i: "i \<in> set ids" "d \<in> set (shard_get_docs (?sv (home config i)) [i] (sd_shards ?w (home config i)))" by blast
      then have "i \<in> set (?own (home config i))" by simp
      then have "d \<in> set (shard_get_docs (?sv (home config i)) (?own (home config i)) (sd_shards ?w (home config i)))"
        using i(2) unfolding shard_get_docs_mem [of _ _ "?own (home config i)"] by blast
      moreover have "home config i \<in> set ?ks" using i(1) home by (auto simp: filter_empty_conv)
      ultimately show "\<exists>k \<in> set ?ks. d \<in> set (shard_get_docs (?sv k) (?own k) (sd_shards ?w k))" by blast
    qed
    then have "(\<Union>k \<in> set ?ks. set (shard_get_docs (?sv k) (?own k) (sd_shards ?w k))) =
        (\<Union>i \<in> set ids. set (shard_get_docs (?sv (home config i)) [i] (sd_shards ?w (home config i))))"
      by (intro set_eqI) (simp only: UN_iff)
    then show ?thesis by (simp only: set_concat set_map image_image)
  qed
  ultimately show ?thesis by - (intro exI conjI, assumption, simp, assumption)
qed

lemma doc_map_Some: "doc_map docs i = Some d \<Longrightarrow> d \<in> set docs \<and> d_id d = i"
  by (induction docs rule: rev_induct) (auto simp: doc_map_def split: if_splits)

lemma doc_map_None: "doc_map docs i = None \<longleftrightarrow> i \<notin> d_id ` set docs"
  by (induction docs rule: rev_induct) (auto simp: doc_map_def)

section \<open>The answer\<close>

text \<open>The candidates whose documents were found, when the ranker keeps them as they are.\<close>

lemma noop_ranking:
  assumes "ro_ranker ro = noop_rank" "\<forall>ms w. rv_deadline env ms w = None"
  shows "\<exists>reranked. rank_hits env ro query docs hits w = Some ((filter (\<lambda>(i, _). docs i \<noteq> None) hits, reranked), w)"
proof (cases "hits = []")
  case False
  then show ?thesis
    using assms bm25_order_candidates [of docs hits]
    by (intro exI [of _ True]) (simp add: rank_hits_def rerank_with_fallback_def with_timeout_def noop_rank_def)
next
  case True
  then show ?thesis by (intro exI [of _ False]) (simp add: rank_hits_def)
qed

lemma filter_available_noop: "ro_availability ro = noop_strategy \<Longrightarrow> filter_available ro zone docs hits w = (hits, w)"
  by (simp add: filter_available_def noop_strategy_def split: option.split)

lemma respond_found:
  assumes "\<forall>(i, s) \<in> set (cr_hits c). docs i \<noteq> None" "\<forall>i d. docs i = Some d \<longrightarrow> d_id d = i"
  shows "\<exists>resp rs'. respond ro request c docs hit rs = Some (resp, rs') \<and>
    r_hits resp = map (\<lambda>(i, s). \<lparr>hit_id = i, hit_score = s,
        hit_document = (if q_include_docs request then docs i else None)\<rparr>)
      (page_of (q_offset request) (q_limit request) (cr_hits c)) \<and>
    r_total_hits resp = cr_total_hits c \<and> r_aggregations resp = cr_aggregations c \<and>
    r_retrieval_mode resp = cr_retrieval_mode c"
proof -
  let ?page = "page_of (q_offset request) (q_limit request) (cr_hits c)"
  let ?docs = "List.map_filter docs (map fst ?page)"
  have page: "\<forall>(i, s) \<in> set ?page. docs i \<noteq> None"
    using assms(1) by (auto simp: page_of_def dest!: in_set_takeD in_set_dropD)
  then have found: "?docs = map (the \<circ> docs) (map fst ?page)"
    by (intro map_filter_all) (auto simp: comp_def)
  have at: "doc_map ?docs i = docs i" if i: "i \<in> fst ` set ?page" for i
  proof -
    obtain d where d: "docs i = Some d" using page i by auto
    then have "d \<in> set ?docs" using i by (auto simp: in_map_filter)
    then have "doc_map ?docs i \<noteq> None" using assms(2) d by (auto simp: doc_map_None)
    then obtain d' where d': "doc_map ?docs i = Some d'" by blast
    have "d' \<in> set ?docs" "d_id d' = i" using doc_map_Some [OF d'] by simp_all
    then have "docs i = Some d'" using assms(2) by (auto simp: in_map_filter)
    then show ?thesis using d' by simp
  qed
  have docs: "map (\<lambda>(i, s). \<lparr>hit_id = i, hit_score = s, hit_document = doc_map ?docs i\<rparr>) ?page =
      map (\<lambda>(i, s). \<lparr>hit_id = i, hit_score = s, hit_document = docs i\<rparr>) ?page"
    by (rule map_cong [OF refl]) (auto simp: at rev_image_eqI)
  have "length ?docs = length (map fst ?page)" by (simp add: found)
  then have "build_hits ro ?page docs (q_include_docs request) rs = Some (map (\<lambda>(i, s). \<lparr>hit_id = i, hit_score = s,
        hit_document = (if q_include_docs request then docs i else None)\<rparr>) ?page, rs)"
    by (simp only: build_hits_def Let_def if_True if_False HOL.simp_thms option.map prod.case docs split: if_split) simp
  then show ?thesis by (simp add: respond_def page_of_def)
qed

section \<open>Searching the server\<close>

text \<open>The live documents of all shards.\<close>

definition server_docs :: "shard_env \<Rightarrow> config \<Rightarrow> 'n standalone \<Rightarrow> document list" where
  "server_docs base config w =
     concat (map (\<lambda>k. get_all_live_docs (shard_env_of base config k) (sd_shards w k)) [0..<shard_count config])"

lemma oks_Inr [simp]: "oks (map Inr xs) = xs"
  by (induction xs) simp_all

lemma scatter_request_same:
  "may_find env schema (scatter_request ro request) = may_find env schema request"
  "value_count schema (scatter_request ro request) = value_count schema request"
  "q_offset (scatter_request ro request) = 0"
  "q_limit (scatter_request ro request) = ro_ranker_candidates ro * as_candidate_multiplier (ro_availability ro)"
proof -
  have eqs: "doc_passes schema (scatter_request ro request) = doc_passes schema request"
    "query_tokens env schema (scatter_request ro request) = query_tokens env schema request"
    "q_query (scatter_request ro request) = q_query request"
    "q_typo_tolerance (scatter_request ro request) = q_typo_tolerance request"
    "q_aggregations (scatter_request ro request) = q_aggregations request"
    by (simp_all add: fun_eq_iff doc_passes_def query_tokens_def scatter_request_def)
  show "may_find env schema (scatter_request ro request) = may_find env schema request"
    by (intro ext) (simp only: may_find_def eqs)
  show "value_count schema (scatter_request ro request) = value_count schema request"
    by (intro ext) (simp only: value_count_def eqs)
qed (simp_all add: scatter_request_def)

lemma page_of_front: "length xs \<le> n \<Longrightarrow> page_of 0 n xs = xs"
  by (simp add: page_of_def)

lemma hit_ids_found:
  assumes "list_all2 (\<lambda>res found. map fst (sres_hits res) = map d_id (page_of 0 n found)) ress founds"
  shows "fst ` set (concat (map sres_hits ress)) \<subseteq> d_id ` set (concat founds)"
    and "length (concat (map sres_hits ress)) \<le> length (concat founds)"
    and "length (concat founds) \<le> n \<Longrightarrow> fst ` set (concat (map sres_hits ress)) = d_id ` set (concat founds)"
  using assms
proof (induction rule: list_all2_induct)
  case (Cons res ress found founds)
  have ids: "fst ` set (sres_hits res) = d_id ` set (page_of 0 n found)"
    using arg_cong [OF Cons.hyps(1), of set] by simp
  {
    case 1
    then show ?case
      using Cons.IH ids by (auto simp: image_Un page_of_def dest: in_set_takeD)
  next
    case 2
    have "length (sres_hits res) \<le> length found"
      using arg_cong [OF Cons.hyps(1), of length] by (simp add: page_of_def)
    then show ?case using Cons.IH by simp
  next
    case 3
    then show ?case using Cons.IH ids by (simp add: image_Un page_of_front)
  }
qed simp_all

text \<open>The documents of the shards are those that were indexed, on the shard of their id, and a document
  that was not deleted is found by its id.\<close>

lemma server_docs_found:
  assumes ok: "server_ok base connect config h w" and role: "sc_role (cfg_shard config) = Primary"
    and doc: "doc \<in> set (server_docs base config w)"
  shows "doc \<in> set (indexed_docs h)"
    and "d_id doc \<notin> deleted_ids h \<Longrightarrow> \<exists>d. d_id d = d_id doc \<and>
      d \<in> set (shard_get_docs (shard_env_of base config (home config (d_id doc))) [d_id doc]
        (sd_shards w (home config (d_id doc))))"
proof -
  obtain k where k: "k < shard_count config"
    "doc \<in> set (get_all_live_docs (shard_env_of base config k) (sd_shards w k))"
    using doc by (auto simp: server_docs_def)
  have "sc_role (sv_config (shard_env_of base config k)) = Primary"
    using role by (simp add: shard_env_of_def standalone_env_def standalone_config_def)
  note reads = shard_ok_reads [OF shard_run_ok [OF server_okD [OF ok k(1)] this]]
  have own: "doc \<in> set (indexed_docs (own_entries config k h))" using reads(1) k(2) by blast
  then have home: "home config (d_id doc) = k" and "doc \<in> set (indexed_docs h)" by (simp_all add: own_entries_docs)
  then show "doc \<in> set (indexed_docs h)" by simp
  assume "d_id doc \<notin> deleted_ids h"
  then have "d_id doc \<notin> deleted_ids (own_entries config k h)" by (simp add: own_entries_docs)
  from reads(2) [OF own this] show "\<exists>d. d_id d = d_id doc \<and>
      d \<in> set (shard_get_docs (shard_env_of base config (home config (d_id doc))) [d_id doc]
        (sd_shards w (home config (d_id doc))))"
    unfolding home by fastforce
qed

lemma may_find_subset: "may_find env schema request live found fb \<Longrightarrow> set found \<subseteq> set live"
  unfolding may_find_def by (metis filter_mset_eq_conv mset_subset_eqD multiset_filter_subset set_mset_mset subsetI)

text \<open>What the router makes of answers that all arrived, with a ranker that keeps the scores.\<close>

lemma candidates_of_answers:
  assumes av: "ro_availability ro = noop_strategy" and noop: "ro_ranker ro = noop_rank"
    and intime: "\<forall>ms w. rv_deadline env ms w = None"
    and sc: "scatter env ro request rs = Some (map Inr ress, rs1)" "ress \<noteq> []"
    and f: "fetch_docs ro (map fst (rv_usort env score_desc (concat (map sres_hits ress)))) rs1 = Some (fetched, rs2)"
  shows "\<exists>c. candidates_of env ro request rs = Some (Inr (c, doc_map fetched), rs2) \<and>
    cr_hits c = filter (\<lambda>(i, _). doc_map fetched i \<noteq> None) (rv_usort env score_desc (concat (map sres_hits ress))) \<and>
    cr_total_hits c = sum_list (map sres_total_hits ress) \<and>
    cr_aggregations c = map (\<lambda>(field, cs). (field, count_buckets env cs))
      (rv_field_order env (ga_aggregations (gather (map Inr ress)))) \<and>
    (cr_retrieval_mode c = OrFallback \<longleftrightarrow> (\<exists>res \<in> set ress. sres_used_or_fallback res))"
proof -
  let ?all = "rv_usort env score_desc (concat (map sres_hits ress))" and ?docs = "doc_map fetched"
  obtain reranked where rank: "rank_hits env ro (q_query request) ?docs ?all (rs_world rs2) =
      Some ((filter (\<lambda>(i, _). ?docs i \<noteq> None) ?all, reranked), rs_world rs2)"
    using noop_ranking [OF noop intime] by blast
  let ?c = "\<lparr>cr_hits = filter (\<lambda>(i, _). ?docs i \<noteq> None) ?all, cr_total_hits = sum_list (map sres_total_hits ress),
    cr_aggregations = map (\<lambda>(field, cs). (field, count_buckets env cs))
      (rv_field_order env (ga_aggregations (gather (map Inr ress)))),
    cr_reranked = reranked, cr_retrieval_mode = (if \<exists>res \<in> set ress. sres_used_or_fallback res then OrFallback else AndMode)\<rparr>"
  have fetch: "(if ?all \<noteq> [] then fetch_docs ro (map fst ?all) rs1 else Some ([], rs1)) = Some (fetched, rs2)"
    using f by (auto simp: fetch_docs_def)
  have "candidates_of env ro request rs = Some (Inr (?c, ?docs), rs2\<lparr>rs_world := rs_world rs2\<rparr>)"
    unfolding candidates_of_def sc(1) option.case prod.case Let_def gather_props oks_Inr fetch rank
      filter_available_noop [OF av] using sc(2) by simp
  then show ?thesis by (intro exI [of _ ?c]) simp
qed

text \<open>The documents that the router fetches were indexed, and it fetches every live one that was not deleted.\<close>

lemma fetched_found:
  assumes ok: "server_ok base connect config h w"
    and config: "sc_role (cfg_shard config) = Primary" "sc_num_shards (cfg_shard config) \<noteq> 0"
    and f: "set fetched = (\<Union>i \<in> set ids. set (shard_get_docs (shard_env_of base config (home config i)) [i]
      (sd_shards w (home config i))))"
  shows "doc_map fetched i = Some d \<Longrightarrow> d_id d = i \<and> d \<in> set (indexed_docs h)"
    and "doc \<in> set (server_docs base config w) \<Longrightarrow> d_id doc \<notin> deleted_ids h \<Longrightarrow> d_id doc \<in> set ids \<Longrightarrow>
      doc_map fetched (d_id doc) \<noteq> None"
proof -
  assume "doc_map fetched i = Some d"
  then have d: "d_id d = i" "d \<in> set fetched" using doc_map_Some by blast+
  then obtain k where "d \<in> set (shard_get_docs (shard_env_of base config (home config k)) [k] (sd_shards w (home config k)))"
    using f by blast
  moreover have "home config k < shard_count config" for k
    using jump_hash_nat(2) [OF config(2)] by (simp add: home_def shard_count_def)
  moreover have "sc_role (sv_config (shard_env_of base config k)) = Primary" for k
    using config(1) by (simp add: shard_env_of_def standalone_env_def standalone_config_def)
  ultimately have "d \<in> set (indexed_docs (own_entries config (home config k) h))"
    using shard_ok_get shard_run_ok server_okD [OF ok] by blast
  then show "d_id d = i \<and> d \<in> set (indexed_docs h)" using d by (simp add: own_entries_docs)
next
  assume doc: "doc \<in> set (server_docs base config w)" "d_id doc \<notin> deleted_ids h" "d_id doc \<in> set ids"
  from server_docs_found(2) [OF ok config(1) doc(1,2)] obtain d where d: "d_id d = d_id doc"
    "d \<in> set (shard_get_docs (shard_env_of base config (home config (d_id doc))) [d_id doc]
      (sd_shards w (home config (d_id doc))))" by blast
  then have "d \<in> set fetched" unfolding f using doc(3) by blast
  then show "doc_map fetched (d_id doc) \<noteq> None" using d(1) by (auto simp: doc_map_None intro: rev_image_eqI)
qed

text \<open>The candidates of a search.\<close>

lemma standalone_candidates:
  assumes ro: "standalone_ok libs base sg config ro" and noop: "ro_ranker ro = noop_rank"
    and config: "sc_role (cfg_shard config) = Primary" "sc_num_shards (cfg_shard config) \<noteq> 0"
    and env: "router_env_ok env" "query_env_ok (sv_query base)" and intime: "\<forall>ms w. rv_deadline env ms w = None"
    and ok: "server_readable base connect config h (rs_world rs)"
  defines "live \<equiv> server_docs base config (rs_world rs)"
  shows "\<exists>c docs rs' found. candidates_of env ro request rs = Some (Inr (c, docs), rs') \<and>
    may_find (qe_text (sv_query base)) default_product_schema request live found (cr_retrieval_mode c = OrFallback) \<and>
    cr_total_hits c = word_of_nat (length found) \<and>
    (\<forall>(f, buckets) \<in> set (cr_aggregations c). \<forall>b \<in> set buckets.
       bucket_count b = word_of_nat (value_count default_product_schema request found f (bucket_value b))) \<and>
    (\<forall>(i, s) \<in> set (cr_hits c). i \<in> d_id ` set found \<and> docs i \<noteq> None) \<and>
    (\<forall>i d. docs i = Some d \<longrightarrow> d_id d = i \<and> d \<in> set (indexed_docs h)) \<and>
    length (cr_hits c) \<le> length found \<and>
    (length found \<le> ro_ranker_candidates ro \<longrightarrow>
       (\<forall>doc \<in> set found. d_id doc \<notin> deleted_ids h \<longrightarrow> d_id doc \<in> fst ` set (cr_hits c)))"
proof -
  let ?n = "shard_count config" and ?te = "qe_text (sv_query base)" and ?sc = default_product_schema
  let ?live = "\<lambda>k. get_all_live_docs (shard_env_of base config k) (sd_shards (rs_world rs) k)"
  have av: "ro_availability ro = noop_strategy" using ro by (simp add: standalone_ok_def)
  then have limit: "q_limit (scatter_request ro request) = ro_ranker_candidates ro"
    by (simp add: scatter_request_same noop_strategy_def)
  have home: "home config i < ?n" for i
    using jump_hash_nat(2) [OF config(2)] by (simp add: home_def shard_count_def)
  obtain ress rs1 where sc: "scatter env ro request rs = Some (map Inr ress, rs1)"
    "server_readable base connect config h (rs_world rs1)" "same_content (rs_world rs) (rs_world rs1)"
    "list_all2 (\<lambda>k res. \<exists>found. shard_answers ?te ?sc (scatter_request ro request) (?live k) found res) [0..<?n] ress"
    using standalone_scatter [OF ro config(1) env(2) ok intime, of request] by blast
  obtain founds where founds:
    "list_all2 (\<lambda>res found. map fst (sres_hits res) = map d_id (page_of 0 (ro_ranker_candidates ro) found)) ress founds"
    "may_find ?te ?sc request live (concat founds) (\<exists>res \<in> set ress. sres_used_or_fallback res)"
    "sum_list (map sres_total_hits ress) = word_of_nat (length (concat founds))"
    "\<forall>f v. sum_list (map (\<lambda>res. field_total (sres_aggregations res) f v) ress) =
       word_of_nat (value_count ?sc request (concat founds) f v)"
    using answers_join [OF sc(4), unfolded limit scatter_request_same(1-3)] unfolding live_def server_docs_def by blast
  let ?found = "concat founds" and ?hits = "concat (map sres_hits ress)"
  note ids = hit_ids_found [OF founds(1)]
  let ?all = "rv_usort env score_desc ?hits"
  have perm: "mset ?all = mset ?hits" by (intro sort_contract_mset router_env_okD [OF env(1)])
  have ress: "ress \<noteq> []" using sc(4) home [of 0] by (auto simp: list_all2_conv_all_nth)
  have ok1: "server_ok base connect config h (rs_world rs1)" using sc(2) by (simp add: server_readable_def)
  obtain fetched rs2 where f: "fetch_docs ro (map fst ?all) rs1 = Some (fetched, rs2)"
    "set fetched = (\<Union>i \<in> set (map fst ?all). set (shard_get_docs (shard_env_of base config (home config i)) [i]
      (sd_shards (rs_world rs1) (home config i))))"
    using standalone_fetch_all [OF ro, of "map fst ?all" rs1] home by blast
  let ?docs = "doc_map fetched"
  obtain c where cand: "candidates_of env ro request rs = Some (Inr (c, ?docs), rs2)"
    and c: "cr_hits c = filter (\<lambda>(i, _). ?docs i \<noteq> None) ?all" "cr_total_hits c = sum_list (map sres_total_hits ress)"
      "cr_aggregations c = map (\<lambda>(field, cs). (field, count_buckets env cs))
        (rv_field_order env (ga_aggregations (gather (map Inr ress))))"
      "cr_retrieval_mode c = OrFallback \<longleftrightarrow> (\<exists>res \<in> set ress. sres_used_or_fallback res)"
    using candidates_of_answers [OF av noop intime sc(1) ress f(1)] by blast
  note found = fetched_found [OF ok1 config f(2)]
  have counts: "bucket_count b = word_of_nat (value_count ?sc request ?found f (bucket_value b))"
    if "(f, buckets) \<in> set (cr_aggregations c)" "b \<in> set buckets" for f buckets b
    using gathered_buckets [OF env(1) that(2), of f "map Inr ress"] that(1) founds(4) by (simp add: c(3))
  have live: "set ?found \<subseteq> set (server_docs base config (rs_world rs1))"
    using may_find_subset [OF founds(2)] same_contentD(1) [OF sc(3)] by (auto simp: live_def server_docs_def)
  show ?thesis
  proof (intro exI conjI)
    show "candidates_of env ro request rs = Some (Inr (c, ?docs), rs2)" by (rule cand)
    show "may_find ?te ?sc request live ?found (cr_retrieval_mode c = OrFallback)" unfolding c(4) by (rule founds(2))
    show "cr_total_hits c = word_of_nat (length ?found)" using founds(3) c(2) by simp
    show "\<forall>(f, buckets) \<in> set (cr_aggregations c). \<forall>b \<in> set buckets.
        bucket_count b = word_of_nat (value_count ?sc request ?found f (bucket_value b))"
      using counts by blast
    show "\<forall>(i, s) \<in> set (cr_hits c). i \<in> d_id ` set ?found \<and> ?docs i \<noteq> None"
    proof
      fix x assume x: "x \<in> set (cr_hits c)"
      then have "x \<in> set ?hits" using mset_eq_setD [OF perm] by (simp add: c(1))
      then have "fst x \<in> d_id ` set ?found" using ids(1) by blast
      moreover have "?docs (fst x) \<noteq> None" using x by (simp add: c(1) case_prod_beta)
      ultimately show "case x of (i, s) \<Rightarrow> i \<in> d_id ` set ?found \<and> ?docs i \<noteq> None" by (simp add: case_prod_beta)
    qed
    show "\<forall>i d. ?docs i = Some d \<longrightarrow> d_id d = i \<and> d \<in> set (indexed_docs h)" using found(1) by blast
    show "length (cr_hits c) \<le> length ?found"
      using ids(2) mset_eq_length [OF perm] length_filter_le [of "\<lambda>(i, _). ?docs i \<noteq> None" ?all] by (simp add: c(1))
    show "length ?found \<le> ro_ranker_candidates ro \<longrightarrow>
        (\<forall>doc \<in> set ?found. d_id doc \<notin> deleted_ids h \<longrightarrow> d_id doc \<in> fst ` set (cr_hits c))"
    proof (intro impI ballI)
      fix doc assume few: "length ?found \<le> ro_ranker_candidates ro" and doc: "doc \<in> set ?found" "d_id doc \<notin> deleted_ids h"
      have mem: "d_id doc \<in> fst ` set ?all"
        using ids(3) [OF few] doc(1) unfolding mset_eq_setD [OF perm] by blast
      have "?docs (d_id doc) \<noteq> None" using found(2) live doc mem by auto
      moreover from mem obtain s where "(d_id doc, s) \<in> set ?all" by auto
      ultimately show "d_id doc \<in> fst ` set (cr_hits c)"
        unfolding c(1) by (intro image_eqI [of _ _ "(d_id doc, s)"]) simp_all
    qed
  qed
qed

text \<open>The router of a standalone server has no cache.\<close>

lemma standalone_candidates_limit:
  "ro_ranker_candidates (fst (standalone_router libs base sg config w)) = rk_candidates (cfg_ranker config)"
  by (simp add: standalone_router_def router_new_simple_def router_new_def router_with_cache_def
      with_suggest_shards_def Let_def)

lemma search_no_cache:
  assumes none: "rs_cache rs = None" and run: "router_search env ro request rs = Some (r, rs')"
  shows "rs_cache rs' = None"
proof -
  have "lookup_cache env request rs = (None, rs)" using none by (simp add: lookup_cache_def)
  with run consider e where "candidates_of env ro request rs = Some (Inl e, rs')"
    | c docs rs1 resp where "candidates_of env ro request rs = Some (Inr (c, docs), rs1)"
      "respond ro request c docs False (store_cache env request c rs1) = Some (resp, rs')"
    by (auto simp: router_search_def split: option.splits prod.splits sum.splits)
  then show ?thesis
    using none by cases (auto dest!: candidates_of_cache respond_cache simp: store_cache_def)
qed

lemma server_no_cache:
  "server_run libs base connect sg config env ro h rs \<Longrightarrow>
    rs_cache rs = None \<and> ro_ranker_candidates ro = rk_candidates (cfg_ranker config)"
proof (induction rule: server_run.induct)
  case (server_new w0 w ro rs)
  then show ?case
    using legacy_router_plain(2) [of libs base sg config w] standalone_candidates_limit [of libs base sg config w] by simp
next
  case (server_search ro h rs request r3 rs')
  then show ?case using search_no_cache by blast
next
  case (server_restart ro h rs w0 w ro' rs')
  then show ?case using legacy_router_plain(2) [of libs base sg config w] standalone_candidates_limit [of libs base sg config w] by simp
qed (auto simp: op_zoom_def split: option.splits)

text \<open>The page of an answer: at most \<open>limit\<close> hits, from the candidates, with their documents, and all of
  them if they fit.\<close>

lemma respond_page:
  assumes "\<forall>(i, s) \<in> set (cr_hits c). i \<in> I \<and> docs i \<noteq> None" "\<forall>i d. docs i = Some d \<longrightarrow> d_id d = i \<and> d \<in> D"
  shows "\<exists>resp rs'. respond ro request c docs hit rs = Some (resp, rs') \<and>
    r_total_hits resp = cr_total_hits c \<and> r_aggregations resp = cr_aggregations c \<and>
    r_retrieval_mode resp = cr_retrieval_mode c \<and> length (r_hits resp) \<le> q_limit request \<and>
    (\<forall>hit \<in> set (r_hits resp). hit_id hit \<in> I \<and>
       (if q_include_docs request then \<exists>d \<in> D. hit_document hit = Some d \<and> d_id d = hit_id hit
        else hit_document hit = None)) \<and>
    (q_offset request = 0 \<longrightarrow> length (cr_hits c) \<le> q_limit request \<longrightarrow>
       hit_id ` set (r_hits resp) = fst ` set (cr_hits c))"
proof -
  let ?page = "page_of (q_offset request) (q_limit request) (cr_hits c)"
  have "\<forall>(i, s) \<in> set (cr_hits c). docs i \<noteq> None" "\<forall>i d. docs i = Some d \<longrightarrow> d_id d = i"
    using assms by blast+
  from respond_found [OF this, of ro request hit rs] obtain resp rs' where
    r: "respond ro request c docs hit rs = Some (resp, rs')"
    and page: "r_hits resp = map (\<lambda>(i, s). \<lparr>hit_id = i, hit_score = s,
        hit_document = (if q_include_docs request then docs i else None)\<rparr>) ?page"
    and fields: "r_total_hits resp = cr_total_hits c" "r_aggregations resp = cr_aggregations c"
      "r_retrieval_mode resp = cr_retrieval_mode c" by blast
  have "hit_id h \<in> I \<and> (if q_include_docs request then \<exists>d \<in> D. hit_document h = Some d \<and> d_id d = hit_id h
        else hit_document h = None)" if "h \<in> set (r_hits resp)" for h
  proof -
    from that obtain i s where h: "h = \<lparr>hit_id = i, hit_score = s,
        hit_document = (if q_include_docs request then docs i else None)\<rparr>" "(i, s) \<in> set (cr_hits c)"
      by (auto simp: page page_of_def dest!: in_set_takeD in_set_dropD)
    then obtain d where "i \<in> I" "docs i = Some d" "d_id d = i" "d \<in> D" using assms by blast
    then show ?thesis by (simp add: h(1))
  qed
  moreover have "hit_id ` set (r_hits resp) = fst ` set (cr_hits c)"
    if "q_offset request = 0" "length (cr_hits c) \<le> q_limit request"
    using that by (simp add: page page_of_def image_image case_prod_beta)
  moreover have "length (r_hits resp) \<le> q_limit request" by (simp add: page page_of_def)
  ultimately show ?thesis using r fields by (intro exI [of _ resp] exI [of _ rs']) simp
qed



end
