(* ===== verification/Http.thy ===== *)
theory Http
  imports RouterSuggest Meli
begin

text \<open>
  The handlers of the HTTP server (\<open>crates/server/src/main.rs\<close>): what is refused, what is sent to the
  router and what is answered.  A handler acts on the state of the router and answers either a status
  with a JSON value or its result.  The JSON parser is an argument; times and gauges are left out.
\<close>

section \<open>Answers\<close>

datatype status = BadRequest | InternalServerError

datatype json = JBool bool | JNumber nat | JString string | JArray "json list" | JObject "(string \<times> json) list"

type_synonym ('s, 'a) http = "'s \<Rightarrow> ((status \<times> json) + 'a) \<times> 's"

definition error_json :: "string \<Rightarrow> json" where
  "error_json msg = JObject [(''error'', JString msg)]"

definition bad_request :: "string \<Rightarrow> (status \<times> json) + 'a" where
  "bad_request msg = Inl (BadRequest, error_json msg)"

text \<open>The answer to the outcome of the router; a panic of the router is a panic of the handler.\<close>

definition answered ::
  "('a \<Rightarrow> 'b) \<Rightarrow> ('s, 'a) op \<Rightarrow> 's \<Rightarrow> (((status \<times> json) + 'b) \<times> 's) option" where
  "answered f m s =
     map_option (\<lambda>(r, s').
       (case r of Inl e \<Rightarrow> Inl (InternalServerError, error_json (error_display e)) | Inr x \<Rightarrow> Inr (f x), s')) (m s)"

section \<open>Text\<close>

text \<open>The white space characters of Unicode, as UTF-8.\<close>

definition bytes_text :: "bytes \<Rightarrow> string" where
  "bytes_text bs = map (\<lambda>b. char_of (unat b)) bs"

definition white_space :: "string list" where
  "white_space =
     [[CHR 0x09], [CHR 0x0A], [CHR 0x0B], [CHR 0x0C], [CHR 0x0D],
      [CHR 0x20], [CHR 0xC2, CHR 0x85], [CHR 0xC2, CHR 0xA0],
      [CHR 0xE1, CHR 0x9A, CHR 0x80]] @
     map (\<lambda>c. [CHR 0xE2, CHR 0x80, c])
       [CHR 0x80, CHR 0x81, CHR 0x82, CHR 0x83, CHR 0x84, CHR 0x85, CHR 0x86,
        CHR 0x87, CHR 0x88, CHR 0x89, CHR 0x8A, CHR 0xA8, CHR 0xA9, CHR 0xAF] @
     [[CHR 0xE2, CHR 0x81, CHR 0x9F], [CHR 0xE3, CHR 0x80, CHR 0x80]]"

definition strip_space :: "string \<Rightarrow> string option" where
  "strip_space s = map_option (\<lambda>w. drop (length w) s) (List.find (\<lambda>w. prefix w s) white_space)"

definition strip_end_space :: "string \<Rightarrow> string option" where
  "strip_end_space s =
     map_option (\<lambda>w. take (length s - length w) s) (List.find (\<lambda>w. suffix w s) white_space)"

lemma white_space_nonempty: "w \<in> set white_space \<Longrightarrow> w \<noteq> []"
  by (auto simp: white_space_def)

lemma strip_space_shorter: "strip_space s = Some s' \<Longrightarrow> length s' < length s"
  using white_space_nonempty by (fastforce simp: strip_space_def find_Some_iff prefix_def)

lemma strip_end_space_shorter: "strip_end_space s = Some s' \<Longrightarrow> length s' < length s"
proof -
  assume "strip_end_space s = Some s'"
  then obtain w where "w \<in> set white_space" "suffix w s" "s' = take (length s - length w) s"
    by (auto simp: strip_end_space_def dest: find_first)
  then show ?thesis using white_space_nonempty [of w] by (auto simp: suffix_def)
qed

function trim_start :: "string \<Rightarrow> string" where
  "trim_start s = (case strip_space s of None \<Rightarrow> s | Some s' \<Rightarrow> trim_start s')"
  by pat_completeness auto
termination by (relation "measure length") (auto simp: strip_space_shorter)

function trim_end :: "string \<Rightarrow> string" where
  "trim_end s = (case strip_end_space s of None \<Rightarrow> s | Some s' \<Rightarrow> trim_end s')"
  by pat_completeness auto
termination by (relation "measure length") (auto simp: strip_end_space_shorter)

declare trim_start.simps [simp del] trim_end.simps [simp del]

definition trim :: "string \<Rightarrow> string" where
  "trim s = trim_end (trim_start s)"

text \<open>\<open>str::lines\<close>: the pieces that end in a line feed, and the rest if there is one, without the line
  feed and one carriage return before it.\<close>

definition strip_return :: "string \<Rightarrow> string" where
  "strip_return l = (if l \<noteq> [] \<and> last l = CHR 0x0D then butlast l else l)"

abbreviation line_feed :: char where
  "line_feed \<equiv> CHR 0x0A"

fun lines_from :: "string \<Rightarrow> string \<Rightarrow> string list" where
  "lines_from l [] = (if l = [] then [] else [l])"
| "lines_from l (c # s) = (if c = line_feed then strip_return l # lines_from [] s else lines_from (l @ [c]) s)"

definition text_lines :: "string \<Rightarrow> string list" where
  "text_lines s = lines_from [] s"

section \<open>UTF-8\<close>

text \<open>\<open>std::str::from_utf8\<close>.  \<open>utf8_char\<close> is the width of the first character, or the number of
  bytes that can be told to be wrong, \<open>None\<close> where the input ends inside the character.\<close>

definition continuation :: "u8 \<Rightarrow> bool" where
  "continuation b \<longleftrightarrow> 0x80 \<le> b \<and> b \<le> 0xBF"

definition second_ok :: "u8 \<Rightarrow> u8 \<Rightarrow> bool" where
  "second_ok a b \<longleftrightarrow>
     (if a = 0xE0 then 0xA0 \<le> b \<and> b \<le> 0xBF else if a = 0xED then 0x80 \<le> b \<and> b \<le> 0x9F
      else if a = 0xF0 then 0x90 \<le> b \<and> b \<le> 0xBF else if a = 0xF4 then 0x80 \<le> b \<and> b \<le> 0x8F
      else continuation b)"

definition utf8_width :: "u8 \<Rightarrow> nat" where
  "utf8_width a =
     (if a < 0x80 then 1 else if 0xC2 \<le> a \<and> a \<le> 0xDF then 2 else if 0xE0 \<le> a \<and> a \<le> 0xEF then 3
      else if 0xF0 \<le> a \<and> a \<le> 0xF4 then 4 else 0)"

text \<open>The number of following bytes that are right, up to those the character needs.\<close>

definition good_bytes :: "u8 \<Rightarrow> bytes \<Rightarrow> nat" where
  "good_bytes a bs =
     (let following = take (utf8_width a - 1) bs
      in case following of [] \<Rightarrow> 0
         | b # others \<Rightarrow> if second_ok a b then Suc (length (takeWhile continuation others)) else 0)"

definition utf8_char :: "u8 \<Rightarrow> bytes \<Rightarrow> nat option + nat" where
  "utf8_char a bs =
     (let w = utf8_width a; n = good_bytes a bs
      in if w = 0 then Inl (Some 1)
         else if n = w - 1 then Inr w
         else if n = length bs then Inl None
         else Inl (Some (Suc n)))"

definition utf8_error :: "nat \<Rightarrow> nat option \<Rightarrow> string" where
  "utf8_error valid_up_to error_len =
     (case error_len of
        Some n \<Rightarrow> ''invalid utf-8 sequence of '' @ show_nat n @ '' bytes from index '' @ show_nat valid_up_to
      | None \<Rightarrow> ''incomplete utf-8 byte sequence from index '' @ show_nat valid_up_to)"

function utf8_check :: "nat \<Rightarrow> bytes \<Rightarrow> string option" where
  "utf8_check pos [] = None"
| "utf8_check pos (a # bs) =
     (case utf8_char a bs of
        Inl e \<Rightarrow> Some (utf8_error pos e)
      | Inr w \<Rightarrow> utf8_check (pos + w) (drop (w - 1) bs))"
  by pat_completeness auto
termination by (relation "measure (length \<circ> snd)") auto

definition from_utf8 :: "bytes \<Rightarrow> string + string" where
  "from_utf8 bs = (case utf8_check 0 bs of Some msg \<Rightarrow> Inl msg | None \<Rightarrow> Inr (bytes_text bs))"

section \<open>Reading\<close>

definition http_search ::
  "'s router_env \<Rightarrow> 's router \<Rightarrow> search_request \<Rightarrow> 's rstate \<Rightarrow>
   (((status \<times> json) + search_response) \<times> 's rstate) option" where
  "http_search env ro request rs =
     (if 1024 < length (q_query request) then Some (bad_request ''query too long'', rs)
      else if 1000 < q_limit request then Some (bad_request ''limit exceeds maximum of 1000'', rs)
      else answered (\<lambda>resp. resp) (router_search env ro request) rs)"

record suggest_params =
  sp_q :: string
  sp_limit :: "nat option"
  sp_suggest_field :: "string option"

definition http_suggest ::
  "'s router_env \<Rightarrow> 's router \<Rightarrow> suggest_params \<Rightarrow> 's rstate \<Rightarrow>
   (((status \<times> json) + suggest_term list) \<times> 's rstate) option" where
  "http_suggest env ro params rs =
     (let q = trim (sp_q params)
      in if q = [] then Some (Inr [], rs)
         else if 100 < length q then Some (bad_request ''q too long (max 100)'', rs)
         else
           let limit = min 20 (max 1 (case sp_limit params of None \<Rightarrow> 5 | Some l \<Rightarrow> l));
               field = (case sp_suggest_field params of None \<Rightarrow> ''title'' | Some f \<Rightarrow> f)
           in answered (\<lambda>entries. entries) (on_world (router_suggest env ro q field limit)) rs)"

definition http_stats :: "'s router \<Rightarrow> 's rstate \<Rightarrow> (json \<times> 's rstate) option" where
  "http_stats ro rs =
     map_option (\<lambda>(groups, w).
       (JObject [
          (''total_docs'', JNumber (unat (sum_list (map (\<lambda>g. ss_doc_count (gs_primary g)) groups)))),
          (''total_segments'', JNumber (unat (sum_list (map (\<lambda>g. ss_segment_count (gs_primary g)) groups)))),
          (''shards'', JArray (map (\<lambda>g. JObject [
             (''shard_id'', JNumber (unat (ss_stats_shard_id (gs_primary g)))),
             (''doc_count'', JNumber (unat (ss_doc_count (gs_primary g)))),
             (''segment_count'', JNumber (unat (ss_segment_count (gs_primary g)))),
             (''buffer_doc_count'', JNumber (ss_buffer_doc_count (gs_primary g))),
             (''replicas'', JArray (map (\<lambda>r. JObject [
                (''shard_id'', JNumber (unat (ss_stats_shard_id r))),
                (''doc_count'', JNumber (unat (ss_doc_count r))),
                (''segment_count'', JNumber (unat (ss_segment_count r))),
                (''buffer_doc_count'', JNumber (ss_buffer_doc_count r))]) (gs_replicas g)))]) groups))],
        rs\<lparr>rs_world := w\<rparr>)) (router_stats ro (rs_world rs))"

section \<open>Writing\<close>

definition http_index ::
  "'s router_env \<Rightarrow> 's router \<Rightarrow> document \<Rightarrow> 's rstate \<Rightarrow> (((status \<times> json) + json) \<times> 's rstate) option" where
  "http_index env ro doc rs =
     (if d_title doc = [] then Some (bad_request ''title is required'', rs)
      else answered (\<lambda>_. JObject [(''success'', JBool True)]) (on_world (router_index env ro doc)) rs)"

definition http_bulk ::
  "'s router_env \<Rightarrow> 's router \<Rightarrow> document list \<Rightarrow> 's rstate \<Rightarrow>
   (((status \<times> json) + json) \<times> 's rstate) option" where
  "http_bulk env ro docs rs =
     (if docs = [] then Some (bad_request ''empty batch'', rs)
      else if 10000 < length docs then Some (bad_request ''batch exceeds 10,000 documents'', rs)
      else if list_ex (\<lambda>d. d_title d = []) docs
        then Some (bad_request ''all documents must have a title'', rs)
      else answered (\<lambda>indexed. JObject [(''indexed'', JNumber (unat indexed))])
             (on_world (router_bulk_index env ro docs)) rs)"

definition http_delete ::
  "'s router \<Rightarrow> u64 \<Rightarrow> 's rstate \<Rightarrow> (((status \<times> json) + json) \<times> 's rstate) option" where
  "http_delete ro i = answered (\<lambda>_. JObject [(''success'', JBool True)]) (on_world (router_delete ro i))"

definition http_flush :: "'s router \<Rightarrow> 's rstate \<Rightarrow> (((status \<times> json) + json) \<times> 's rstate) option" where
  "http_flush ro = answered (\<lambda>_. JObject [(''ok'', JBool True)]) (on_world (router_flush ro))"

definition reindex_json :: "reindex_stats list \<Rightarrow> json" where
  "reindex_json stats = JObject [(''ok'', JBool True),
     (''total_docs'', JNumber (unat (sum_list (map ri_docs_reindexed stats)))),
     (''shards'', JArray (map (\<lambda>s. JObject [(''shard_id'', JNumber (unat (ri_shard_id s))),
        (''docs_reindexed'', JNumber (unat (ri_docs_reindexed s)))]) stats))]"

definition http_reindex :: "'s router \<Rightarrow> 's rstate \<Rightarrow> (((status \<times> json) + json) \<times> 's rstate) option" where
  "http_reindex ro = answered reindex_json (on_world (router_reindex ro))"

section \<open>Ingesting items\<close>

text \<open>The JSON parser, for an item in a text and for an array of items in the body.\<close>

record item_parser =
  ip_text :: text_env
  ip_item :: "string \<Rightarrow> string + meli_item"
  ip_items :: "bytes \<Rightarrow> string + meli_item list"

fun parse_lines :: "item_parser \<Rightarrow> (nat \<times> string) list \<Rightarrow> string + meli_item list" where
  "parse_lines ip [] = Inr []"
| "parse_lines ip ((line_num, line) # others) =
     (let line = trim line
      in if line = [] then parse_lines ip others
         else case ip_item ip line of
             Inl e \<Rightarrow> Inl (''line '' @ show_nat (line_num + 1) @ '': '' @ e)
           | Inr item \<Rightarrow> res_bind (parse_lines ip others) (\<lambda>items. Inr (item # items)))"

definition parse_jsonl :: "item_parser \<Rightarrow> bytes \<Rightarrow> string + meli_item list" where
  "parse_jsonl ip body =
     res_bind (from_utf8 body) (\<lambda>t. parse_lines ip (List.enumerate 0 (text_lines t)))"

definition ascii_lower :: "string \<Rightarrow> string" where
  "ascii_lower s = map (\<lambda>c. if 65 \<le> (of_char c :: nat) \<and> (of_char c :: nat) \<le> 90
     then char_of ((of_char c :: nat) + 32) else c) s"

fun contains :: "string \<Rightarrow> string \<Rightarrow> bool" where
  "contains pat [] \<longleftrightarrow> pat = []"
| "contains pat (c # s) \<longleftrightarrow> prefix pat (c # s) \<or> contains pat s"

definition wants_lines :: "string option \<Rightarrow> bool" where
  "wants_lines header =
     (let content_type = ascii_lower (case header of None \<Rightarrow> [] | Some v \<Rightarrow> v)
      in contains ''ndjson'' content_type \<or> contains ''jsonlines'' content_type \<or> contains ''jsonl'' content_type)"

text \<open>\<open>body\<close> is the body that was read, or the error of reading it.\<close>

definition http_ingest ::
  "item_parser \<Rightarrow> 's router_env \<Rightarrow> 's router \<Rightarrow> string option \<Rightarrow> string + bytes \<Rightarrow> 's rstate \<Rightarrow>
   (((status \<times> json) + json) \<times> 's rstate) option" where
  "http_ingest ip env ro header body rs =
     (case res_bind body (\<lambda>bytes. if wants_lines header then parse_jsonl ip bytes else ip_items ip bytes) of
        Inl e \<Rightarrow> Some (bad_request e, rs)
      | Inr items \<Rightarrow>
          if items = [] then Some (bad_request ''empty batch'', rs)
          else if 10000 < length items then Some (bad_request ''batch exceeds 10,000 items'', rs)
          else
            let (docs, errors) = map_batch (ip_text ip) items;
                skipped = map mapping_error_display errors
            in if length docs = 0
               then Some (Inl (BadRequest, JObject [(''error'', JString ''all items failed mapping''),
                      (''details'', JArray (map JString skipped))]), rs)
               else answered (\<lambda>_. JObject [(''indexed'', JNumber (length docs)),
                        (''skipped'', JNumber (length skipped)), (''errors'', JArray (map JString skipped))])
                      (on_world (router_bulk_index env ro docs)) rs)"

section \<open>Lines\<close>

lemma lines_from_line:
  "line_feed \<notin> set l \<Longrightarrow> lines_from acc (l @ line_feed # s) = strip_return (acc @ l) # lines_from [] s"
  by (induction l arbitrary: acc) auto

text \<open>A text made of lines has these lines.\<close>

lemma text_lines_join:
  "\<forall>l \<in> set ls. line_feed \<notin> set l \<Longrightarrow> text_lines (concat (map (\<lambda>l. l @ [line_feed]) ls)) = map strip_return ls"
proof (induction ls)
  case (Cons l ls)
  then show ?case using lines_from_line [of l "[]"] by (simp add: text_lines_def)
qed (simp add: text_lines_def)

text \<open>The lines that are not blank, without the space around them.\<close>

definition records_of :: "string list \<Rightarrow> string list" where
  "records_of ls = filter (\<lambda>l. l \<noteq> []) (map trim ls)"

lemma parse_lines_items:
  "parse_lines ip nls = Inr items \<longleftrightarrow> map (ip_item ip) (records_of (map snd nls)) = map Inr items"
proof (induction ip nls arbitrary: items rule: parse_lines.induct)
  case (1 ip)
  then show ?case by (auto simp: records_of_def)
next
  case (2 ip n l nls)
  show ?case
  proof (cases "trim l = []")
    case True
    then show ?thesis using 2(1) by (simp add: records_of_def)
  next
    case False
    then show ?thesis
      using 2(2) [OF refl False] by (cases "ip_item ip (trim l)") (auto simp: records_of_def res_bind_Inr)
  qed
qed

lemma parse_lines_error:
  "parse_lines ip nls = Inl msg \<Longrightarrow> \<exists>before n l after e. nls = before @ (n, l) # after \<and>
     (\<forall>r \<in> set (records_of (map snd before)). \<exists>item. ip_item ip r = Inr item) \<and>
     trim l \<noteq> [] \<and> ip_item ip (trim l) = Inl e \<and> msg = ''line '' @ show_nat (n + 1) @ '': '' @ e"
proof (induction ip nls rule: parse_lines.induct)
  case (2 ip n l nls)
  show ?case
  proof (cases "trim l = []")
    case True
    then obtain before m k after e where "nls = before @ (m, k) # after"
      "\<forall>r \<in> set (records_of (map snd before)). \<exists>item. ip_item ip r = Inr item"
      "trim k \<noteq> []" "ip_item ip (trim k) = Inl e" "msg = ''line '' @ show_nat (m + 1) @ '': '' @ e"
      using 2(1,3) by auto
    then show ?thesis
      using True by (intro exI [of _ "(n, l) # before"] exI [of _ m] exI [of _ k] exI [of _ after] exI [of _ e]) (auto simp: records_of_def)
  next
    case False
    show ?thesis
    proof (cases "ip_item ip (trim l)")
      case (Inl e)
      then show ?thesis
        using False 2(3) by (intro exI [of _ "[]"] exI [of _ n] exI [of _ l] exI [of _ nls] exI [of _ e])
          (simp add: records_of_def)
    next
      case (Inr item)
      then have "parse_lines ip nls = Inl msg"
        using False 2(3) by (cases "parse_lines ip nls") (auto simp: res_bind_def)
      then obtain before m k after e where "nls = before @ (m, k) # after"
        "\<forall>r \<in> set (records_of (map snd before)). \<exists>item. ip_item ip r = Inr item"
        "trim k \<noteq> []" "ip_item ip (trim k) = Inl e" "msg = ''line '' @ show_nat (m + 1) @ '': '' @ e"
        using 2(2) [OF refl False Inr] by blast
      then show ?thesis
        using Inr by (intro exI [of _ "(n, l) # before"] exI [of _ m] exI [of _ k] exI [of _ after] exI [of _ e]) (auto simp: records_of_def)
    qed
  qed
qed simp

lemma map_batch_counts: "length (fst (map_batch env items)) + length (snd (map_batch env items)) = length items"
  by (induction items) (auto simp: Let_def split: prod.split sum.split)

section \<open>Properties\<close>

lemma enumerate_split:
  "List.enumerate n xs = before @ (m, y) # after \<Longrightarrow>
     m = n + length before \<and> xs = map snd before @ y # map snd after"
proof (induction xs arbitrary: n before)
  case (Cons x xs)
  show ?case
  proof (cases before)
    case Nil
    then show ?thesis using Cons.prems by (auto simp: enumerate_Suc_eq)
  next
    case (Cons b bs)
    then show ?thesis using Cons.IH [of "Suc n" bs] Cons.prems by auto
  qed
qed simp

text \<open>
  C39: ingesting a body of lines.  If every line that is not blank holds an item, the items are mapped
  and the documents among them are indexed as one batch; the answer counts every item once, as indexed
  or as skipped, with the reason.  Otherwise the request is refused, nothing is indexed, and the answer
  has the number of the first line that holds no item.
\<close>
theorem ingest_lines:
  fixes ls
  defines "items_at \<equiv> \<lambda>ls. records_of (map strip_return ls)"
  assumes header: "wants_lines header" and lines: "\<forall>l \<in> set ls. line_feed \<notin> set l"
    and body: "from_utf8 body = Inr (concat (map (\<lambda>l. l @ [line_feed]) ls))"
  shows "(\<forall>items docs errors. map (ip_item ip) (items_at ls) = map Inr items \<longrightarrow> length items \<le> 10000 \<longrightarrow>
      map_batch (ip_text ip) items = (docs, errors) \<longrightarrow> docs \<noteq> [] \<longrightarrow>
      length docs + length errors = length (items_at ls) \<and>
      http_ingest ip env ro header (Inr body) rs =
        answered (\<lambda>_. JObject [(''indexed'', JNumber (length docs)), (''skipped'', JNumber (length errors)),
            (''errors'', JArray (map (\<lambda>e. JString (mapping_error_display e)) errors))])
          (on_world (router_bulk_index env ro docs)) rs) \<and>
    ((\<exists>l \<in> set (items_at ls). \<exists>e. ip_item ip l = Inl e) \<longrightarrow>
      (\<exists>before l after e. ls = before @ l # after \<and>
        (\<forall>r \<in> set (items_at before). \<exists>item. ip_item ip r = Inr item) \<and>
        trim (strip_return l) \<noteq> [] \<and> ip_item ip (trim (strip_return l)) = Inl e \<and>
        http_ingest ip env ro header (Inr body) rs =
          Some (bad_request (''line '' @ show_nat (length before + 1) @ '': '' @ e), rs)))"
proof (intro conjI impI allI)
  have jsonl: "parse_jsonl ip body = parse_lines ip (List.enumerate 0 (map strip_return ls))"
    using body text_lines_join [OF lines] by (simp add: parse_jsonl_def)
  fix items docs errors
  assume items: "map (ip_item ip) (items_at ls) = map Inr items" and n: "length items \<le> 10000"
    and docs: "map_batch (ip_text ip) items = (docs, errors)" "docs \<noteq> []"
  have "length items = length (items_at ls)" using items by (metis length_map)
  then show counts: "length docs + length errors = length (items_at ls)"
    using map_batch_counts [of "ip_text ip" items] docs(1) by simp
  have "parse_jsonl ip body = Inr items"
    using items by (simp add: jsonl parse_lines_items items_at_def)
  moreover have "items \<noteq> []" using docs by auto
  ultimately show "http_ingest ip env ro header (Inr body) rs =
        answered (\<lambda>_. JObject [(''indexed'', JNumber (length docs)), (''skipped'', JNumber (length errors)),
            (''errors'', JArray (map (\<lambda>e. JString (mapping_error_display e)) errors))])
          (on_world (router_bulk_index env ro docs)) rs"
    using header n docs by (simp add: http_ingest_def comp_def)
next
  have jsonl: "parse_jsonl ip body = parse_lines ip (List.enumerate 0 (map strip_return ls))"
    using body text_lines_join [OF lines] by (simp add: parse_jsonl_def)
  assume bad: "\<exists>l \<in> set (items_at ls). \<exists>e. ip_item ip l = Inl e"
  have "parse_jsonl ip body \<noteq> Inr items" for items
  proof
    assume "parse_jsonl ip body = Inr items"
    then have "map (ip_item ip) (items_at ls) = map Inr items"
      by (simp add: jsonl parse_lines_items items_at_def)
    then have "ip_item ip ` set (items_at ls) = Inr ` set items" by (metis list.set_map)
    then show False using bad by force
  qed
  then obtain msg where msg: "parse_jsonl ip body = Inl msg" by (cases "parse_jsonl ip body") auto
  then obtain nbefore n l nafter e where at: "List.enumerate 0 (map strip_return ls) = nbefore @ (n, l) # nafter"
    "\<forall>r \<in> set (records_of (map snd nbefore)). \<exists>item. ip_item ip r = Inr item"
    "trim l \<noteq> []" "ip_item ip (trim l) = Inl e" "msg = ''line '' @ show_nat (n + 1) @ '': '' @ e"
    unfolding jsonl using parse_lines_error by blast
  from enumerate_split [OF at(1)]
  have n: "n = length nbefore" and "map strip_return ls = map snd nbefore @ l # map snd nafter" by auto
  then obtain before k after where split: "ls = before @ k # after" "map strip_return before = map snd nbefore"
    "strip_return k = l" by (auto simp: map_eq_append_conv map_eq_Cons_conv)
  have len: "n = length before" using n split(2) by (metis length_map)
  have "http_ingest ip env ro header (Inr body) rs = Some (bad_request msg, rs)"
    using header msg by (simp add: http_ingest_def)
  then show "\<exists>before l after e. ls = before @ l # after \<and>
        (\<forall>r \<in> set (items_at before). \<exists>item. ip_item ip r = Inr item) \<and>
        trim (strip_return l) \<noteq> [] \<and> ip_item ip (trim (strip_return l)) = Inl e \<and>
        http_ingest ip env ro header (Inr body) rs =
          Some (bad_request (''line '' @ show_nat (length before + 1) @ '': '' @ e), rs)"
    using split at(2,3,4,5) len by (intro exI [of _ before] exI [of _ k] exI [of _ after] exI [of _ e])
      (simp add: items_at_def)
qed

text \<open>A body of ASCII characters is a text.\<close>

lemma utf8_check_ascii: "\<forall>b \<in> set bs. b < 0x80 \<Longrightarrow> utf8_check pos bs = None"
proof (induction bs arbitrary: pos)
  case (Cons a bs)
  have "utf8_char a bs = Inr 1" using Cons.prems by (simp add: utf8_char_def good_bytes_def utf8_width_def)
  then show ?case using Cons by simp
qed simp

definition ascii_bytes :: "string \<Rightarrow> bytes" where
  "ascii_bytes t = map (\<lambda>c. word_of_nat (of_char c)) t"

lemma from_utf8_ascii:
  assumes "\<forall>c \<in> set t. (of_char c :: nat) < 128"
  shows "from_utf8 (ascii_bytes t) = Inr t"
proof -
  have small: "unat (word_of_nat (of_char c) :: u8) = of_char c" for c
    using of_char_mod_256 [of c, where 'a = nat] by (simp add: unat_of_nat)
  have "\<forall>b \<in> set (ascii_bytes t). b < 0x80"
    using assms by (auto simp: ascii_bytes_def word_less_nat_alt small)
  then have "utf8_check 0 (ascii_bytes t) = None" by (rule utf8_check_ascii)
  moreover have "bytes_text (ascii_bytes t) = t"
    by (simp add: bytes_text_def ascii_bytes_def comp_def small)
  ultimately show ?thesis by (simp add: from_utf8_def)
qed

definition example_item :: meli_item where
  "example_item = \<lparr>mi_id = ''MLA7'', mi_site_id = ''MLA'', mi_title = ''chair'', mi_price = F64 0,
     mi_category_id = ''MLA1'', mi_condition = [], mi_attributes = [], mi_thumbnail = [], mi_status = []\<rparr>"

definition example_items :: "text_env \<Rightarrow> item_parser" where
  "example_items env = \<lparr>ip_text = env, ip_item = (\<lambda>t. if t = ''{}'' then Inr example_item else Inl ''bad item''),
     ip_items = (\<lambda>bs. Inl ''bad array'')\<rparr>"

lemma trim_steps:
  "strip_space s = None \<Longrightarrow> trim_start s = s" "strip_end_space s = None \<Longrightarrow> trim_end s = s"
  "strip_space (c # s) = Some s \<Longrightarrow> trim_start (c # s) = trim_start s"
  by (subst trim_start.simps trim_end.simps, simp)+

lemma example_strips:
  "strip_space '' {}'' = Some ''{}''" "strip_space ''{}'' = None" "strip_space '' '' = Some []" "strip_space [] = None"
  "strip_space ''x'' = None" "strip_end_space ''{}'' = None" "strip_end_space [] = None" "strip_end_space ''x'' = None"
  by (simp_all add: strip_space_def strip_end_space_def white_space_def suffix_def)

text \<open>The second line is blank, the third one holds no item.\<close>

theorem ingest_lines_witness:
  "\<forall>env rs. http_ingest (example_items env) example_router_env example_router (Some ''application/x-NDJSON'')
     (Inr (ascii_bytes (concat (map (\<lambda>l. l @ [line_feed]) ['' {}'', '' '', ''x''])))) rs =
   Some (bad_request (''line '' @ show_nat 3 @ '': bad item''), rs)"
proof (intro allI)
  fix env and rs :: "unit rstate"
  let ?ls = "['' {}'', '' '', ''x'']"
  have header: "wants_lines (Some ''application/x-NDJSON'')" by code_simp
  have lines: "\<forall>l \<in> set ?ls. line_feed \<notin> set l" by code_simp
  have "\<forall>c \<in> set (concat (map (\<lambda>l. l @ [line_feed]) ?ls)). (of_char c :: nat) < 128" by simp
  then have body: "from_utf8 (ascii_bytes (concat (map (\<lambda>l. l @ [line_feed]) ?ls))) =
      Inr (concat (map (\<lambda>l. l @ [line_feed]) ?ls))" by (rule from_utf8_ascii)
  have recs: "map trim (map strip_return ?ls) = [''{}'', [], ''x'']"
    by (simp add: trim_def strip_return_def example_strips trim_steps)
  then have all: "records_of (map strip_return ?ls) = [''{}'', ''x'']" by (simp add: records_of_def)
  then have bad: "\<exists>l \<in> set (records_of (map strip_return ?ls)). \<exists>e. ip_item (example_items env) l = Inl e"
    by (simp add: example_items_def)
  from ingest_lines [OF header lines body, of "example_items env" example_router_env example_router rs,
      THEN conjunct2, rule_format, OF bad]
  obtain before l after e where at: "?ls = before @ l # after"
    "\<forall>r \<in> set (records_of (map strip_return before)). \<exists>item. ip_item (example_items env) r = Inr item"
    "trim (strip_return l) \<noteq> []" "ip_item (example_items env) (trim (strip_return l)) = Inl e"
    "http_ingest (example_items env) example_router_env example_router (Some ''application/x-NDJSON'')
       (Inr (ascii_bytes (concat (map (\<lambda>l. l @ [line_feed]) ?ls)))) rs =
     Some (bad_request (''line '' @ show_nat (length before + 1) @ '': '' @ e), rs)" by blast
  have "before = [] \<or> (\<exists>a. before = [a]) \<or> (\<exists>a b. before = [a, b])"
    using at(1) by (cases before; cases "tl before"; cases "tl (tl before)") auto
  then have "length before = 2 \<and> e = ''bad item''"
    using at(1,2,3,4) recs by (auto simp: example_items_def split: if_splits)
  then show "http_ingest (example_items env) example_router_env example_router (Some ''application/x-NDJSON'')
     (Inr (ascii_bytes (concat (map (\<lambda>l. l @ [line_feed]) ?ls)))) rs =
    Some (bad_request (''line '' @ show_nat 3 @ '': bad item''), rs)"
    using at(5) by simp
qed

lemma answered_Inr: "answered f m s = Some (Inr y, s') \<longleftrightarrow> (\<exists>x. m s = Some (Inr x, s') \<and> y = f x)"
  by (cases "m s") (auto simp: answered_def split: sum.splits)

lemma answered_bad: "answered f m s \<noteq> Some (Inl (BadRequest, j), s')"
  by (auto simp: answered_def split: sum.splits)

text \<open>A refusal leaves the state as it is.\<close>

lemma refused_keeps:
  "http_search env ro request rs = Some (Inl (BadRequest, j), rs') \<Longrightarrow> rs' = rs"
  "http_suggest env ro params rs = Some (Inl (BadRequest, j), rs') \<Longrightarrow> rs' = rs"
  "http_index env ro doc rs = Some (Inl (BadRequest, j), rs') \<Longrightarrow> rs' = rs"
  "http_bulk env ro docs rs = Some (Inl (BadRequest, j), rs') \<Longrightarrow> rs' = rs"
  "http_ingest ip env ro header body rs = Some (Inl (BadRequest, j), rs') \<Longrightarrow> rs' = rs"
  by (simp_all add: http_search_def http_suggest_def http_index_def http_bulk_def http_ingest_def Let_def
      answered_bad split: if_splits sum.splits prod.splits)

lemma router_search_page:
  assumes "router_search env ro request rs = Some (Inr resp, rs')"
  shows "length (r_hits resp) \<le> q_limit request"
proof -
  obtain c docs hit rsa rsb where "respond ro request c docs hit rsa = Some (resp, rsb)"
    using assms by (auto simp: router_search_def respond_from_cache_def split: option.splits prod.splits sum.splits)
  from respond_fields(1) [OF this] have "length (r_hits resp) =
      length (take (q_limit request) (drop (q_offset request) (cr_hits c)))"
    by (metis length_map)
  then show ?thesis by simp
qed



end
