(* ===== verification/HttpServer.thy ===== *)
theory HttpServer
  imports ServerSearch Http
begin

text \<open>
  The HTTP server in front of a standalone server (\<open>build_http_app\<close> in \<open>crates/server/src/main.rs\<close>): the
  routes, the endpoints that are not about documents, and the handling of one request, as a step of the
  server.  A request is what the extractors of the HTTP library make of it.
\<close>

section \<open>The application\<close>

datatype http_method = Get | Post | DeleteMethod

datatype endpoint = AdminPage | HealthCheck | SearchDocs | SuggestTerms | IndexDoc | BulkIndex | MeliBulk
  | DeleteDoc | Statistics | FlushAll | ReindexAll | Metrics

definition build_http_app :: "(string \<times> http_method \<times> endpoint) list" where
  "build_http_app =
     [(''/admin'', Get, AdminPage), (''/v1/health'', Get, HealthCheck), (''/v1/search'', Post, SearchDocs),
      (''/v1/suggest'', Get, SuggestTerms), (''/v1/index'', Post, IndexDoc), (''/v1/bulk'', Post, BulkIndex),
      (''/v1/ingest/bulk'', Post, MeliBulk), (''/v1/index/{id}'', DeleteMethod, DeleteDoc),
      (''/v1/stats'', Get, Statistics), (''/v1/admin/flush'', Post, FlushAll),
      (''/v1/admin/reindex'', Post, ReindexAll), (''/metrics'', Get, Metrics)]"

text \<open>No route is declared twice, which would be a panic of the library, and none is missing.\<close>

lemma routes_distinct: "distinct (map fst build_http_app)" "distinct (map (snd \<circ> snd) build_http_app)"
  by (simp_all add: build_http_app_def)

lemma routes_complete: "\<exists>path meth. (path, meth, e) \<in> set build_http_app"
  by (cases e) (auto simp: build_http_app_def)

text \<open>The gauges of the metrics library, by name and label.\<close>

type_synonym gauges = "string \<times> string \<rightharpoonup> f64"

record 's app_state =
  ap_router :: "'s rstate"
  ap_gauges :: gauges

definition health :: json where
  "health = JObject [(''status'', JString ''ok'')]"

fun set_gauges :: "group_stats list \<Rightarrow> gauges \<Rightarrow> gauges" where
  "set_gauges [] g = g"
| "set_gauges (grp # groups) g =
     (let i = show_nat (unat (ss_stats_shard_id (gs_primary grp)))
      in set_gauges groups (g((''shard_doc_count'', i) \<mapsto> f64_of_nat (unat (ss_doc_count (gs_primary grp))),
           (''shard_segment_count'', i) \<mapsto> f64_of_nat (unat (ss_segment_count (gs_primary grp))))))"

text \<open>\<open>render\<close> is the text format of the metrics library.\<close>

definition prometheus_metrics ::
  "(gauges \<Rightarrow> string) \<Rightarrow> 's router \<Rightarrow> 's app_state \<Rightarrow> (string \<times> 's app_state) option" where
  "prometheus_metrics render ro app =
     map_option (\<lambda>(groups, w).
       let g = set_gauges groups (ap_gauges app)
       in (render g, \<lparr>ap_router = (ap_router app)\<lparr>rs_world := w\<rparr>, ap_gauges = g\<rparr>))
       (router_stats ro (rs_world (ap_router app)))"

section \<open>Requests\<close>

datatype http_request = AdminRequest | HealthRequest | SearchRequest search_request | SuggestRequest suggest_params
  | IndexRequest document | BulkRequest "document list" | IngestRequest "string option" "string + bytes"
  | DeleteRequest u64 | StatsRequest | FlushRequest | ReindexRequest | MetricsRequest

datatype http_answer = Refused status json | PlainText string | JsonAnswer json
  | SearchAnswer search_response | SuggestAnswer "suggest_term list"

definition handled ::
  "('a \<Rightarrow> http_answer) \<Rightarrow> ('s rstate \<Rightarrow> (((status \<times> json) + 'a) \<times> 's rstate) option) \<Rightarrow>
   's app_state \<Rightarrow> (http_answer \<times> 's app_state) option" where
  "handled f m app =
     map_option (\<lambda>(r, rs). (case r of Inl (st, j) \<Rightarrow> Refused st j | Inr x \<Rightarrow> f x, app\<lparr>ap_router := rs\<rparr>))
       (m (ap_router app))"

fun http_handle ::
  "item_parser \<Rightarrow> (gauges \<Rightarrow> string) \<Rightarrow> string \<Rightarrow> 's router_env \<Rightarrow> 's router \<Rightarrow> http_request \<Rightarrow> 's app_state \<Rightarrow>
   (http_answer \<times> 's app_state) option" where
  "http_handle ip render page env ro AdminRequest app = Some (PlainText page, app)"
| "http_handle ip render page env ro HealthRequest app = Some (JsonAnswer health, app)"
| "http_handle ip render page env ro (SearchRequest request) app = handled SearchAnswer (http_search env ro request) app"
| "http_handle ip render page env ro (SuggestRequest params) app = handled SuggestAnswer (http_suggest env ro params) app"
| "http_handle ip render page env ro (IndexRequest doc) app = handled JsonAnswer (http_index env ro doc) app"
| "http_handle ip render page env ro (BulkRequest docs) app = handled JsonAnswer (http_bulk env ro docs) app"
| "http_handle ip render page env ro (IngestRequest header body) app =
     handled JsonAnswer (http_ingest ip env ro header body) app"
| "http_handle ip render page env ro (DeleteRequest i) app = handled JsonAnswer (http_delete ro i) app"
| "http_handle ip render page env ro StatsRequest app =
     handled JsonAnswer (\<lambda>rs. map_option (\<lambda>(j, rs). (Inr j, rs)) (http_stats ro rs)) app"
| "http_handle ip render page env ro FlushRequest app = handled JsonAnswer (http_flush ro) app"
| "http_handle ip render page env ro ReindexRequest app = handled JsonAnswer (http_reindex ro) app"
| "http_handle ip render page env ro MetricsRequest app =
     map_option (\<lambda>(t, app). (PlainText t, app)) (prometheus_metrics render ro app)"

text \<open>What a request writes: nothing if it is refused.\<close>

fun request_entries :: "item_parser \<Rightarrow> http_request \<Rightarrow> wal_entry list" where
  "request_entries ip (IndexRequest doc) = (if d_title doc = [] then [] else [Index doc])"
| "request_entries ip (BulkRequest docs) =
     (if 10000 < length docs \<or> list_ex (\<lambda>d. d_title d = []) docs then [] else map Index docs)"
| "request_entries ip (IngestRequest header body) =
     (case res_bind body (\<lambda>bytes. if wants_lines header then parse_jsonl ip bytes else ip_items ip bytes) of
        Inl e \<Rightarrow> []
      | Inr items \<Rightarrow> if 10000 < length items then [] else map Index (fst (map_batch (ip_text ip) items)))"
| "request_entries ip (DeleteRequest i) = [Delete i]"
| "request_entries ip r = []"

section \<open>Statistics\<close>

text \<open>The gauges of a shard are those of the last group with its number.\<close>

abbreviation group_label :: "group_stats \<Rightarrow> string" where
  "group_label grp \<equiv> show_nat (unat (ss_stats_shard_id (gs_primary grp)))"

lemma set_gauges_other: "i \<notin> group_label ` set groups \<Longrightarrow> set_gauges groups g (name, i) = g (name, i)"
  by (induction groups arbitrary: g) (auto simp: Let_def)

lemma gauges_exact:
  assumes "distinct (map group_label groups)" "grp \<in> set groups"
  shows "set_gauges groups g (''shard_doc_count'', group_label grp) = Some (f64_of_nat (unat (ss_doc_count (gs_primary grp)))) \<and>
    set_gauges groups g (''shard_segment_count'', group_label grp) = Some (f64_of_nat (unat (ss_segment_count (gs_primary grp))))"
  using assms
proof (induction groups arbitrary: g)
  case (Cons a groups)
  show ?case
  proof (cases "grp \<in> set groups")
    case True
    then show ?thesis using Cons by (simp add: Let_def)
  next
    case False
    then have "grp = a" "group_label grp \<notin> group_label ` set groups" using Cons.prems by auto
    then show ?thesis by (simp add: Let_def set_gauges_other)
  qed
qed simp

text \<open>Asking for the statistics changes nothing: the primaries of a standalone server answer from their
  state, and it has no replicas.\<close>

lemma standalone_stats:
  assumes ro: "standalone_ok libs base sg config ro"
  shows "\<exists>groups. router_stats ro w = Some (groups, w) \<and>
    map (\<lambda>g. gs_primary g) groups =
      map (\<lambda>k. shard_stats_of (shard_env_of base config k) (sd_shards w k)) [0..<shard_count config] \<and>
    (\<forall>g \<in> set groups. gs_replicas g = [])"
proof -
  let ?stats = "\<lambda>k. shard_stats_of (shard_env_of base config k) (sd_shards w k)"
  have one: "group_stats_of (primary_only (standalone_client base config k)) w =
      Some (Some \<lparr>gs_primary = ?stats k, gs_replicas = []\<rparr>, w)" for k
    by (simp add: group_stats_of_def primary_only_def write_target_def standalone_client_def local_shard_client_def
        shard_cell.zoom_get shard_at_def oks_def replica_clients_def)
  have "join_calls group_stats_of (map (\<lambda>k. primary_only (standalone_client base config k)) ks) w =
      Some (map (\<lambda>k. Some \<lparr>gs_primary = ?stats k, gs_replicas = []\<rparr>) ks, w)" for ks
    by (induction ks) (simp_all add: one)
  then have "router_stats ro w = Some (map (\<lambda>k. \<lparr>gs_primary = ?stats k, gs_replicas = []\<rparr>) [0..<shard_count config], w)"
    using ro by (simp add: router_stats_def standalone_ok_def map_filter_def comp_def)
  then show ?thesis by (auto simp: comp_def)
qed

section \<open>Requests as steps\<close>

lemma answered_outcome:
  "answered f m s = Some (r, s') \<Longrightarrow> (\<exists>r'. m s = Some (r', s')) \<and> (\<forall>j. r \<noteq> Inl (BadRequest, j))"
proof -
  assume "answered f m s = Some (r, s')"
  then obtain r' where "m s = Some (r', s')" and
    "r = (case r' of Inl e \<Rightarrow> Inl (InternalServerError, error_json (error_display e)) | Inr x \<Rightarrow> Inr (f x))"
    by (auto simp: answered_def)
  then show ?thesis by (cases r') simp_all
qed

text \<open>A handler that either refuses, and then has done nothing, or does a step.\<close>

lemma handled_step:
  assumes call: "handled f m app = Some (ans, app')" and f: "\<And>x st j. f x \<noteq> Refused st j"
    and step: "\<And>r rs'. m (ap_router app) = Some (r, rs') \<Longrightarrow>
      rs' = ap_router app \<and> es = [] \<or> R rs' \<and> (\<forall>j. r \<noteq> Inl (BadRequest, j))"
    and stay: "es = [] \<Longrightarrow> R (ap_router app)"
  shows "R (ap_router app') \<and> (\<forall>j. ans = Refused BadRequest j \<longrightarrow> app' = app \<and> es = []) \<and>
    ap_gauges app' = ap_gauges app"
proof -
  obtain r rs where m: "m (ap_router app) = Some (r, rs)" and app: "app' = app\<lparr>ap_router := rs\<rparr>"
    and ans': "ans = (case r of Inl (st, j) \<Rightarrow> Refused st j | Inr x \<Rightarrow> f x)"
    using call by (auto simp: handled_def)
  then have r: "m (ap_router app) = Some (r, ap_router app')" "app' = app\<lparr>ap_router := ap_router app'\<rparr>" by simp_all
  have ans: "r = Inl (BadRequest, j)" if "ans = Refused BadRequest j" for j
    using that f unfolding ans' by (auto split: sum.split_asm prod.split_asm)
  have "ap_gauges app' = ap_gauges app" by (subst r(2)) simp
  moreover have "app' = app" if "ap_router app' = ap_router app"
    by (subst r(2)) (simp add: that)
  ultimately show ?thesis using step [OF r(1)] stay ans by fastforce
qed

lemma stats_state: "standalone_ok libs base sg config ro \<Longrightarrow> http_stats ro rs = Some (j, rs') \<Longrightarrow> rs' = rs"
  using standalone_stats [of libs base sg config ro "rs_world rs"] by (auto simp: http_stats_def)

text \<open>
  C12: a request over HTTP is a step of the server: whatever the request is, what it leaves is what a run
  of the server reaches that goes on with the writes of the request, and if it is refused, it leaves
  the server as it was and writes nothing.  Only the request for the metrics sets gauges.
\<close>
theorem http_request_is_step:
  assumes run: "server_run libs base connect sg config env ro h (ap_router app)" and out: "outside_ok libs config env"
    and room: "server_room base config (rs_world (ap_router app)) (request_entries ip request)"
    and call: "http_handle ip render page env ro request app = Some (ans, app')"
  shows "server_run libs base connect sg config env ro (h @ request_entries ip request) (ap_router app') \<and>
    (\<forall>j. ans = Refused BadRequest j \<longrightarrow> app' = app \<and> request_entries ip request = []) \<and>
    (request \<noteq> MetricsRequest \<longrightarrow> ap_gauges app' = ap_gauges app)"
proof -
  let ?es = "request_entries ip request" and ?R = "\<lambda>es. server_run libs base connect sg config env ro (h @ es)"
  have ro: "standalone_ok libs base sg config ro" using server_run_ok [OF run out] by blast
  have stay: "?R ?es (ap_router app)" if "?es = []" using run that by simp
  note step = handled_step [where R = "?R ?es" and es = ?es, OF _ _ _ stay]
  have "?R ?es (ap_router app') \<and> (\<forall>j. ans = Refused BadRequest j \<longrightarrow> app' = app \<and> ?es = []) \<and>
      ap_gauges app' = ap_gauges app" if "request \<noteq> MetricsRequest"
    using call that
  proof (cases request)
    case (SearchRequest q)
    show ?thesis
      by (rule step [OF call [unfolded SearchRequest http_handle.simps]])
        (use room SearchRequest in \<open>auto simp: http_search_def dest!: answered_outcome intro: server_search [OF run] split: if_splits\<close>)
  next
    case (SuggestRequest params)
    show ?thesis
      by (rule step [OF call [unfolded SuggestRequest http_handle.simps]])
        (use room SuggestRequest in \<open>auto simp: http_suggest_def Let_def dest!: answered_outcome intro: server_suggest [OF run] split: if_splits\<close>)
  next
    case (IndexRequest doc)
    show ?thesis
      by (rule step [OF call [unfolded IndexRequest http_handle.simps]])
        (use room IndexRequest in \<open>auto simp: http_index_def dest!: answered_outcome intro: server_index [OF run] split: if_splits\<close>)
  next
    case (BulkRequest docs)
    show ?thesis
      by (rule step [OF call [unfolded BulkRequest http_handle.simps]])
        (use room BulkRequest in \<open>auto simp: http_bulk_def dest!: answered_outcome intro: server_bulk [OF run] split: if_splits\<close>)
  next
    case (DeleteRequest i)
    show ?thesis
      by (rule step [OF call [unfolded DeleteRequest http_handle.simps]])
        (use room DeleteRequest in \<open>auto simp: http_delete_def dest!: answered_outcome intro: server_delete [OF run] split: if_splits\<close>)
  next
    case FlushRequest
    show ?thesis
      by (rule step [OF call [unfolded FlushRequest http_handle.simps]])
        (use room FlushRequest in \<open>auto simp: http_flush_def dest!: answered_outcome intro: server_flush [OF run] split: if_splits\<close>)
  next
    case ReindexRequest
    show ?thesis
      by (rule step [OF call [unfolded ReindexRequest http_handle.simps]])
        (use room ReindexRequest in \<open>auto simp: http_reindex_def dest!: answered_outcome intro: server_reindex [OF run] split: if_splits\<close>)
  next
    case (IngestRequest header body)
    show ?thesis
      by (rule step [OF call [unfolded IngestRequest http_handle.simps]])
        (use room IngestRequest in \<open>auto simp: http_ingest_def Let_def bad_request_def dest!: answered_outcome
          intro: server_bulk [OF run] split: if_splits sum.splits prod.splits\<close>)
  next
    case StatsRequest
    show ?thesis
      by (rule step [OF call [unfolded StatsRequest http_handle.simps]])
        (use stats_state [OF ro] StatsRequest in auto)
  qed (use stay in auto)
  moreover have "ap_router app' = ap_router app" "\<forall>j. ans \<noteq> Refused BadRequest j" if "request = MetricsRequest"
    using call that standalone_stats [OF ro, of "rs_world (ap_router app)"]
    by (auto simp: prometheus_metrics_def Let_def)
  ultimately show ?thesis using stay by (cases "request = MetricsRequest") auto
qed

theorem http_request_is_step_witness:
  "\<forall>libs sg ip render page. \<exists>ro rs app'. http_handle ip render page (example_server_env :: unit standalone router_env) ro
      (IndexRequest (example_doc 7)) \<lparr>ap_router = rs, ap_gauges = Map.empty\<rparr> =
      Some (JsonAnswer (JObject [(''success'', JBool True)]), app') \<and>
    server_run libs example_shard_env no_primary sg example_config example_server_env ro [Index (example_doc 7)]
      (ap_router app')"
proof (intro allI)
  fix libs :: "(unit standalone, 'm) ranker_libs" and sg ip render page
  obtain ro and rs rs' :: "unit standalone rstate" where
    s: "server_run libs example_shard_env no_primary sg example_config example_server_env ro [] rs"
    "server_room example_shard_env example_config (rs_world rs) [Index (example_doc 7)]"
    "on_world (router_index example_server_env ro (example_doc 7)) rs = Some (Inr (), rs')"
    by (rule example_server_index) blast
  let ?app = "\<lparr>ap_router = rs, ap_gauges = Map.empty\<rparr>" and ?req = "IndexRequest (example_doc 7)"
  have entries: "request_entries ip ?req = [Index (example_doc 7)]" by (simp add: example_doc_def)
  have call: "http_handle ip render page example_server_env ro ?req ?app =
      Some (JsonAnswer (JObject [(''success'', JBool True)]), ?app\<lparr>ap_router := rs'\<rparr>)"
    using s(3) by (simp add: handled_def http_index_def answered_def example_doc_def)
  have "server_run libs example_shard_env no_primary sg example_config example_server_env ro ([] @ request_entries ip ?req)
      (ap_router (?app\<lparr>ap_router := rs'\<rparr>))"
    by (rule http_request_is_step [THEN conjunct1, OF _ example_outside_ok _ call])
      (use s(1,2) entries in \<open>simp_all only: app_state.simps\<close>)
  then have "server_run libs example_shard_env no_primary sg example_config example_server_env ro [Index (example_doc 7)]
      (ap_router (?app\<lparr>ap_router := rs'\<rparr>))" by (simp only: entries append_Nil)
  then show "\<exists>ro rs app'. http_handle ip render page (example_server_env :: unit standalone router_env) ro ?req
      \<lparr>ap_router = rs, ap_gauges = Map.empty\<rparr> = Some (JsonAnswer (JObject [(''success'', JBool True)]), app') \<and>
    server_run libs example_shard_env no_primary sg example_config example_server_env ro [Index (example_doc 7)]
      (ap_router app')"
    using call by blast
qed

end
